(* ===== verification/Zakura_Prelude.thy ===== *)
theory Zakura_Prelude
  imports Main "HOL-Library.Word" "HOL-Library.Signed_Division"
begin

text \<open>
  Shared vocabulary of the development.

  A Rust function that returns \<open>Result<T, E>\<close> and may also panic (an \<open>expect\<close>, an
  \<open>assert!\<close>, an arithmetic overflow in a build with overflow checks, a division by zero)
  is a function into \<open>('e, 'a) res\<close>: \<open>Ok\<close> and \<open>Err\<close> are the two constructors of
  \<open>Result\<close>, \<open>Panic\<close> is the third way out. A function with no error type is
  polymorphic in \<open>'e\<close>. Unsigned integers are \<open>nat\<close>, signed ones \<open>int\<close>, with the
  width checks of the source written out; bit fields are words.

  The theory holds the result type and its combinators, the checked integer operations, the
  bisection loop the schedules use, little-endian byte strings, and \<open>BTreeMap\<close>s as strictly
  sorted association lists.
\<close>

section \<open>Results and panics\<close>

datatype ('e, 'a) res = Ok 'a | Err 'e | Panic

primrec bindr :: "('e, 'a) res \<Rightarrow> ('a \<Rightarrow> ('e, 'b) res) \<Rightarrow> ('e, 'b) res" where
  "bindr (Ok x) f = f x"
| "bindr (Err e) f = Err e"
| "bindr Panic f = Panic"

primrec mapr :: "('a \<Rightarrow> 'b) \<Rightarrow> ('e, 'a) res \<Rightarrow> ('e, 'b) res" where
  "mapr f (Ok x) = Ok (f x)"
| "mapr f (Err e) = Err e"
| "mapr f Panic = Panic"

primrec map_err :: "('d \<Rightarrow> 'e) \<Rightarrow> ('d, 'a) res \<Rightarrow> ('e, 'a) res" where
  "map_err g (Ok x) = Ok x"
| "map_err g (Err e) = Err (g e)"
| "map_err g Panic = Panic"

text \<open>\<open>Option::expect\<close>, \<open>Result::expect\<close>, \<open>Option::ok_or\<close>, \<open>Result::ok\<close>, \<open>assert!\<close>.\<close>

primrec expect_some :: "'a option \<Rightarrow> ('e, 'a) res" where
  "expect_some None = Panic"
| "expect_some (Some x) = Ok x"

primrec expect_ok :: "('d, 'a) res \<Rightarrow> ('e, 'a) res" where
  "expect_ok (Ok x) = Ok x"
| "expect_ok (Err e) = Panic"
| "expect_ok Panic = Panic"

primrec ok_or :: "'e \<Rightarrow> 'a option \<Rightarrow> ('e, 'a) res" where
  "ok_or e None = Err e"
| "ok_or e (Some x) = Ok x"

primrec res_ok :: "('d, 'a) res \<Rightarrow> ('e, 'a option) res" where
  "res_ok (Ok x) = Ok (Some x)"
| "res_ok (Err e) = Ok None"
| "res_ok Panic = Panic"

definition assertr :: "bool \<Rightarrow> ('e, unit) res" where
  "assertr b = (if b then Ok () else Panic)"

primrec is_ok :: "('e, 'a) res \<Rightarrow> bool" where
  "is_ok (Ok x) = True"
| "is_ok (Err e) = False"
| "is_ok Panic = False"

text \<open>\<open>Iterator::try_fold\<close>.\<close>

primrec try_fold :: "('s \<Rightarrow> 'a \<Rightarrow> ('e, 's) res) \<Rightarrow> 's \<Rightarrow> 'a list \<Rightarrow> ('e, 's) res" where
  "try_fold f s [] = Ok s"
| "try_fold f s (x # xs) = bindr (f s x) (\<lambda>s'. try_fold f s' xs)"

text \<open>\<open>collect::<Result<Vec<_>, _>>\<close> of a mapped iterator.\<close>

primrec collect_res :: "('a \<Rightarrow> ('e, 'b) res) \<Rightarrow> 'a list \<Rightarrow> ('e, 'b list) res" where
  "collect_res f [] = Ok []"
| "collect_res f (x # xs) = bindr (f x) (\<lambda>y. bindr (collect_res f xs) (\<lambda>ys. Ok (y # ys)))"

text \<open>A loop of checks that stops at the first failure.\<close>

primrec for_each :: "('a \<Rightarrow> ('e, unit) res) \<Rightarrow> 'a list \<Rightarrow> ('e, unit) res" where
  "for_each f [] = Ok ()"
| "for_each f (x # xs) = bindr (f x) (\<lambda>_. for_each f xs)"

lemma bindr_cong [fundef_cong]:
  "m = m' \<Longrightarrow> (\<And>x. m' = Ok x \<Longrightarrow> f x = g x) \<Longrightarrow> bindr m f = bindr m' g"
  by (cases m') auto

lemma bindr_eq_Ok: "bindr m f = Ok y \<longleftrightarrow> (\<exists>x. m = Ok x \<and> f x = Ok y)"
  by (cases m) auto

lemma bindr_eq_Err: "bindr m f = Err e \<longleftrightarrow> m = Err e \<or> (\<exists>x. m = Ok x \<and> f x = Err e)"
  by (cases m) auto

lemma bindr_eq_Panic: "bindr m f = Panic \<longleftrightarrow> m = Panic \<or> (\<exists>x. m = Ok x \<and> f x = Panic)"
  by (cases m) auto

lemma mapr_eq_Ok: "mapr f m = Ok y \<longleftrightarrow> (\<exists>x. m = Ok x \<and> y = f x)"
  by (cases m) auto

lemma map_err_eq_Ok [simp]: "map_err g m = Ok y \<longleftrightarrow> m = Ok y"
  by (cases m) auto

lemma map_err_eq_Err: "map_err g m = Err e \<longleftrightarrow> (\<exists>d. m = Err d \<and> e = g d)"
  by (cases m) auto

lemma map_err_eq_Panic [simp]: "map_err g m = Panic \<longleftrightarrow> m = Panic"
  by (cases m) auto

lemma mapr_eq_Panic [simp]: "mapr f m = Panic \<longleftrightarrow> m = Panic"
  by (cases m) auto

lemma mapr_eq_Err [simp]: "mapr f m = Err e \<longleftrightarrow> m = Err e"
  by (cases m) auto

lemma expect_ok_eq_Ok [simp]: "expect_ok m = Ok y \<longleftrightarrow> m = Ok y"
  by (cases m) auto

lemma expect_some_eq_Ok [simp]: "expect_some m = Ok y \<longleftrightarrow> m = Some y"
  by (cases m) auto

lemma ok_or_eq_Ok [simp]: "ok_or e m = Ok y \<longleftrightarrow> m = Some y"
  by (cases m) auto

lemma assertr_simps [simp]: "assertr True = Ok ()" "assertr False = Panic"
  by (simp_all add: assertr_def)

lemma assertr_eq_Ok [simp]: "assertr b = Ok u \<longleftrightarrow> b"
  by (simp add: assertr_def)

lemmas res_eqs = bindr_eq_Ok bindr_eq_Err bindr_eq_Panic mapr_eq_Ok map_err_eq_Err

lemma for_each_Ok [simp]: "for_each f xs = Ok u \<longleftrightarrow> (\<forall>x \<in> set xs. f x = Ok ())"
  by (induction xs) (auto simp: bindr_eq_Ok)

lemma collect_res_Ok: "collect_res f xs = Ok ys \<longleftrightarrow> list_all2 (\<lambda>x y. f x = Ok y) xs ys"
  by (induction xs arbitrary: ys) (auto simp: bindr_eq_Ok list_all2_Cons1)

lemma collect_res_in: "collect_res f xs = Ok ys \<Longrightarrow> y \<in> set ys \<Longrightarrow> \<exists>x \<in> set xs. f x = Ok y"
  by (induction xs arbitrary: ys) (auto simp: bindr_eq_Ok)

lemma collect_res_map: "(\<And>x. x \<in> set xs \<Longrightarrow> f x = Ok (g x)) \<Longrightarrow> collect_res f xs = Ok (map g xs)"
  by (induction xs) simp_all

lemma try_fold_append:
  "try_fold f s (xs @ ys) = bindr (try_fold f s xs) (\<lambda>s'. try_fold f s' ys)"
proof (induction xs arbitrary: s)
  case (Cons x xs)
  then show ?case by (cases "f s x") auto
qed simp

lemma try_fold_invariant:
  assumes fold: "try_fold f s xs = Ok s'" and init: "I s"
    and step: "\<And>t x t'. I t \<Longrightarrow> x \<in> A \<Longrightarrow> f t x = Ok t' \<Longrightarrow> I t'"
    and sub: "set xs \<subseteq> A"
  shows "I s'"
  using fold init sub
proof (induction xs arbitrary: s)
  case Nil
  then show ?case by simp
next
  case (Cons x xs)
  from Cons.prems(1) obtain t where t: "f s x = Ok t" "try_fold f t xs = Ok s'"
    by (auto simp: bindr_eq_Ok)
  have "x \<in> A" using Cons.prems(3) by simp
  then have "I t" using step [OF Cons.prems(2) _ t(1)] by blast
  then show ?case using Cons.IH [OF t(2)] Cons.prems(3) by simp
qed

lemma try_fold_pure:
  assumes step: "\<And>t x. I t \<Longrightarrow> x \<in> A \<Longrightarrow> f t x = Ok (g t x) \<and> I (g t x)"
    and init: "I s" and sub: "set xs \<subseteq> A"
  shows "try_fold f s xs = Ok (foldl g s xs) \<and> I (foldl g s xs)"
  using init sub
proof (induction xs arbitrary: s)
  case Nil
  then show ?case by simp
next
  case (Cons x xs)
  have "f s x = Ok (g s x) \<and> I (g s x)"
    using step [OF Cons.prems(1)] Cons.prems(2) by simp
  then show ?case using Cons.IH [of "g s x"] Cons.prems(2) by simp
qed

section \<open>Checked integer operations\<close>

definition in_i64 :: "int \<Rightarrow> bool" where
  "in_i64 x \<longleftrightarrow> - (2 ^ 63) \<le> x \<and> x < 2 ^ 63"

definition i64_checked :: "int \<Rightarrow> int option" where
  "i64_checked x = (if in_i64 x then Some x else None)"

definition in_i128 :: "int \<Rightarrow> bool" where
  "in_i128 x \<longleftrightarrow> - (2 ^ 127) \<le> x \<and> x < 2 ^ 127"

definition i128_checked :: "int \<Rightarrow> int option" where
  "i128_checked x = (if in_i128 x then Some x else None)"

definition in_u32 :: "nat \<Rightarrow> bool" where
  "in_u32 x \<longleftrightarrow> x < 2 ^ 32"

definition in_u64 :: "nat \<Rightarrow> bool" where
  "in_u64 x \<longleftrightarrow> x < 2 ^ 64"

definition in_u128 :: "nat \<Rightarrow> bool" where
  "in_u128 x \<longleftrightarrow> x < 2 ^ 128"

definition u32_checked :: "nat \<Rightarrow> nat option" where
  "u32_checked x = (if in_u32 x then Some x else None)"

definition u64_checked :: "nat \<Rightarrow> nat option" where
  "u64_checked x = (if in_u64 x then Some x else None)"

definition u128_checked :: "nat \<Rightarrow> nat option" where
  "u128_checked x = (if in_u128 x then Some x else None)"

text \<open>Plain arithmetic, which panics when the result does not fit.\<close>

definition i64_op :: "int \<Rightarrow> ('e, int) res" where
  "i64_op x = expect_some (i64_checked x)"

definition u64_op :: "nat \<Rightarrow> ('e, nat) res" where
  "u64_op x = expect_some (u64_checked x)"

text \<open>\<open>i64\<close> division and \<open>div_euclid\<close>, which panic on a zero divisor.\<close>

definition i64_div :: "int \<Rightarrow> int \<Rightarrow> ('e, int) res" where
  "i64_div a b = (if b = 0 then Panic else i64_op (a sdiv b))"

definition i64_div_euclid :: "int \<Rightarrow> int \<Rightarrow> ('e, int) res" where
  "i64_div_euclid a b =
     (if b = 0 then Panic else i64_op (if 0 < b then a div b else - (a div (- b))))"

text \<open>\<open>u32::try_from(i64)\<close>, and subtraction of unsigned values.\<close>

definition u32_try_from :: "int \<Rightarrow> nat option" where
  "u32_try_from x = (if 0 \<le> x \<and> x < 2 ^ 32 then Some (nat x) else None)"

definition u_checked_sub :: "nat \<Rightarrow> nat \<Rightarrow> nat option" where
  "u_checked_sub a b = (if b \<le> a then Some (a - b) else None)"

definition div_ceil :: "nat \<Rightarrow> nat \<Rightarrow> nat" where
  "div_ceil a b = a div b + (if a mod b = 0 then 0 else 1)"

lemma div_ceil_le_iff: "0 < b \<Longrightarrow> div_ceil a b \<le> c \<longleftrightarrow> a \<le> b * c"
proof -
  assume b: "0 < b"
  have a: "a = b * (a div b) + a mod b" by simp
  show ?thesis
  proof (cases "a mod b = 0")
    case True
    then have "a = b * (a div b)" using a by simp
    then show ?thesis
      by (metis True add.right_neutral b div_ceil_def mult_le_cancel1)
  next
    case False
    then have "0 < a mod b" "a mod b < b" using b by auto
    then have "a div b < c \<longleftrightarrow> a \<le> b * c"
      by (metis False b div_less_iff_less_mult dvd_imp_mod_0 dvd_triv_left le_neq_implies_less
          less_imp_le mult.commute)
    then show ?thesis using False by (auto simp: div_ceil_def)
  qed
qed

lemma i64_checked_Some [simp]: "i64_checked x = Some y \<longleftrightarrow> in_i64 x \<and> y = x"
  by (auto simp: i64_checked_def)

lemma i64_checked_None [simp]: "i64_checked x = None \<longleftrightarrow> \<not> in_i64 x"
  by (auto simp: i64_checked_def)

lemma u32_checked_Some [simp]: "u32_checked x = Some y \<longleftrightarrow> in_u32 x \<and> y = x"
  by (auto simp: u32_checked_def)

lemma u32_try_from_Some [simp]:
  "u32_try_from x = Some y \<longleftrightarrow> 0 \<le> x \<and> x < 2 ^ 32 \<and> y = nat x"
  by (auto simp: u32_try_from_def)

lemma i64_op_Ok: "in_i64 x \<Longrightarrow> i64_op x = Ok x"
  by (simp add: i64_op_def i64_checked_def)

lemma u64_op_Ok: "in_u64 x \<Longrightarrow> u64_op x = Ok x"
  by (simp add: u64_op_def u64_checked_def)

lemma int_div_less: "0 < b \<Longrightarrow> (a :: int) < b * c \<Longrightarrow> a div b < c"
proof (rule ccontr)
  assume b: "0 < b" and a: "a < b * c" and "\<not> a div b < c"
  then have "b * c \<le> b * (a div b)" by simp
  moreover have "b * (a div b) + a mod b = a" by simp
  moreover have "0 \<le> a mod b" using b by simp
  ultimately show False using a by linarith
qed

lemma sdiv_nonneg: "0 \<le> a \<Longrightarrow> 0 < b \<Longrightarrow> (a::int) sdiv b = a div b"
  by (auto simp: signed_divide_int_def sgn_if)

lemma sdiv_neg: "(a::int) < 0 \<Longrightarrow> 0 < b \<Longrightarrow> a sdiv b = - ((- a) div b)"
  by (auto simp: signed_divide_int_def sgn_if)

section \<open>Bisection\<close>

text \<open>
  The loop \<open>while low < high { mid = low + (high - low) / 2; if p(mid) { high = mid } else
  { low = mid + 1 } }\<close>, whose test may panic. The subsidy schedule runs it three times.
\<close>

function bisect :: "(nat \<Rightarrow> ('e, bool) res) \<Rightarrow> nat \<Rightarrow> nat \<Rightarrow> ('e, nat) res" where
  "bisect p low high =
     (if low < high then
        (let mid = low + (high - low) div 2 in
         bindr (p mid) (\<lambda>b. if b then bisect p low mid else bisect p (mid + 1) high))
      else Ok low)"
  by pat_completeness auto
termination
  by (relation "measure (\<lambda>(p, low, high). high - low)") auto

declare bisect.simps [simp del]

text \<open>
  What a client of the loop relies on: the test is total on the searched range and, once true,
  stays true. The loop then returns the least element of the range that passes the test.
\<close>

locale monotone_test =
  fixes p :: "nat \<Rightarrow> ('e, bool) res" and P :: "nat \<Rightarrow> bool" and top :: nat
  assumes test_total: "m \<le> top \<Longrightarrow> p m = Ok (P m)"
    and test_mono: "P m \<Longrightarrow> m \<le> n \<Longrightarrow> n \<le> top \<Longrightarrow> P n"
begin

lemma bisect_least:
  assumes "low \<le> high" "high \<le> top" "P high"
  shows "\<exists>r. bisect p low high = Ok r \<and> low \<le> r \<and> r \<le> high \<and> P r \<and> (\<forall>m. low \<le> m \<and> m < r \<longrightarrow> \<not> P m)"
  using assms
proof (induction "high - low" arbitrary: low high rule: less_induct)
  case less
  show ?case
  proof (cases "low < high")
    case False
    with less.prems have "low = high" by simp
    with less.prems show ?thesis by (auto simp: bisect.simps [of p high high])
  next
    case True
    define mid where "mid = low + (high - low) div 2"
    have mid: "low \<le> mid" "mid < high" using True by (auto simp: mid_def)
    have step: "bisect p low high = (if P mid then bisect p low mid else bisect p (mid + 1) high)"
      using True mid less.prems test_total [of mid]
      by (simp add: bisect.simps [of p low high] mid_def [symmetric] Let_def)
    show ?thesis
    proof (cases "P mid")
      case Pm: True
      have "mid - low < high - low" using mid by simp
      then obtain r where "bisect p low mid = Ok r" "low \<le> r" "r \<le> mid" "P r"
          "\<forall>m. low \<le> m \<and> m < r \<longrightarrow> \<not> P m"
        using less.hyps [of mid low] mid less.prems Pm by auto
      with Pm step mid show ?thesis by auto
    next
      case Pm: False
      have below: "\<not> P m" if "m \<le> mid" for m
        using Pm test_mono [of m mid] that mid less.prems by auto
      have "high - (mid + 1) < high - low" using mid by auto
      moreover have "mid + 1 \<le> high" using mid by simp
      ultimately obtain r where r: "bisect p (mid + 1) high = Ok r" "mid + 1 \<le> r" "r \<le> high" "P r"
          "\<forall>m. mid + 1 \<le> m \<and> m < r \<longrightarrow> \<not> P m"
        using less.hyps [of high "mid + 1"] less.prems by auto
      have "\<not> P m" if "low \<le> m" "m < r" for m
        using r(5) below that by (cases "m \<le> mid") auto
      with Pm step mid r show ?thesis by auto
    qed
  qed
qed

lemma bisect_eq:
  assumes "low \<le> high" "high \<le> top" "P high"
  shows "bisect p low high = Ok (LEAST r. low \<le> r \<and> P r)"
    and "low \<le> (LEAST r. low \<le> r \<and> P r)" "(LEAST r. low \<le> r \<and> P r) \<le> high"
    and "P (LEAST r. low \<le> r \<and> P r)"
    and "low \<le> m \<Longrightarrow> m < (LEAST r. low \<le> r \<and> P r) \<Longrightarrow> \<not> P m"
proof -
  obtain r where r: "bisect p low high = Ok r" "low \<le> r" "r \<le> high" "P r"
      "\<forall>m. low \<le> m \<and> m < r \<longrightarrow> \<not> P m"
    using bisect_least [OF assms] by blast
  have least: "(LEAST r. low \<le> r \<and> P r) = r"
    using r by (intro Least_equality) (auto simp: not_less [symmetric])
  show "bisect p low high = Ok (LEAST r. low \<le> r \<and> P r)"
    "low \<le> (LEAST r. low \<le> r \<and> P r)" "(LEAST r. low \<le> r \<and> P r) \<le> high"
    "P (LEAST r. low \<le> r \<and> P r)"
    using r unfolding least by blast+
  show "low \<le> m \<Longrightarrow> m < (LEAST r. low \<le> r \<and> P r) \<Longrightarrow> \<not> P m"
    using r unfolding least by blast
qed

end

section \<open>Little-endian byte strings\<close>

type_synonym byte = "8 word"

primrec le_bytes :: "nat \<Rightarrow> nat \<Rightarrow> byte list" where
  "le_bytes 0 x = []"
| "le_bytes (Suc n) x = word_of_nat (x mod 256) # le_bytes n (x div 256)"

primrec le_nat :: "byte list \<Rightarrow> nat" where
  "le_nat [] = 0"
| "le_nat (b # bs) = unat b + 256 * le_nat bs"

lemma unat_byte_less [simp]: "unat (b :: byte) < 256"
  using unsigned_less [of b] by simp

lemma length_le_bytes [simp]: "length (le_bytes n x) = n"
  by (induction n arbitrary: x) auto

lemma le_nat_less: "le_nat bs < 256 ^ length bs"
proof (induction bs)
  case (Cons b bs)
  have "unat b + 256 * le_nat bs < 256 + 256 * le_nat bs" by simp
  also have "\<dots> = 256 * (le_nat bs + 1)" by simp
  also have "\<dots> \<le> 256 * 256 ^ length bs" using Cons by (intro mult_le_mono2) simp
  finally show ?case by simp
qed simp

lemma le_nat_le_bytes: "le_nat (le_bytes n x) = x mod 256 ^ n"
proof (induction n arbitrary: x)
  case (Suc n)
  have "unat (word_of_nat (x mod 256) :: byte) = x mod 256"
    by (simp add: unat_of_nat)
  with Suc show ?case
    by (simp add: mod_mult2_eq)
qed simp

lemma le_bytes_le_nat [simp]: "le_bytes (length bs) (le_nat bs) = bs"
proof (induction bs)
  case (Cons b bs)
  have "(unat b + 256 * le_nat bs) mod 256 = unat b" by simp
  moreover have "(unat b + 256 * le_nat bs) div 256 = le_nat bs" by simp
  ultimately show ?case using Cons by simp
qed simp

text \<open>Two's complement \<open>i64\<close>: \<open>to_le_bytes\<close> and \<open>from_le_bytes\<close>.\<close>

definition i64_to_le :: "int \<Rightarrow> byte list" where
  "i64_to_le x = le_bytes 8 (nat (x mod 2 ^ 64))"

definition i64_from_le :: "byte list \<Rightarrow> int" where
  "i64_from_le bs = (let v = int (le_nat bs) in if v < 2 ^ 63 then v else v - 2 ^ 64)"

lemma length_i64_to_le [simp]: "length (i64_to_le x) = 8"
  by (simp add: i64_to_le_def)

lemma i64_from_to_le [simp]: "in_i64 x \<Longrightarrow> i64_from_le (i64_to_le x) = x"
proof -
  assume x: "in_i64 x"
  have "int (nat (x mod 2 ^ 64) mod 256 ^ 8) = x mod 2 ^ 64"
    by (simp add: zmod_int)
  then have v: "int (le_nat (i64_to_le x)) = x mod 2 ^ 64"
    by (simp only: i64_to_le_def le_nat_le_bytes)
  have "x mod 2 ^ 64 = (if 0 \<le> x then x else x + 2 ^ 64)"
  proof (cases "0 \<le> x")
    case True
    with x show ?thesis by (simp add: in_i64_def)
  next
    case False
    have "x mod 2 ^ 64 = (x + 2 ^ 64) mod 2 ^ 64" by simp
    also have "\<dots> = x + 2 ^ 64"
      using x False by (intro mod_pos_pos_trivial) (auto simp: in_i64_def)
    finally show ?thesis using False by simp
  qed
  with x v show ?thesis
    by (auto simp: i64_from_le_def Let_def in_i64_def)
qed

lemma in_i64_from_le: "length bs = 8 \<Longrightarrow> in_i64 (i64_from_le bs)"
  using le_nat_less [of bs] by (auto simp: i64_from_le_def Let_def in_i64_def)

section \<open>Ordered maps\<close>

text \<open>
  A \<open>BTreeMap\<close> is an association list in strictly ascending key order; \<open>bt_insert\<close> replaces
  the value of a present key.
\<close>

primrec bt_insert :: "nat \<Rightarrow> 'v \<Rightarrow> (nat \<times> 'v) list \<Rightarrow> (nat \<times> 'v) list" where
  "bt_insert k v [] = [(k, v)]"
| "bt_insert k v (x # xs) =
     (if k < fst x then (k, v) # x # xs
      else if k = fst x then (k, v) # xs
      else x # bt_insert k v xs)"

definition bt_of_list :: "(nat \<times> 'v) list \<Rightarrow> (nat \<times> 'v) list" where
  "bt_of_list xs = foldl (\<lambda>m (k, v). bt_insert k v m) [] xs"

abbreviation bt_sorted :: "(nat \<times> 'v) list \<Rightarrow> bool" where
  "bt_sorted m \<equiv> sorted_wrt (<) (map fst m)"

lemma set_bt_insert_subset: "set (bt_insert k v m) \<subseteq> insert (k, v) (set m)"
  by (induction m) auto

lemma fst_bt_insert: "fst ` set (bt_insert k v m) = insert k (fst ` set m)"
  by (induction m) auto

lemma bt_sorted_insert: "bt_sorted m \<Longrightarrow> bt_sorted (bt_insert k v m)"
proof (induction m)
  case (Cons x xs)
  show ?case
  proof (cases "k \<le> fst x")
    case True
    with Cons.prems show ?thesis by auto
  next
    case False
    then have "\<forall>y \<in> fst ` set (bt_insert k v xs). fst x < y"
      using Cons.prems by (simp add: fst_bt_insert)
    with False Cons show ?thesis by simp
  qed
qed simp

lemma map_of_bt_insert: "bt_sorted m \<Longrightarrow> map_of (bt_insert k v m) = (map_of m)(k \<mapsto> v)"
proof (induction m)
  case (Cons x xs)
  obtain a b where x: "x = (a, b)" by fastforce
  have "map_of xs k = None" if "k \<le> a"
    using that Cons.prems x by (force simp: map_of_eq_None_iff)
  with Cons x show ?case by (auto simp: fun_eq_iff)
qed simp

lemma bt_sorted_of_list: "bt_sorted (bt_of_list xs)"
proof -
  have "bt_sorted m \<Longrightarrow> bt_sorted (foldl (\<lambda>m (k, v). bt_insert k v m) m xs)" for m :: "(nat \<times> 'a) list"
    by (induction xs arbitrary: m) (auto simp: bt_sorted_insert)
  then show ?thesis by (simp add: bt_of_list_def)
qed

end
