(* ===== verification/Byte_Readers.thy ===== *)
theory Byte_Readers
  imports Zakura_Prelude
begin

text \<open>
  Reading and writing bytes, as the history tree and the consensus serialization use them
  (\<open>std::io::Read::read_exact\<close> and the little-endian readers of \<open>byteorder\<close>, on input held in memory). A parser
  consumes a prefix of its input; writing to memory appends bytes. \<open>exact_parser\<close> is what a round trip needs of a
  format: the bytes of a value are read back whatever follows them, and no proper prefix of them is accepted.
\<close>

section \<open>Parsers\<close>

type_synonym bytes = "byte list"

text \<open>The kinds of \<open>io::Error\<close> the code reports.\<close>

datatype io_error = UnexpectedEof | InvalidData | InvalidInput | OtherError

type_synonym ('e, 'a) parser = "bytes \<Rightarrow> ('e, 'a \<times> bytes) res"

type_synonym 'a reader = "(io_error, 'a) parser"

definition rd_return :: "'a \<Rightarrow> ('e, 'a) parser" where
  "rd_return x bs = Ok (x, bs)"

definition rd_bind :: "('e, 'a) parser \<Rightarrow> ('a \<Rightarrow> ('e, 'b) parser) \<Rightarrow> ('e, 'b) parser" where
  "rd_bind r k bs = bindr (r bs) (\<lambda>(x, rest). k x rest)"

definition rd_fail :: "'e \<Rightarrow> ('e, 'a) parser" where
  "rd_fail e bs = Err e"

text \<open>The \<open>?\<close> operator converting the error of a nested reader.\<close>

definition rd_map_err :: "('d \<Rightarrow> 'e) \<Rightarrow> ('d, 'a) parser \<Rightarrow> ('e, 'a) parser" where
  "rd_map_err f r bs = map_err f (r bs)"

definition read_exact :: "nat \<Rightarrow> bytes reader" where
  "read_exact n bs = (if length bs < n then Err UnexpectedEof else Ok (take n bs, drop n bs))"

text \<open>\<open>read_u8\<close>, \<open>read_u16\<close>, \<open>read_u32\<close> and \<open>read_u64\<close> of \<open>n\<close> little-endian bytes.\<close>

definition read_le :: "nat \<Rightarrow> nat reader" where
  "read_le n = rd_bind (read_exact n) (\<lambda>bs. rd_return (le_nat bs))"

section \<open>Exact parsers\<close>

text \<open>A parser is exact for a value and its bytes when it returns the value from those bytes whatever
follows them, and reports an error of truncated input on every proper prefix.\<close>

definition exact_parser :: "'e set \<Rightarrow> ('e, 'a) parser \<Rightarrow> 'a \<Rightarrow> bytes \<Rightarrow> bool" where
  "exact_parser T r x bs \<longleftrightarrow>
     (\<forall>rest. r (bs @ rest) = Ok (x, rest)) \<and> (\<forall>n < length bs. r (take n bs) \<in> Err ` T)"

abbreviation reads :: "'a reader \<Rightarrow> 'a \<Rightarrow> bytes \<Rightarrow> bool" where
  "reads \<equiv> exact_parser {UnexpectedEof}"

lemma reads_def:
  "reads r x bs \<longleftrightarrow>
     (\<forall>rest. r (bs @ rest) = Ok (x, rest)) \<and> (\<forall>n < length bs. r (take n bs) = Err UnexpectedEof)"
  by (simp add: exact_parser_def)

named_theorems exact_readers

lemma exact_return [exact_readers]: "exact_parser T (rd_return x) x []"
  by (simp add: exact_parser_def rd_return_def)

lemma exact_return_eq: "x = y \<Longrightarrow> exact_parser T (rd_return x) y []"
  by (simp add: exact_return)

lemma exact_bind:
  assumes r: "exact_parser T r x bs" and k: "exact_parser T (k x) y cs"
  shows "exact_parser T (rd_bind r k) y (bs @ cs)"
  unfolding exact_parser_def
proof (intro conjI allI impI)
  show "rd_bind r k ((bs @ cs) @ rest) = Ok (y, rest)" for rest
    using r k by (simp add: exact_parser_def rd_bind_def)
  fix n assume n: "n < length (bs @ cs)"
  show "rd_bind r k (take n (bs @ cs)) \<in> Err ` T"
  proof (cases "n < length bs")
    case True
    then have "r (take n bs) \<in> Err ` T" using r by (simp add: exact_parser_def)
    then show ?thesis using True by (auto simp: rd_bind_def)
  next
    case False
    then have "take n (bs @ cs) = bs @ take (n - length bs) cs" by simp
    then show ?thesis using r k n False by (simp add: exact_parser_def rd_bind_def)
  qed
qed

lemmas reads_return = exact_return [where T = "{UnexpectedEof}"]

lemmas reads_return_eq = exact_return_eq [where T = "{UnexpectedEof}"]

lemmas reads_bind = exact_bind [where T = "{UnexpectedEof}"]

lemma reads_exact [exact_readers]: "length bs = n \<Longrightarrow> reads (read_exact n) bs bs"
  by (auto simp: reads_def read_exact_def)

lemma exact_map: "exact_parser T r x bs \<Longrightarrow> exact_parser T (rd_bind r (\<lambda>v. rd_return (f v))) (f x) bs"
  using exact_bind [of T r x bs "\<lambda>v. rd_return (f v)" "f x" "[]"] by (simp add: exact_return)

lemma exact_map_err:
  assumes "exact_parser S r x bs" "f ` S \<subseteq> T"
  shows "exact_parser T (rd_map_err f r) x bs"
  unfolding exact_parser_def
proof (intro conjI allI impI)
  show "rd_map_err f r (bs @ rest) = Ok (x, rest)" for rest
    using assms(1) by (simp add: exact_parser_def rd_map_err_def)
  show "rd_map_err f r (take n bs) \<in> Err ` T" if "n < length bs" for n
  proof -
    have "r (take n bs) \<in> Err ` S" using assms(1) that by (simp add: exact_parser_def)
    then show ?thesis using assms(2) by (auto simp: rd_map_err_def)
  qed
qed

lemma reads_le [exact_readers]: "x < 256 ^ n \<Longrightarrow> reads (read_le n) x (le_bytes n x)"
  unfolding read_le_def
  using exact_map [OF reads_exact [of "le_bytes n x" n], of le_nat] by (simp add: le_nat_le_bytes)

end
