(* ===== verification/Zcash_Serialization.thy ===== *)
theory Zcash_Serialization
  imports Byte_Readers
begin

text \<open>
  The consensus serialization traits of \<open>zakura-chain/src/serialization\<close> as far as block headers use them:
  errors, \<open>CompactSize\<close> integers (\<open>compact_size.rs\<close>), byte vectors with an external count
  (\<open>zcash_deserialize.rs\<close>) and the double SHA-256 writer (\<open>sha256d.rs\<close>). A \<open>ZcashReader\<close> over a slice knows how
  many bytes remain and one over a stream does not; the flag \<open>known\<close> says which. SHA-256 itself is a foreign
  function and enters as the parameter \<open>sha256\<close>.
\<close>

section \<open>Errors\<close>

text \<open>The variants of \<open>SerializationError\<close> that the modelled code reports.\<close>

datatype serialization_error = Io io_error | Parse string | TryFromIntError

definition serialization_to_io :: "serialization_error \<Rightarrow> io_error" where
  "serialization_to_io e = (case e of Io k \<Rightarrow> k | Parse _ \<Rightarrow> InvalidData | TryFromIntError \<Rightarrow> InvalidData)"

type_synonym 'a zreader = "(serialization_error, 'a) parser"

definition z_read_exact :: "nat \<Rightarrow> bytes zreader" where
  "z_read_exact n = rd_map_err Io (read_exact n)"

definition z_read_le :: "nat \<Rightarrow> nat zreader" where
  "z_read_le n = rd_map_err Io (read_le n)"

section \<open>Compact sizes\<close>

definition MAX_PROTOCOL_MESSAGE_LEN :: nat where
  "MAX_PROTOCOL_MESSAGE_LEN = 2 * 1024 * 1024"

definition compact_size_message_try_from :: "nat \<Rightarrow> (serialization_error, nat) res" where
  "compact_size_message_try_from sz =
     bindr (ok_or TryFromIntError (u32_checked sz)) (\<lambda>n.
     if n > MAX_PROTOCOL_MESSAGE_LEN then Err (Parse ''CompactSize larger than protocol message limit'')
     else Ok n)"

definition compact_encoded_len :: "nat \<Rightarrow> nat" where
  "compact_encoded_len n =
     (if n \<le> 0xfc then 1 else if n \<le> 0xffff then 3 else if n \<le> 0xffffffff then 5 else 9)"

definition compact_size_64_serialize :: "nat \<Rightarrow> bytes" where
  "compact_size_64_serialize n =
     (if n \<le> 0xfc then le_bytes 1 n
      else if n \<le> 0xffff then 0xfd # le_bytes 2 n
      else if n \<le> 0xffffffff then 0xfe # le_bytes 4 n
      else 0xff # le_bytes 8 n)"

definition canonical_from :: "nat \<Rightarrow> nat \<Rightarrow> nat zreader" where
  "canonical_from low n = (if low \<le> n then rd_return n else rd_fail (Parse ''non-canonical CompactSize''))"

text \<open>What follows the flag byte.\<close>

definition compact_size_64_rest :: "nat \<Rightarrow> nat zreader" where
  "compact_size_64_rest flag_byte =
     (if flag_byte \<le> 0xfc then rd_return flag_byte
      else if flag_byte = 0xfd then rd_bind (z_read_le 2) (canonical_from 0xfd)
      else if flag_byte = 0xfe then rd_bind (z_read_le 4) (canonical_from 0x10000)
      else rd_bind (z_read_le 8) (canonical_from 0x100000000))"

definition compact_size_64_deserialize :: "nat zreader" where
  "compact_size_64_deserialize = rd_bind (z_read_le 1) compact_size_64_rest"

definition compact_size_message_serialize :: "nat \<Rightarrow> ('e, bytes) res" where
  "compact_size_message_serialize sz =
     bindr (assertr (sz \<le> MAX_PROTOCOL_MESSAGE_LEN)) (\<lambda>_. Ok (compact_size_64_serialize sz))"

text \<open>On a 64-bit platform the conversion of a \<open>u64\<close> to \<open>usize\<close> never fails.\<close>

definition compact_size_message_deserialize :: "nat zreader" where
  "compact_size_message_deserialize =
     rd_bind compact_size_64_deserialize (\<lambda>sz rest.
       mapr (\<lambda>n. (n, rest)) (compact_size_message_try_from sz))"

section \<open>Byte vectors\<close>

definition MAX_U8_ALLOCATION :: nat where
  "MAX_U8_ALLOCATION = MAX_PROTOCOL_MESSAGE_LEN - 5"

definition MAX_INITIAL_ALLOCATION :: nat where
  "MAX_INITIAL_ALLOCATION = 1024"

text \<open>The loop over an unknown stream: a chunk at a time.\<close>

function read_chunks :: "nat \<Rightarrow> bytes \<Rightarrow> bytes reader" where
  "read_chunks count vec inp =
     (if length vec < count then
        (case read_exact (min (length vec + MAX_INITIAL_ALLOCATION) count - length vec) inp of
           Ok (chunk, rest) \<Rightarrow> read_chunks count (vec @ chunk) rest
         | Err e \<Rightarrow> Err e
         | Panic \<Rightarrow> Panic)
      else Ok (vec, inp))"
  by pat_completeness auto
termination
  by (relation "measure (\<lambda>(count, vec, inp). count - length vec)")
    (auto simp: read_exact_def MAX_INITIAL_ALLOCATION_def split: if_splits)

declare read_chunks.simps [simp del]

definition z_read_bytes :: "bool \<Rightarrow> nat \<Rightarrow> bytes zreader" where
  "z_read_bytes known external_count inp =
     (if external_count > MAX_U8_ALLOCATION then Err (Parse ''Byte vector longer than MAX_U8_ALLOCATION'')
      else if known then
        (if external_count > length inp then Err (Parse ''Byte vector exceeds available input'')
         else z_read_exact external_count inp)
      else rd_map_err Io (read_chunks external_count []) inp)"

section \<open>Double SHA-256\<close>

type_synonym digest = "bytes \<Rightarrow> bytes"

definition sha256d :: "digest \<Rightarrow> bytes \<Rightarrow> bytes" where
  "sha256d sha256 input = take 32 (sha256 (sha256 input))"

definition sha256d_checksum :: "digest \<Rightarrow> bytes \<Rightarrow> bytes" where
  "sha256d_checksum sha256 input = take 4 (sha256 (sha256 input))"

text \<open>What the code relies on of SHA-256.\<close>

definition sha256_32 :: "digest \<Rightarrow> bool" where
  "sha256_32 sha256 \<longleftrightarrow> (\<forall>x. length (sha256 x) = 32)"

section \<open>What the readers accept\<close>

named_theorems accepts

lemma rd_bind_accepts [accepts]:
  "rd_bind r k inp = Ok p \<longleftrightarrow> (\<exists>x mid. r inp = Ok (x, mid) \<and> k x mid = Ok p)"
  by (cases "r inp") (auto simp: rd_bind_def)

lemma rd_return_accepts [accepts]: "rd_return x inp = Ok (y, rest) \<longleftrightarrow> y = x \<and> rest = inp"
  by (auto simp: rd_return_def)

lemma rd_fail_accepts [accepts]: "rd_fail e inp = Ok p \<longleftrightarrow> False"
  by (simp add: rd_fail_def)

lemma read_exact_accepts [accepts]: "read_exact n inp = Ok (x, rest) \<longleftrightarrow> length x = n \<and> inp = x @ rest"
  by (auto simp: read_exact_def)

lemma read_le_accepts [accepts]: "read_le n inp = Ok (x, rest) \<longleftrightarrow> x < 256 ^ n \<and> inp = le_bytes n x @ rest"
  unfolding read_le_def accepts
  by (auto simp: le_nat_less le_nat_le_bytes intro!: exI [of _ "le_bytes n x"])

lemma z_read_exact_accepts [accepts]: "z_read_exact n inp = Ok (x, rest) \<longleftrightarrow> length x = n \<and> inp = x @ rest"
  by (simp add: z_read_exact_def rd_map_err_def read_exact_accepts)

lemma z_read_le_accepts [accepts]: "z_read_le n inp = Ok (x, rest) \<longleftrightarrow> x < 256 ^ n \<and> inp = le_bytes n x @ rest"
  by (simp add: z_read_le_def rd_map_err_def read_le_accepts)

lemma canonical_from_accepts [accepts]:
  "canonical_from low n inp = Ok (x, rest) \<longleftrightarrow> low \<le> n \<and> x = n \<and> rest = inp"
  by (auto simp: canonical_from_def accepts)

lemma flag_byte_accepts:
  "rd_bind (z_read_le 1) k inp = Ok p \<longleftrightarrow> (\<exists>flag mid. flag < 256 \<and> inp = word_of_nat flag # mid \<and> k flag mid = Ok p)"
  by (fastforce simp: rd_bind_accepts z_read_le_accepts)

lemma compact_size_64_accepts [accepts]:
  "compact_size_64_deserialize inp = Ok (x, rest) \<longleftrightarrow> in_u64 x \<and> inp = compact_size_64_serialize x @ rest"
  (is "?L \<longleftrightarrow> ?R")
proof
  assume ?L
  then obtain flag mid where flag: "flag < 256" "inp = word_of_nat flag # mid"
    and tail: "compact_size_64_rest flag mid = Ok (x, rest)"
    unfolding compact_size_64_deserialize_def flag_byte_accepts by blast
  consider "flag \<le> 0xfc" | "flag = 0xfd" | "flag = 0xfe" | "flag = 0xff" using flag(1) by linarith
  then show ?R
    by cases (use flag(2) tail in
        \<open>auto simp: accepts compact_size_64_rest_def compact_size_64_serialize_def in_u64_def\<close>)
next
  assume r: ?R
  consider "x \<le> 0xfc" | "0xfc < x" "x \<le> 0xffff" | "0xffff < x" "x \<le> 0xffffffff" | "0xffffffff < x"
    by linarith
  then have "\<exists>flag mid. flag < 256 \<and> inp = word_of_nat flag # mid \<and> compact_size_64_rest flag mid = Ok (x, rest)"
  proof cases
    case 1
    then show ?thesis
      using r by (intro exI [of _ x] exI [of _ rest])
        (auto simp: accepts compact_size_64_rest_def compact_size_64_serialize_def)
  next
    case 2
    then show ?thesis
      using r by (intro exI [of _ 253] exI [of _ "le_bytes 2 x @ rest"])
        (auto simp: accepts compact_size_64_rest_def compact_size_64_serialize_def)
  next
    case 3
    then show ?thesis
      using r by (intro exI [of _ 254] exI [of _ "le_bytes 4 x @ rest"])
        (auto simp: accepts compact_size_64_rest_def compact_size_64_serialize_def)
  next
    case 4
    then show ?thesis
      using r by (intro exI [of _ 255] exI [of _ "le_bytes 8 x @ rest"])
        (auto simp: accepts compact_size_64_rest_def compact_size_64_serialize_def in_u64_def)
  qed
  then show ?L unfolding compact_size_64_deserialize_def flag_byte_accepts .
qed

lemma length_compact_size: "length (compact_size_64_serialize n) = compact_encoded_len n"
  by (simp add: compact_size_64_serialize_def compact_encoded_len_def)

lemma compact_size_message_try_from_Ok:
  "compact_size_message_try_from n = Ok x \<longleftrightarrow> x = n \<and> n \<le> MAX_PROTOCOL_MESSAGE_LEN"
proof (cases "in_u32 n")
  case True
  then show ?thesis by (auto simp: compact_size_message_try_from_def u32_checked_def)
next
  case False
  then have "\<not> n \<le> MAX_PROTOCOL_MESSAGE_LEN" by (simp add: in_u32_def MAX_PROTOCOL_MESSAGE_LEN_def)
  then show ?thesis using False by (simp add: compact_size_message_try_from_def u32_checked_def)
qed

lemma compact_size_message_accepts [accepts]:
  "compact_size_message_deserialize inp = Ok (x, rest) \<longleftrightarrow>
     x \<le> MAX_PROTOCOL_MESSAGE_LEN \<and> inp = compact_size_64_serialize x @ rest"
proof -
  have "in_u64 x" if "x \<le> MAX_PROTOCOL_MESSAGE_LEN" using that by (simp add: in_u64_def MAX_PROTOCOL_MESSAGE_LEN_def)
  then show ?thesis
    unfolding compact_size_message_deserialize_def rd_bind_accepts compact_size_64_accepts mapr_eq_Ok
      compact_size_message_try_from_Ok by auto
qed

lemma read_chunks_exact:
  assumes "length vec \<le> count"
  shows "read_chunks count vec inp = mapr (\<lambda>(x, rest). (vec @ x, rest)) (read_exact (count - length vec) inp)"
  using assms
proof (induction count vec inp rule: read_chunks.induct)
  case (1 count vec inp)
  define k where "k = min (length vec + MAX_INITIAL_ALLOCATION) count - length vec"
  have k: "k \<le> count - length vec" by (auto simp: k_def)
  note unfold = read_chunks.simps [of count vec inp, folded k_def]
  show ?case
  proof (cases "length vec < count \<and> k \<le> length inp")
    case True
    then have e: "read_exact k inp = Ok (take k inp, drop k inp)" by (simp add: read_exact_def)
    have "read_chunks count (vec @ take k inp) (drop k inp) =
        mapr (\<lambda>(x, rest). ((vec @ take k inp) @ x, rest)) (read_exact (count - length (vec @ take k inp)) (drop k inp))"
      by (rule "1.IH" [OF conjunct1 [OF True] e [unfolded k_def], folded k_def]) (use True k in auto)
    moreover have "count - length (vec @ take k inp) = count - length vec - k" using True by simp
    moreover have "take k inp @ take (count - length vec - k) (drop k inp) = take (count - length vec) inp"
      using k by (metis le_add_diff_inverse take_add)
    moreover have "drop (count - length vec - k) (drop k inp) = drop (count - length vec) inp"
      unfolding drop_drop using k by (simp del: diff_diff_left)
    ultimately show ?thesis
      using True e k by (auto simp: unfold read_exact_def)
  next
    case False
    then show ?thesis using 1(2) k by (auto simp: unfold read_exact_def)
  qed
qed

lemma z_read_bytes_accepts [accepts]:
  "z_read_bytes known n inp = Ok (x, rest) \<longleftrightarrow> n \<le> MAX_U8_ALLOCATION \<and> length x = n \<and> inp = x @ rest"
  by (auto simp: z_read_bytes_def accepts rd_map_err_def read_chunks_exact mapr_eq_Ok)

section \<open>The readers never panic\<close>

named_theorems no_panic

lemma rd_bind_no_panic [no_panic]: "r inp \<noteq> Panic \<Longrightarrow> (\<forall>x mid. k x mid \<noteq> Panic) \<Longrightarrow> rd_bind r k inp \<noteq> Panic"
  by (cases "r inp") (auto simp: rd_bind_def)

lemma rd_simple_no_panic [no_panic]:
  "rd_return x inp \<noteq> Panic" "rd_fail e inp \<noteq> Panic" "read_exact n inp \<noteq> Panic"
  by (simp_all add: rd_return_def rd_fail_def read_exact_def)

lemma read_le_no_panic [no_panic]: "read_le n inp \<noteq> Panic"
  by (simp add: read_le_def no_panic)

lemma rd_map_err_no_panic [no_panic]: "rd_map_err f r inp \<noteq> Panic \<longleftrightarrow> r inp \<noteq> Panic"
  by (cases "r inp") (simp_all add: rd_map_err_def)

lemma z_read_no_panic [no_panic]: "z_read_exact n inp \<noteq> Panic" "z_read_le n inp \<noteq> Panic"
  by (simp_all add: z_read_exact_def z_read_le_def no_panic)

lemma compact_size_no_panic [no_panic]: "compact_size_message_deserialize inp \<noteq> Panic"
proof -
  have "canonical_from low n bs \<noteq> Panic" for low n bs by (simp add: canonical_from_def no_panic)
  then have "compact_size_64_rest flag bs \<noteq> Panic" for flag bs by (simp add: compact_size_64_rest_def no_panic)
  then have "compact_size_64_deserialize bs \<noteq> Panic" for bs
    unfolding compact_size_64_deserialize_def by (intro no_panic) simp
  then show ?thesis
    unfolding compact_size_message_deserialize_def
    by (intro no_panic) (simp_all add: compact_size_message_try_from_def u32_checked_def)
qed

lemma z_read_bytes_no_panic [no_panic]: "z_read_bytes known n inp \<noteq> Panic"
  by (simp add: z_read_bytes_def no_panic read_chunks_exact read_exact_def)

end
