(* ===== verification/Amount.thy ===== *)
theory Amount
  imports Zakura_Prelude
begin

text \<open>
  Zatoshi amounts (\<open>crates/zakura-chain/src/amount.rs\<close>). \<open>Amount<C>\<close> is a signed 64-bit
  value validated against the range of the marker type \<open>C\<close>; here the marker is the first
  argument of the operations that validate. The locale \<open>amount_constraint\<close> is the contract of the
  trait \<open>Constraint\<close>: the operations of the module are total and exact for every constraint that
  keeps it, and the three marker types of the source do.
\<close>

section \<open>Constraints and errors\<close>

definition COIN :: int where
  "COIN = 100000000"

definition MAX_MONEY :: int where
  "MAX_MONEY = 21000000 * COIN"

datatype constraint = NegativeAllowed | NonNegative | NegativeOrZero

primrec valid_range :: "constraint \<Rightarrow> int \<times> int" where
  "valid_range NegativeAllowed = (- MAX_MONEY, MAX_MONEY)"
| "valid_range NonNegative = (0, MAX_MONEY)"
| "valid_range NegativeOrZero = (- MAX_MONEY, 0)"

datatype amount_error =
    Constraint int "int \<times> int"
  | Convert int
  | MultiplicationOverflow int nat int
  | DivideByZero int
  | SumOverflow int nat

primrec invalid_value :: "amount_error \<Rightarrow> int" where
  "invalid_value (Constraint v r) = v"
| "invalid_value (Convert v) = v"
| "invalid_value (MultiplicationOverflow a m r) = r"
| "invalid_value (DivideByZero a) = a"
| "invalid_value (SumOverflow p n) = p"

text \<open>An amount is its number of zatoshis; \<open>valid_amount C\<close> is the invariant of \<open>Amount<C>\<close>.\<close>

type_synonym amount = int

type_synonym 'a amount_res = "(amount_error, 'a) res"

definition valid_amount :: "constraint \<Rightarrow> amount \<Rightarrow> bool" where
  "valid_amount C a \<longleftrightarrow> fst (valid_range C) \<le> a \<and> a \<le> snd (valid_range C)"

section \<open>Operations\<close>

definition validate :: "constraint \<Rightarrow> int \<Rightarrow> int amount_res" where
  "validate C v =
     (let range = valid_range C in
      if \<not> (fst range \<le> v \<and> v \<le> snd range) then Err (Constraint v range) else Ok v)"

definition amount_try_from_i64 :: "constraint \<Rightarrow> int \<Rightarrow> amount amount_res" where
  "amount_try_from_i64 C v = validate C v"

definition amount_try_from_u64 :: "constraint \<Rightarrow> nat \<Rightarrow> amount amount_res" where
  "amount_try_from_u64 C v =
     (if in_i64 (int v) then validate C (int v) else Err (Convert (int v)))"

definition amount_try_from_i128 :: "constraint \<Rightarrow> int \<Rightarrow> amount amount_res" where
  "amount_try_from_i128 C v = (if in_i64 v then validate C v else Err (Convert v))"

definition amount_new :: "int \<Rightarrow> ('e, amount) res" where
  "amount_new z = bindr (assertr (z \<le> MAX_MONEY \<and> 0 \<le> z)) (\<lambda>_. Ok z)"

definition amount_new_from_zec :: "int \<Rightarrow> ('e, amount) res" where
  "amount_new_from_zec z = bindr (expect_some (i64_checked (z * COIN))) amount_new"

definition div_exact :: "amount \<Rightarrow> int \<Rightarrow> ('e, amount) res" where
  "div_exact a rhs =
     (if rhs = 0 \<or> \<not> in_i64 (a sdiv rhs) then Panic
      else if a smod rhs \<noteq> 0 then Panic
      else Ok (a sdiv rhs))"

definition amount_constrain :: "constraint \<Rightarrow> amount \<Rightarrow> amount amount_res" where
  "amount_constrain C2 a = amount_try_from_i64 C2 a"

definition amount_checked_sub :: "amount \<Rightarrow> amount \<Rightarrow> amount option" where
  "amount_checked_sub a b =
     (case i64_checked (a - b) of
        None \<Rightarrow> None
      | Some v \<Rightarrow> (case amount_try_from_i64 NegativeAllowed v of Ok x \<Rightarrow> Some x | _ \<Rightarrow> None))"

definition amount_to_bytes :: "amount \<Rightarrow> byte list" where
  "amount_to_bytes a = i64_to_le a"

definition amount_from_bytes :: "constraint \<Rightarrow> byte list \<Rightarrow> amount amount_res" where
  "amount_from_bytes C bs = amount_try_from_i64 C (i64_from_le bs)"

definition amount_zero :: "constraint \<Rightarrow> ('e, amount) res" where
  "amount_zero C = expect_ok (amount_try_from_i64 C 0)"

definition amount_is_zero :: "amount \<Rightarrow> bool" where
  "amount_is_zero a \<longleftrightarrow> a = 0"

definition amount_add :: "constraint \<Rightarrow> amount \<Rightarrow> amount \<Rightarrow> amount amount_res" where
  "amount_add C a b = bindr (expect_some (i64_checked (a + b))) (amount_try_from_i64 C)"

definition amount_sub :: "constraint \<Rightarrow> amount \<Rightarrow> amount \<Rightarrow> amount amount_res" where
  "amount_sub C a b = bindr (expect_some (i64_checked (a - b))) (amount_try_from_i64 C)"

text \<open>\<open>Result<Amount> + Amount\<close> and \<open>Result<Amount> - Amount\<close>, also as \<open>+=\<close> and \<open>-=\<close>.\<close>

definition res_add :: "constraint \<Rightarrow> amount amount_res \<Rightarrow> amount \<Rightarrow> amount amount_res" where
  "res_add C m b = bindr m (\<lambda>a. amount_add C a b)"

definition res_sub :: "constraint \<Rightarrow> amount amount_res \<Rightarrow> amount \<Rightarrow> amount amount_res" where
  "res_sub C m b = bindr m (\<lambda>a. amount_sub C a b)"

definition amount_mul :: "constraint \<Rightarrow> amount \<Rightarrow> nat \<Rightarrow> amount amount_res" where
  "amount_mul C a rhs =
     bindr (expect_some (i128_checked (a * int rhs))) (\<lambda>value.
       map_err (\<lambda>_. MultiplicationOverflow a rhs value) (amount_try_from_i128 C value))"

definition amount_div :: "constraint \<Rightarrow> amount \<Rightarrow> nat \<Rightarrow> amount amount_res" where
  "amount_div C a rhs =
     (if rhs = 0 then Err (DivideByZero a)
      else expect_ok (amount_try_from_i128 C (a sdiv int rhs)))"

text \<open>
  \<open>Iterator::sum\<close>: the running sum from an accumulator. The error of a failed addition carries the
  partial sum and the number of items the iterator still holds; any other error is unreachable.
\<close>

primrec amount_sum_from :: "constraint \<Rightarrow> amount \<Rightarrow> amount list \<Rightarrow> amount amount_res" where
  "amount_sum_from C acc [] = Ok acc"
| "amount_sum_from C acc (x # xs) =
     (case amount_add C acc x of
        Ok acc' \<Rightarrow> amount_sum_from C acc' xs
      | Err e \<Rightarrow> (case e of Constraint v r \<Rightarrow> Err (SumOverflow v (length xs)) | _ \<Rightarrow> Panic)
      | Panic \<Rightarrow> Panic)"

definition amount_sum :: "constraint \<Rightarrow> amount list \<Rightarrow> amount amount_res" where
  "amount_sum C xs = bindr (amount_zero C) (\<lambda>z. amount_sum_from C z xs)"

definition amount_neg :: "amount \<Rightarrow> ('e, amount) res" where
  "amount_neg a =
     bindr (expect_some (i64_checked (- a))) (\<lambda>v. expect_ok (amount_try_from_i64 NegativeAllowed v))"

text \<open>
  Consensus serialization: a signed amount is read as an \<open>i64\<close>, a non-negative one as a \<open>u64\<close>.
  Writing a non-negative amount panics if the value is negative.
\<close>

definition amount_serialize :: "constraint \<Rightarrow> amount \<Rightarrow> ('e, byte list) res" where
  "amount_serialize C a =
     (case C of
        NonNegative \<Rightarrow> if 0 \<le> a then Ok (le_bytes 8 (nat a)) else Panic
      | _ \<Rightarrow> Ok (i64_to_le a))"

definition amount_deserialize :: "constraint \<Rightarrow> byte list \<Rightarrow> amount amount_res" where
  "amount_deserialize C bs =
     (case C of
        NonNegative \<Rightarrow> amount_try_from_u64 C (le_nat bs)
      | _ \<Rightarrow> amount_try_from_i64 C (i64_from_le bs))"

section \<open>The contract of a constraint\<close>

locale amount_constraint =
  fixes C :: constraint
  assumes zero_in_range: "valid_amount C 0"
    and range_bounded: "valid_amount C a \<Longrightarrow> \<bar>a\<bar> \<le> MAX_MONEY"
    and shrink_closed: "valid_amount C a \<Longrightarrow> \<bar>b\<bar> \<le> \<bar>a\<bar> \<Longrightarrow> 0 \<le> a * b \<Longrightarrow> valid_amount C b"
begin

lemma amount_in_i64: "valid_amount C a \<Longrightarrow> in_i64 a"
  using range_bounded [of a] by (auto simp: in_i64_def MAX_MONEY_def COIN_def)

lemma validate_valid: "valid_amount C v \<Longrightarrow> validate C v = Ok v"
  by (simp add: validate_def valid_amount_def Let_def)

lemma validate_invalid: "\<not> valid_amount C v \<Longrightarrow> validate C v = Err (Constraint v (valid_range C))"
  by (auto simp: validate_def valid_amount_def Let_def)

lemma zero_Ok: "amount_zero C = Ok 0"
  using zero_in_range by (simp add: amount_zero_def amount_try_from_i64_def validate_valid)

lemma add_eq:
  assumes "valid_amount C a" "valid_amount C b"
  shows "amount_add C a b = validate C (a + b)"
  using range_bounded [OF assms(1)] range_bounded [OF assms(2)]
  by (auto simp: amount_add_def amount_try_from_i64_def in_i64_def MAX_MONEY_def COIN_def
      i64_checked_def)

lemma sub_eq:
  assumes "valid_amount C a" "valid_amount C b"
  shows "amount_sub C a b = validate C (a - b)"
  using range_bounded [OF assms(1)] range_bounded [OF assms(2)]
  by (auto simp: amount_sub_def amount_try_from_i64_def in_i64_def MAX_MONEY_def COIN_def
      i64_checked_def)

lemma neg_eq: "valid_amount C a \<Longrightarrow> amount_neg a = Ok (- a)"
  using range_bounded [of a]
  by (auto simp: amount_neg_def amount_try_from_i64_def in_i64_def MAX_MONEY_def COIN_def
      i64_checked_def validate_def Let_def)

lemma try_from_i128_eq:
  "amount_try_from_i128 C v =
     (if valid_amount C v then Ok v
      else if in_i64 v then Err (Constraint v (valid_range C)) else Err (Convert v))"
  using amount_in_i64 [of v]
  by (auto simp: amount_try_from_i128_def validate_valid validate_invalid)

lemma mul_eq:
  assumes "valid_amount C a" "in_u64 n"
  shows "amount_mul C a n =
    (if valid_amount C (a * int n) then Ok (a * int n)
     else Err (MultiplicationOverflow a n (a * int n)))"
proof -
  have "\<bar>a * int n\<bar> \<le> MAX_MONEY * 2 ^ 64"
    using range_bounded [OF assms(1)] assms(2)
    by (simp add: abs_mult in_u64_def) (intro mult_mono, auto)
  then have "in_i128 (a * int n)"
    by (auto simp: in_i128_def MAX_MONEY_def COIN_def)
  then show ?thesis
    by (simp add: amount_mul_def i128_checked_def try_from_i128_eq)
qed

lemma sdiv_valid:
  assumes "valid_amount C a" "0 < n"
  shows "valid_amount C (a sdiv int n)"
proof (rule shrink_closed [OF assms(1)])
  define q where "q = \<bar>a\<bar> div int n"
  have sdiv: "a sdiv int n = sgn a * q"
    using assms(2) by (simp add: signed_divide_int_def q_def)
  have q: "0 \<le> q" "q \<le> \<bar>a\<bar>"
    using zdiv_mono2 [of "\<bar>a\<bar>" 1 "int n"] assms(2)
    by (simp_all add: q_def pos_imp_zdiv_nonneg_iff)
  have "\<bar>sgn a * q\<bar> \<le> q"
    using q(1) by (simp add: sgn_if)
  with q(2) show "\<bar>a sdiv int n\<bar> \<le> \<bar>a\<bar>"
    by (simp only: sdiv)
  have "a * (sgn a * q) = \<bar>a\<bar> * q"
    by (simp add: sgn_if)
  with q(1) show "0 \<le> a * (a sdiv int n)"
    by (simp only: sdiv) simp
qed

lemma div_eq:
  assumes "valid_amount C a"
  shows "amount_div C a n = (if n = 0 then Err (DivideByZero a) else Ok (a sdiv int n))"
  using sdiv_valid [OF assms, of n] by (simp add: amount_div_def try_from_i128_eq)

lemma sum_from_eq:
  assumes "valid_amount C acc" "\<forall>x \<in> set xs. valid_amount C x"
  shows "amount_sum_from C acc xs =
    (case find (\<lambda>n. \<not> valid_amount C (acc + sum_list (take n xs))) [1..<Suc (length xs)] of
       None \<Rightarrow> Ok (acc + sum_list xs)
     | Some n \<Rightarrow> Err (SumOverflow (acc + sum_list (take n xs)) (length xs - n)))"
  using assms
proof (induction xs arbitrary: acc)
  case Nil
  then show ?case by simp
next
  case (Cons x xs)
  have upt: "[1..<Suc (length (x # xs))] = 1 # map Suc [1..<Suc (length xs)]"
    by (simp add: map_Suc_upt upt_conv_Cons del: upt_Suc)
  have find_map: "find P (map Suc ns) = map_option Suc (find (\<lambda>n. P (Suc n)) ns)" for P and ns
    by (induction ns) auto
  show ?case
  proof (cases "valid_amount C (acc + x)")
    case True
    have "amount_sum_from C acc (x # xs) = amount_sum_from C (acc + x) xs"
      using Cons.prems True by (simp add: add_eq validate_valid)
    also have "\<dots> = (case find (\<lambda>n. \<not> valid_amount C (acc + x + sum_list (take n xs))) [1..<Suc (length xs)] of
       None \<Rightarrow> Ok (acc + x + sum_list xs)
     | Some n \<Rightarrow> Err (SumOverflow (acc + x + sum_list (take n xs)) (length xs - n)))"
      using Cons.IH [OF True] Cons.prems by simp
    finally show ?thesis
      unfolding upt using True
      by (simp add: find_map add.assoc del: amount_sum_from.simps upt_Suc split: option.split)
  next
    case False
    then show ?thesis
      unfolding upt using Cons.prems by (simp add: add_eq validate_invalid del: upt_Suc)
  qed
qed

lemma from_to_bytes: "valid_amount C a \<Longrightarrow> amount_from_bytes C (amount_to_bytes a) = Ok a"
  using amount_in_i64 [of a]
  by (simp add: amount_from_bytes_def amount_to_bytes_def amount_try_from_i64_def validate_valid)

lemma from_bytes_valid: "amount_from_bytes C bs = Ok a \<Longrightarrow> valid_amount C a"
  by (auto simp: amount_from_bytes_def amount_try_from_i64_def validate_def valid_amount_def Let_def
      split: if_splits)

end

lemma abs_shrink_cases:
  "\<bar>b\<bar> \<le> \<bar>a\<bar> \<Longrightarrow> 0 \<le> a * b \<Longrightarrow> (a::int) = 0 \<and> b = 0 \<or> 0 < a \<and> 0 \<le> b \<and> b \<le> a \<or> a < 0 \<and> b \<le> 0 \<and> a \<le> b"
  by (auto simp: zero_le_mult_iff abs_if split: if_splits)

interpretation amt: amount_constraint C for C
proof
  show "valid_amount C 0"
    by (cases C) (auto simp: valid_amount_def MAX_MONEY_def COIN_def)
  show "\<bar>a\<bar> \<le> MAX_MONEY" if "valid_amount C a" for a
    using that by (cases C) (auto simp: valid_amount_def MAX_MONEY_def COIN_def)
  show "valid_amount C b" if "valid_amount C a" "\<bar>b\<bar> \<le> \<bar>a\<bar>" "0 \<le> a * b" for a b
    using abs_shrink_cases [OF that(2,3)] that(1)
    by (cases C) (auto simp: valid_amount_def MAX_MONEY_def COIN_def)
qed

lemmas amount_simps = amt.zero_Ok amt.add_eq amt.sub_eq amt.neg_eq amt.mul_eq amt.div_eq

lemma validate_eq:
  "validate C v = (if valid_amount C v then Ok v else Err (Constraint v (valid_range C)))"
  by (simp add: amt.validate_valid amt.validate_invalid)

lemma validate_eq_Ok [simp]: "validate C v = Ok w \<longleftrightarrow> valid_amount C v \<and> w = v"
  by (auto simp: validate_eq)

lemma validate_not_Panic [simp]: "validate C v \<noteq> Panic"
  by (simp add: validate_eq)

lemma valid_NonNegative: "valid_amount NonNegative a \<longleftrightarrow> 0 \<le> a \<and> a \<le> MAX_MONEY"
  by (simp add: valid_amount_def)

lemma valid_NegativeAllowed: "valid_amount NegativeAllowed a \<longleftrightarrow> - MAX_MONEY \<le> a \<and> a \<le> MAX_MONEY"
  by (simp add: valid_amount_def)

lemma valid_NegativeAllowedI: "valid_amount C a \<Longrightarrow> valid_amount NegativeAllowed a"
  using amt.range_bounded [of C a] by (auto simp: valid_amount_def)

lemma MAX_MONEY_pos [simp]: "0 < MAX_MONEY"
  by (simp add: MAX_MONEY_def COIN_def)

section \<open>Properties\<close>

lemma find_upt_Some:
  "find P [1..<Suc k] = Some n \<longleftrightarrow> 1 \<le> n \<and> n \<le> k \<and> P n \<and> (\<forall>m. 1 \<le> m \<and> m < n \<longrightarrow> \<not> P m)"
proof
  assume "find P [1..<Suc k] = Some n"
  then obtain i where i: "i < k" "P (1 + i)" "n = 1 + i" "\<forall>j < i. \<not> P (1 + j)"
    by (auto simp: find_Some_iff simp del: upt_Suc)
  have "\<not> P m" if "1 \<le> m" "m < n" for m
    using i that by (cases m) auto
  with i show "1 \<le> n \<and> n \<le> k \<and> P n \<and> (\<forall>m. 1 \<le> m \<and> m < n \<longrightarrow> \<not> P m)" by auto
next
  assume n: "1 \<le> n \<and> n \<le> k \<and> P n \<and> (\<forall>m. 1 \<le> m \<and> m < n \<longrightarrow> \<not> P m)"
  then show "find P [1..<Suc k] = Some n"
    by (auto simp: find_Some_iff simp del: upt_Suc intro!: exI [of _ "n - 1"])
qed

lemma amount_sum_cases:
  assumes "\<forall>x \<in> set xs. valid_amount C x"
  shows "amount_sum C xs =
    (case find (\<lambda>n. \<not> valid_amount C (sum_list (take n xs))) [1..<Suc (length xs)] of
       None \<Rightarrow> Ok (sum_list xs)
     | Some n \<Rightarrow> Err (SumOverflow (sum_list (take n xs)) (length xs - n)))"
  using amt.sum_from_eq [OF amt.zero_in_range assms] by (simp add: amount_sum_def amt.zero_Ok del: upt_Suc cong: option.case_cong)

text \<open>
  C35. On amounts that satisfy their constraint, addition, subtraction, negation, multiplication by
  a \<open>u64\<close> and division by a \<open>u64\<close> never panic: each returns the exact integer result when
  that result satisfies the constraint (negation always does, under \<open>NegativeAllowed\<close>), and
  otherwise the error that carries the exact out-of-range value.
\<close>

theorem amount_ops_exact:
  assumes "valid_amount C a" "valid_amount C b" "in_u64 n"
  shows "amount_add C a b =
           (if valid_amount C (a + b) then Ok (a + b) else Err (Constraint (a + b) (valid_range C)))
       \<and> amount_sub C a b =
           (if valid_amount C (a - b) then Ok (a - b) else Err (Constraint (a - b) (valid_range C)))
       \<and> amount_neg a = (Ok (- a) :: amount amount_res)
       \<and> amount_mul C a n =
           (if valid_amount C (a * int n) then Ok (a * int n)
            else Err (MultiplicationOverflow a n (a * int n)))
       \<and> amount_div C a n = (if n = 0 then Err (DivideByZero a) else Ok (a sdiv int n))"
  using assms by (simp add: amount_simps validate_eq)

theorem amount_ops_exact_witness:
  "amount_add NonNegative MAX_MONEY 1 = Err (Constraint (MAX_MONEY + 1) (0, MAX_MONEY))
   \<and> amount_div NonNegative 7 2 = Ok 3"
proof -
  have h: "valid_amount NonNegative MAX_MONEY" "valid_amount NonNegative 1"
      "valid_amount NonNegative 7" "in_u64 2"
    by (simp_all add: valid_amount_def MAX_MONEY_def COIN_def in_u64_def)
  show ?thesis
    using amount_ops_exact [OF h(1,2,4)] amount_ops_exact [OF h(3,2,4)]
    by (simp add: valid_amount_def signed_divide_int_def)
qed

text \<open>
  C34. Summing a list of valid amounts never panics. It returns the exact sum precisely when every
  partial sum satisfies the constraint; otherwise it fails at the first prefix that leaves the range,
  and the error reports that partial sum and the number of items after it.
\<close>

theorem amount_sum_exact:
  assumes "\<forall>x \<in> set xs. valid_amount C x"
  shows "(amount_sum C xs = Ok s \<longleftrightarrow>
            s = sum_list xs \<and> (\<forall>n \<le> length xs. valid_amount C (sum_list (take n xs))))
       \<and> (amount_sum C xs = Err e \<longleftrightarrow>
            (\<exists>n \<le> length xs. \<not> valid_amount C (sum_list (take n xs))
               \<and> (\<forall>m < n. valid_amount C (sum_list (take m xs)))
               \<and> e = SumOverflow (sum_list (take n xs)) (length xs - n)))
       \<and> amount_sum C xs \<noteq> Panic"
proof -
  let ?P = "\<lambda>n. \<not> valid_amount C (sum_list (take n xs))"
  have zero: "\<not> ?P 0" using amt.zero_in_range [of C] by simp
  show ?thesis
  proof (cases "find ?P [1..<Suc (length xs)]")
    case None
    then have all: "\<forall>n \<le> length xs. \<not> ?P n"
      using zero by (auto simp: find_None_iff less_Suc_eq_le Suc_le_eq simp del: upt_Suc)
    show ?thesis
      using all None by (auto simp: amount_sum_cases [OF assms] simp del: upt_Suc)
  next
    case (Some n)
    then have n: "1 \<le> n" "n \<le> length xs" "?P n" "\<forall>m. 1 \<le> m \<and> m < n \<longrightarrow> \<not> ?P m"
      by (auto simp only: find_upt_Some)
    have first: "\<forall>m < n. \<not> ?P m" using n(4) zero by (metis less_one linorder_not_less)
    have uniq: "k = n" if "k \<le> length xs" "?P k" "\<forall>m < k. \<not> ?P m" for k
      using that first n(3) by (meson linorder_neqE_nat)
    have eq: "amount_sum C xs = Err (SumOverflow (sum_list (take n xs)) (length xs - n))"
      using Some by (simp add: amount_sum_cases [OF assms] del: upt_Suc)
    have "(\<exists>k \<le> length xs. ?P k \<and> (\<forall>m < k. \<not> ?P m) \<and> e = SumOverflow (sum_list (take k xs)) (length xs - k))
        \<longleftrightarrow> e = SumOverflow (sum_list (take n xs)) (length xs - n)"
      using n(2,3) first uniq by blast
    then show ?thesis using n(2,3) by (auto simp: eq)
  qed
qed

theorem amount_sum_exact_witness:
  "amount_sum NonNegative [5, MAX_MONEY, 1] = Err (SumOverflow (MAX_MONEY + 5) 1)"
proof -
  have h: "\<forall>x \<in> set [5, MAX_MONEY, 1]. valid_amount NonNegative x"
    by (simp add: valid_amount_def MAX_MONEY_def COIN_def)
  have "\<exists>n \<le> length [5, MAX_MONEY, 1]. \<not> valid_amount NonNegative (sum_list (take n [5, MAX_MONEY, 1]))
      \<and> (\<forall>m < n. valid_amount NonNegative (sum_list (take m [5, MAX_MONEY, 1])))
      \<and> SumOverflow (MAX_MONEY + 5) 1
        = SumOverflow (sum_list (take n [5, MAX_MONEY, 1])) (length [5, MAX_MONEY, 1] - n)"
    by (rule exI [of _ 2]) (auto simp: valid_amount_def MAX_MONEY_def COIN_def less_Suc_eq numeral_2_eq_2)
  then show ?thesis using amount_sum_exact [OF h] by blast
qed

end
