(* ===== verification/Height.thy ===== *)
theory Height
  imports Zakura_Prelude
begin

text \<open>
  Block heights, \<open>zakura-chain/src/block/height.rs\<close>. A \<open>Height\<close> is a \<open>u32\<close> that users keep
  at or below \<open>Height::MAX\<close>; a \<open>HeightDiff\<close> is an \<open>i64\<close>. The arithmetic on them goes through
  \<open>i64\<close>, so an addition can overflow there (a panic with overflow checks), leave \<open>u32\<close>, or leave
  the valid range.
\<close>

section \<open>Model\<close>

type_synonym height = nat

type_synonym height_diff = int

datatype height_error = Overflow | Underflow

datatype height_parse_error = Exceeds_Maximum | Integer_Parse_Error

definition MIN_HEIGHT :: height where
  "MIN_HEIGHT = 0"

definition MAX_HEIGHT :: height where
  "MAX_HEIGHT = 2147483647"

definition MAX_EXPIRY_HEIGHT :: height where
  "MAX_EXPIRY_HEIGHT = 499999999"

text \<open>The standard library's \<open>str::parse::<u32>\<close>: an optional plus sign, then decimal digits.\<close>

definition digit_value :: "char \<Rightarrow> nat option" where
  "digit_value c = (let v = of_char c :: nat in if 48 \<le> v \<and> v \<le> 57 then Some (v - 48) else None)"

fun parse_digits :: "nat \<Rightarrow> string \<Rightarrow> nat option" where
  "parse_digits acc [] = Some acc"
| "parse_digits acc (c # cs) =
     (case digit_value c of
        None \<Rightarrow> None
      | Some d \<Rightarrow> (case u32_checked (acc * 10 + d) of None \<Rightarrow> None | Some acc' \<Rightarrow> parse_digits acc' cs))"

definition parse_u32 :: "string \<Rightarrow> nat option" where
  "parse_u32 s =
     (let ds = (case s of c # cs \<Rightarrow> if c = CHR ''+'' then cs else s | [] \<Rightarrow> []) in
      if ds = [] then None else parse_digits 0 ds)"

definition height_from_str :: "string \<Rightarrow> (height_parse_error, height) res" where
  "height_from_str s =
     (case parse_u32 s of
        Some h \<Rightarrow> if h \<le> MAX_HEIGHT then Ok h else Err Exceeds_Maximum
      | None \<Rightarrow> Err Integer_Parse_Error)"

definition height_try_from_u32 :: "nat \<Rightarrow> height option" where
  "height_try_from_u32 h = (if h \<le> MAX_HEIGHT then Some h else None)"

text \<open>\<open>TryFrom<i64>\<close> only checks the \<open>u32\<close> range.\<close>

definition height_try_from_i64 :: "int \<Rightarrow> height option" where
  "height_try_from_i64 h = u32_try_from h"

text \<open>\<open>TryIntoHeight\<close> for the unsigned and signed integer types.\<close>

definition try_into_height :: "int \<Rightarrow> height option" where
  "try_into_height h = Option.bind (u32_try_from h) height_try_from_u32"

definition height_sub :: "height \<Rightarrow> height \<Rightarrow> height_diff" where
  "height_sub lhs rhs = int lhs - int rhs"

definition height_sub_diff :: "height \<Rightarrow> height_diff \<Rightarrow> ('e, height option) res" where
  "height_sub_diff lhs rhs =
     bindr (expect_some (i64_checked (int lhs - rhs)))
       (\<lambda>r. Ok (Option.bind (u32_try_from r) height_try_from_u32))"

definition height_add_diff :: "height \<Rightarrow> height_diff \<Rightarrow> ('e, height option) res" where
  "height_add_diff lhs rhs =
     bindr (expect_some (i64_checked (int lhs + rhs)))
       (\<lambda>r. Ok (Option.bind (u32_try_from r) height_try_from_u32))"

definition height_next :: "height \<Rightarrow> (height_error, height) res" where
  "height_next h = bindr (height_add_diff h 1) (ok_or Overflow)"

definition height_previous :: "height \<Rightarrow> (height_error, height) res" where
  "height_previous h = bindr (height_sub_diff h 1) (ok_or Underflow)"

definition height_is_min :: "height \<Rightarrow> bool" where
  "height_is_min h \<longleftrightarrow> h = MIN_HEIGHT"

section \<open>Lemmas\<close>

lemma height_add_diff_exact:
  assumes "in_u32 h" "- (2 ^ 62) \<le> d" "d \<le> 2 ^ 62"
  shows "height_add_diff h d =
    Ok (if 0 \<le> int h + d \<and> int h + d \<le> int MAX_HEIGHT then Some (nat (int h + d)) else None)"
  using assms
  by (auto simp: height_add_diff_def in_u32_def i64_checked_def in_i64_def u32_try_from_def
      height_try_from_u32_def MAX_HEIGHT_def)

lemma height_sub_diff_add: "height_sub_diff h d = height_add_diff h (- d)"
  by (simp add: height_sub_diff_def height_add_diff_def)

lemma height_next_eq:
  "in_u32 h \<Longrightarrow> height_next h = (if h < MAX_HEIGHT then Ok (h + 1) else Err Overflow)"
  by (auto simp: height_next_def height_add_diff_exact MAX_HEIGHT_def nat_add_distrib)

lemma height_previous_eq:
  "h \<le> MAX_HEIGHT \<Longrightarrow> height_previous h = (if h = 0 then Err Underflow else Ok (h - 1))"
  by (auto simp: height_previous_def height_sub_diff_add height_add_diff_exact MAX_HEIGHT_def
      in_u32_def nat_diff_distrib)

lemma height_previous_Ok: "height_previous h = Ok k \<longleftrightarrow> h = Suc k \<and> k \<le> MAX_HEIGHT"
  by (auto simp: height_previous_def height_sub_diff_def bindr_eq_Ok i64_checked_def in_i64_def
      u32_try_from_def height_try_from_u32_def MAX_HEIGHT_def split: if_splits)

lemma parse_digits_bound: "acc < 2 ^ 32 \<Longrightarrow> parse_digits acc cs = Some n \<Longrightarrow> n < 2 ^ 32"
  by (induction acc cs rule: parse_digits.induct)
    (auto split: option.splits simp: in_u32_def)

lemma height_arithmetic:
  assumes "h \<le> MAX_HEIGHT" "k \<le> MAX_HEIGHT" "- (2 ^ 62) \<le> d" "d \<le> 2 ^ 62"
  shows "height_add_diff h d =
      Ok (if 0 \<le> int h + d \<and> int h + d \<le> int MAX_HEIGHT then Some (nat (int h + d)) else None)"
    and "height_add_diff h d = Ok (Some r) \<Longrightarrow> height_sub_diff r d = Ok (Some h)"
    and "height_add_diff k (height_sub h k) = Ok (Some h)"
    and "height_from_str s = Ok r \<Longrightarrow> r \<le> MAX_HEIGHT"
    and "try_into_height i = Some r \<longleftrightarrow> 0 \<le> i \<and> i \<le> int MAX_HEIGHT \<and> r = nat i"
proof -
  have u: "in_u32 h" "in_u32 k" using assms by (auto simp: in_u32_def MAX_HEIGHT_def)
  show add: "height_add_diff h d =
      Ok (if 0 \<le> int h + d \<and> int h + d \<le> int MAX_HEIGHT then Some (nat (int h + d)) else None)"
    using height_add_diff_exact [OF u(1) assms(3,4)] .
  show "height_sub_diff r d = Ok (Some h)" if r: "height_add_diff h d = Ok (Some r)"
  proof -
    have r': "int r = int h + d" "r \<le> MAX_HEIGHT"
      using r unfolding height_add_diff_exact [OF u(1) assms(3,4)] by (auto split: if_splits)
    then have "in_u32 r" by (simp add: in_u32_def MAX_HEIGHT_def)
    then show ?thesis
      using r' assms height_add_diff_exact [of r "- d"]
      by (simp add: height_sub_diff_add)
  qed
  have "- (2 ^ 62) \<le> int h - int k" "int h - int k \<le> 2 ^ 62"
    using assms(1,2) by (auto simp: MAX_HEIGHT_def)
  then show "height_add_diff k (height_sub h k) = Ok (Some h)"
    using assms by (simp add: height_add_diff_exact [OF u(2)] height_sub_def)
  show "r \<le> MAX_HEIGHT" if "height_from_str s = Ok r"
    using that by (auto simp: height_from_str_def split: option.splits if_splits)
  show "try_into_height i = Some r \<longleftrightarrow> 0 \<le> i \<and> i \<le> int MAX_HEIGHT \<and> r = nat i"
    by (auto simp: try_into_height_def height_try_from_u32_def u32_try_from_def MAX_HEIGHT_def
        split: if_splits)
qed



end
