(* ===== verification/Network_Upgrade.thy ===== *)
theory Network_Upgrade
  imports Height
begin

text \<open>
  Network upgrades, the part of \<open>zakura-chain/src/parameters/network_upgrade.rs\<close> that does not
  depend on a network: the upgrades in activation order, the activation tables, the consensus
  branch ids, and the target spacing and averaging window of each upgrade. The variant \<open>ZFuture\<close>
  only exists under a build flag (\<open>zcash_unstable = "zfuture"\<close>) and is left out. Durations are
  numbers of seconds.
\<close>

section \<open>Upgrades in activation order\<close>

datatype network_upgrade =
    Genesis | BeforeOverwinter | Overwinter | Sapling | Blossom | Heartwood | Canopy
  | Nu5 | Nu6 | Nu6_1 | Nu6_2 | Nu6_3 | Nu7

definition NETWORK_UPGRADES :: "network_upgrade list" where
  "NETWORK_UPGRADES =
     [Genesis, BeforeOverwinter, Overwinter, Sapling, Blossom, Heartwood, Canopy,
      Nu5, Nu6, Nu6_1, Nu6_2, Nu6_3, Nu7]"

text \<open>The discriminant of a variant, which the derived \<open>Ord\<close> compares.\<close>

fun nu_index :: "network_upgrade \<Rightarrow> nat" where
  "nu_index Genesis = 0"
| "nu_index BeforeOverwinter = 1"
| "nu_index Overwinter = 2"
| "nu_index Sapling = 3"
| "nu_index Blossom = 4"
| "nu_index Heartwood = 5"
| "nu_index Canopy = 6"
| "nu_index Nu5 = 7"
| "nu_index Nu6 = 8"
| "nu_index Nu6_1 = 9"
| "nu_index Nu6_2 = 10"
| "nu_index Nu6_3 = 11"
| "nu_index Nu7 = 12"

lemma nu_index_inject [simp]: "nu_index a = nu_index b \<longleftrightarrow> a = b"
  by (cases a; cases b; simp)

instantiation network_upgrade :: linorder
begin

definition less_eq_network_upgrade :: "network_upgrade \<Rightarrow> network_upgrade \<Rightarrow> bool" where
  "a \<le> b \<longleftrightarrow> nu_index a \<le> nu_index b"

definition less_network_upgrade :: "network_upgrade \<Rightarrow> network_upgrade \<Rightarrow> bool" where
  "a < b \<longleftrightarrow> nu_index a < nu_index b"

instance
  by standard
    (auto simp: less_eq_network_upgrade_def less_network_upgrade_def antisym)

end

lemmas nu_order = less_eq_network_upgrade_def less_network_upgrade_def

definition next_upgrade :: "network_upgrade \<Rightarrow> network_upgrade option" where
  "next_upgrade nu =
     (let rest = dropWhile (\<lambda>n. nu \<noteq> n) NETWORK_UPGRADES in
      if 1 < length rest then Some (rest ! 1) else None)"

section \<open>Activation tables and branch ids\<close>

type_synonym activation_map = "(height \<times> network_upgrade) list"

definition MAINNET_ACTIVATION_HEIGHTS :: activation_map where
  "MAINNET_ACTIVATION_HEIGHTS =
     [(0, Genesis), (1, BeforeOverwinter), (347500, Overwinter), (419200, Sapling),
      (653600, Blossom), (903000, Heartwood), (1046400, Canopy), (1687104, Nu5),
      (2726400, Nu6), (3146400, Nu6_1), (3364600, Nu6_2), (3428143, Nu6_3), (3543405, Nu7)]"

definition TESTNET_ACTIVATION_HEIGHTS :: activation_map where
  "TESTNET_ACTIVATION_HEIGHTS =
     [(0, Genesis), (1, BeforeOverwinter), (207500, Overwinter), (280000, Sapling),
      (584000, Blossom), (903800, Heartwood), (1028500, Canopy), (1842420, Nu5),
      (2976000, Nu6), (3536500, Nu6_1), (4052000, Nu6_2), (4134000, Nu6_3), (4465026, Nu7)]"

definition CONSENSUS_BRANCH_IDS :: "(network_upgrade \<times> nat) list" where
  "CONSENSUS_BRANCH_IDS =
     [(Overwinter, 0x5ba81b19), (Sapling, 0x76b809bb), (Blossom, 0x2bb40e60),
      (Heartwood, 0xf5b9230b), (Canopy, 0xe9ff75a6), (Nu5, 0xc2d6d0b4), (Nu6, 0xc8e71055),
      (Nu6_1, 0x4dec4df0), (Nu6_2, 0x5437f330), (Nu6_3, 0x37a5165b), (Nu7, 0x77190ad9)]"

definition nu_try_from_branch_id :: "nat \<Rightarrow> network_upgrade option" where
  "nu_try_from_branch_id b = map_option fst (find (\<lambda>x. snd x = b) CONSENSUS_BRANCH_IDS)"

definition branch_id :: "network_upgrade \<Rightarrow> nat option" where
  "branch_id nu = map_option snd (find (\<lambda>x. fst x = nu) CONSENSUS_BRANCH_IDS)"

section \<open>Spacings and averaging windows\<close>

definition PRE_BLOSSOM_POW_TARGET_SPACING :: int where
  "PRE_BLOSSOM_POW_TARGET_SPACING = 150"

definition POST_BLOSSOM_POW_TARGET_SPACING :: int where
  "POST_BLOSSOM_POW_TARGET_SPACING = 75"

definition POST_NU7_POW_TARGET_SPACING :: int where
  "POST_NU7_POW_TARGET_SPACING = 25"

definition NU7_POW_TARGET_SPACING_RATIO :: nat where
  "NU7_POW_TARGET_SPACING_RATIO =
     nat (POST_BLOSSOM_POW_TARGET_SPACING div POST_NU7_POW_TARGET_SPACING)"

definition PRE_NU7_POW_AVERAGING_WINDOW :: nat where
  "PRE_NU7_POW_AVERAGING_WINDOW = 17"

definition POST_NU7_POW_AVERAGING_WINDOW :: nat where
  "POST_NU7_POW_AVERAGING_WINDOW = 102"

definition MAX_POW_AVERAGING_WINDOW :: nat where
  "MAX_POW_AVERAGING_WINDOW = POST_NU7_POW_AVERAGING_WINDOW"

definition TESTNET_MINIMUM_DIFFICULTY_START_HEIGHT :: height where
  "TESTNET_MINIMUM_DIFFICULTY_START_HEIGHT = 299188"

definition TESTNET_MAX_TIME_START_HEIGHT :: height where
  "TESTNET_MAX_TIME_START_HEIGHT = 653606"

definition PRE_NU7_TESTNET_MINIMUM_DIFFICULTY_GAP_MULTIPLIER :: int where
  "PRE_NU7_TESTNET_MINIMUM_DIFFICULTY_GAP_MULTIPLIER = 6"

definition POST_NU7_TESTNET_MINIMUM_DIFFICULTY_GAP_MULTIPLIER :: int where
  "POST_NU7_TESTNET_MINIMUM_DIFFICULTY_GAP_MULTIPLIER = 18"

definition target_spacing :: "network_upgrade \<Rightarrow> int" where
  "target_spacing nu =
     (case nu of
        Genesis \<Rightarrow> PRE_BLOSSOM_POW_TARGET_SPACING
      | BeforeOverwinter \<Rightarrow> PRE_BLOSSOM_POW_TARGET_SPACING
      | Overwinter \<Rightarrow> PRE_BLOSSOM_POW_TARGET_SPACING
      | Sapling \<Rightarrow> PRE_BLOSSOM_POW_TARGET_SPACING
      | Nu7 \<Rightarrow> POST_NU7_POW_TARGET_SPACING
      | _ \<Rightarrow> POST_BLOSSOM_POW_TARGET_SPACING)"

definition averaging_window :: "network_upgrade \<Rightarrow> nat" where
  "averaging_window nu =
     (case nu of Nu7 \<Rightarrow> POST_NU7_POW_AVERAGING_WINDOW | _ \<Rightarrow> PRE_NU7_POW_AVERAGING_WINDOW)"

definition averaging_window_timespan :: "network_upgrade \<Rightarrow> int" where
  "averaging_window_timespan nu = target_spacing nu * int (averaging_window nu)"

lemmas spacing_constants =
  PRE_BLOSSOM_POW_TARGET_SPACING_def POST_BLOSSOM_POW_TARGET_SPACING_def
  POST_NU7_POW_TARGET_SPACING_def NU7_POW_TARGET_SPACING_RATIO_def
  PRE_NU7_POW_AVERAGING_WINDOW_def POST_NU7_POW_AVERAGING_WINDOW_def

section \<open>Lemmas\<close>

lemma nu_ratio [simp]: "NU7_POW_TARGET_SPACING_RATIO = 3"
  by (simp add: spacing_constants)

lemma nu_index_list: "map nu_index NETWORK_UPGRADES = [0..<13]"
  by (simp add: NETWORK_UPGRADES_def upt_rec)

lemma nu_le_Genesis [simp]: "Genesis \<le> nu"
  by (simp add: nu_order)

lemma nu_le_Nu7 [simp]: "nu \<le> Nu7"
  by (cases nu) (simp_all add: nu_order)

lemma next_upgrade_index: "next_upgrade nu = Some nu' \<Longrightarrow> nu_index nu' = Suc (nu_index nu)"
  by (cases nu) (simp_all add: next_upgrade_def NETWORK_UPGRADES_def)

lemma next_upgrade_None [simp]: "next_upgrade nu = None \<longleftrightarrow> nu = Nu7"
  by (cases nu) (simp_all add: next_upgrade_def NETWORK_UPGRADES_def)

lemma next_upgrade_Nu7 [simp]: "next_upgrade Nu7 = None"
  by simp

lemma target_spacing_eq:
  "target_spacing nu = (if nu < Blossom then 150 else if nu < Nu7 then 75 else 25)"
  by (cases nu) (simp_all add: target_spacing_def nu_order spacing_constants)

lemma averaging_window_eq: "averaging_window nu = (if nu < Nu7 then 17 else 102)"
  by (cases nu) (simp_all add: averaging_window_def nu_order spacing_constants)

lemma averaging_window_timespan_eq:
  "averaging_window_timespan nu = (if nu < Blossom then 2550 else if nu < Nu7 then 1275 else 2550)"
  by (cases nu) (simp_all add: averaging_window_timespan_def target_spacing_eq averaging_window_eq nu_order)

lemma branch_id_eq_Some: "branch_id nu = Some b \<longleftrightarrow> (nu, b) \<in> set CONSENSUS_BRANCH_IDS"
  by (cases nu) (auto simp: branch_id_def CONSENSUS_BRANCH_IDS_def)

text \<open>
  C38. Consensus branch ids identify upgrades: looking an id up returns exactly the upgrade whose
  branch id it is, and precisely the two upgrades before Overwinter have no branch id.
\<close>

theorem branch_id_bijective:
  "(nu_try_from_branch_id b = Some nu \<longleftrightarrow> branch_id nu = Some b) \<and>
   (branch_id nu = None \<longleftrightarrow> nu < Overwinter)"
proof
  show "nu_try_from_branch_id b = Some nu \<longleftrightarrow> branch_id nu = Some b"
    by (cases nu) (auto simp: nu_try_from_branch_id_def branch_id_def CONSENSUS_BRANCH_IDS_def)
  show "branch_id nu = None \<longleftrightarrow> nu < Overwinter"
    by (cases nu) (simp_all add: branch_id_def CONSENSUS_BRANCH_IDS_def nu_order)
qed

end
