(* ===== verification/Difficulty.thy ===== *)
theory Difficulty
  imports Zakura_Prelude
begin

text \<open>
  Difficulty thresholds and work, \<open>zakura-chain/src/work/difficulty.rs\<close>. A \<open>CompactDifficulty\<close>
  is the 32-bit floating point \<open>nBits\<close> field, an \<open>ExpandedDifficulty\<close> a 256-bit target, and
  \<open>Work\<close> a 256-bit amount of work. \<open>U256\<close> is a 256-bit unsigned integer whose arithmetic panics
  when the result does not fit.
\<close>

unbundle bit_operations_syntax

section \<open>The 256-bit integers\<close>

type_synonym u256 = "256 word"

definition u256_add :: "u256 \<Rightarrow> u256 \<Rightarrow> ('e, u256) res" where
  "u256_add a b = (if unat a + unat b < 2 ^ 256 then Ok (a + b) else Panic)"

definition u256_mul :: "u256 \<Rightarrow> u256 \<Rightarrow> ('e, u256) res" where
  "u256_mul a b = (if unat a * unat b < 2 ^ 256 then Ok (a * b) else Panic)"

definition u256_div :: "u256 \<Rightarrow> u256 \<Rightarrow> ('e, u256) res" where
  "u256_div a b = (if b = 0 then Panic else Ok (a div b))"

definition u256_pow :: "u256 \<Rightarrow> nat \<Rightarrow> ('e, u256) res" where
  "u256_pow a n = (if unat a ^ n < 2 ^ 256 then Ok (a ^ n) else Panic)"

definition u256_checked_add :: "u256 \<Rightarrow> u256 \<Rightarrow> u256 option" where
  "u256_checked_add a b = (if unat a + unat b < 2 ^ 256 then Some (a + b) else None)"

definition u256_checked_sub :: "u256 \<Rightarrow> u256 \<Rightarrow> u256 option" where
  "u256_checked_sub a b = (if b \<le> a then Some (a - b) else None)"

text \<open>The number of significant bits of a number, \<open>U256::bits\<close>.\<close>

fun nat_bits :: "nat \<Rightarrow> nat" where
  "nat_bits n = (if n = 0 then 0 else Suc (nat_bits (n div 2)))"

declare nat_bits.simps [simp del]

definition u256_bits :: "u256 \<Rightarrow> nat" where
  "u256_bits v = nat_bits (unat v)"

section \<open>Compact and expanded difficulties\<close>

type_synonym compact_difficulty = "32 word"

type_synonym expanded_difficulty = u256

type_synonym work = u256

definition OFFSET :: int where
  "OFFSET = 3"

definition PRECISION :: nat where
  "PRECISION = 24"

definition SIGN_BIT :: "32 word" where
  "SIGN_BIT = push_bit (PRECISION - 1) 1"

definition UNSIGNED_MANTISSA_MASK :: "32 word" where
  "UNSIGNED_MANTISSA_MASK = SIGN_BIT - 1"

text \<open>The \<open>match\<close> that moves the mantissa into range; \<open>None\<close> is its early \<open>return None\<close>.\<close>

definition normalise_compact :: "32 word \<Rightarrow> int \<Rightarrow> (32 word \<times> int) option" where
  "normalise_compact m e =
     (if 32 \<le> e then None
      else if e = 31 \<and> m > 255 then None
      else if e = 31 \<and> m \<le> 255 then Some (push_bit 16 m, e - 2)
      else if e = 30 \<and> m > 65535 then None
      else if e = 30 \<and> m \<le> 65535 then Some (push_bit 8 m, e - 1)
      else if e < 0 then Some (drop_bit (nat (\<bar>e\<bar> * 8)) m, 0)
      else Some (m, e))"

text \<open>\<open>mantissa * base.pow(exponent)\<close>, with zero rejected.\<close>

definition compact_product :: "32 word \<Rightarrow> int \<Rightarrow> ('e, expanded_difficulty option) res" where
  "compact_product m e =
     bindr (u256_pow 256 (nat e)) (\<lambda>p.
     bindr (u256_mul (ucast m) p) (\<lambda>result.
     if result = 0 then Ok None else Ok (Some result)))"

definition to_expanded :: "compact_difficulty \<Rightarrow> ('e, expanded_difficulty option) res" where
  "to_expanded c =
     (if c AND SIGN_BIT = SIGN_BIT then Ok None
      else
        let mantissa = c AND UNSIGNED_MANTISSA_MASK;
            exponent = int (unat (drop_bit PRECISION c)) - OFFSET
        in case normalise_compact mantissa exponent of
             None \<Rightarrow> Ok None
           | Some (m, e) \<Rightarrow> compact_product m e)"

definition to_compact :: "expanded_difficulty \<Rightarrow> ('e, compact_difficulty) res" where
  "to_compact v =
     bindr (assertr (v > 0)) (\<lambda>_.
     let size = u256_bits v div 8 + 1;
         mantissa = (if v \<le> ucast UNSIGNED_MANTISSA_MASK then push_bit (8 * (3 - size)) v
                     else drop_bit (8 * (size - 3)) v)
     in bindr (assertr (int size < 31 + OFFSET)) (\<lambda>_.
        bindr (assertr (mantissa \<le> ucast UNSIGNED_MANTISSA_MASK)) (\<lambda>_.
        if mantissa > 0 then Ok (ucast mantissa + push_bit 24 (word_of_nat size)) else Panic)))"

text \<open>\<open>TryFrom<ExpandedDifficulty> for Work\<close>: the only error is a zero target.\<close>

definition work_try_from :: "expanded_difficulty \<Rightarrow> (unit, work) res" where
  "work_try_from v =
     (if v = 0 then Err ()
      else if v = - 1 then Ok 1
      else bindr (u256_add v 1) (\<lambda>d. bindr (u256_div (NOT v) d) (\<lambda>q. u256_add q 1)))"

definition to_work :: "compact_difficulty \<Rightarrow> ('e, work option) res" where
  "to_work c =
     bindr (to_expanded c) (\<lambda>e. case e of None \<Rightarrow> Ok None | Some v \<Rightarrow> res_ok (work_try_from v))"

text \<open>Four-byte forms: little-endian in a header, big-endian for display.\<close>

definition compact_to_le_bytes :: "compact_difficulty \<Rightarrow> byte list" where
  "compact_to_le_bytes c = le_bytes 4 (unat c)"

definition compact_from_le_bytes :: "byte list \<Rightarrow> compact_difficulty" where
  "compact_from_le_bytes bs = word_of_nat (le_nat bs)"

definition bytes_in_display_order :: "compact_difficulty \<Rightarrow> byte list" where
  "bytes_in_display_order c = rev (le_bytes 4 (unat c))"

definition from_bytes_in_display_order :: "byte list \<Rightarrow> (unit, compact_difficulty) res" where
  "from_bytes_in_display_order bs =
     (let difficulty = word_of_nat (le_nat (rev bs)) in
      bindr (to_expanded difficulty) (\<lambda>e. if e = None then Err () else Ok difficulty))"

text \<open>A block hash compared with a target, as a little-endian 256-bit number.\<close>

definition from_hash :: "byte list \<Rightarrow> expanded_difficulty" where
  "from_hash h = word_of_nat (le_nat h)"

definition hash_gt_target :: "byte list \<Rightarrow> expanded_difficulty \<Rightarrow> bool" where
  "hash_gt_target h t \<longleftrightarrow> t < from_hash h"

definition expanded_sum :: "expanded_difficulty list \<Rightarrow> ('e, expanded_difficulty) res" where
  "expanded_sum vs = try_fold u256_add 0 vs"

section \<open>Cumulative work\<close>

definition partial_work_checked_add :: "u256 \<Rightarrow> work \<Rightarrow> u256 option" where
  "partial_work_checked_add acc w = u256_checked_add acc w"

definition partial_work_checked_sub :: "u256 \<Rightarrow> work \<Rightarrow> u256 option" where
  "partial_work_checked_sub acc w = u256_checked_sub acc w"

definition partial_work_sub :: "u256 \<Rightarrow> work \<Rightarrow> ('e, u256) res" where
  "partial_work_sub acc w = expect_some (partial_work_checked_sub acc w)"

section \<open>What the encodings mean\<close>

text \<open>
  The value a compact difficulty stands for, \<open>floor(mantissa * 256 ^ (size - 3))\<close>, and the size
  and mantissa that \<open>ToCompact\<close> of the specification gives a positive number.
\<close>

definition compact_value :: "compact_difficulty \<Rightarrow> nat" where
  "compact_value c = (unat c mod 2 ^ 23) * 256 ^ (unat c div 2 ^ 24) div 256 ^ 3"

definition compact_size :: "nat \<Rightarrow> nat" where
  "compact_size n = nat_bits n div 8 + 1"

definition compact_mantissa :: "nat \<Rightarrow> nat" where
  "compact_mantissa n =
     (if n < 2 ^ 23 then n * 256 ^ (3 - compact_size n) else n div 256 ^ (compact_size n - 3))"

definition compact_encoding :: "nat \<Rightarrow> nat" where
  "compact_encoding n = compact_mantissa n + compact_size n * 2 ^ 24"

section \<open>Lemmas\<close>

lemma nat_bits_le_iff: "nat_bits n \<le> k \<longleftrightarrow> n < 2 ^ k"
proof (induction n arbitrary: k rule: nat_bits.induct)
  case (1 n)
  show ?case
  proof (cases "n = 0")
    case True
    then show ?thesis by (simp add: nat_bits.simps [of 0])
  next
    case False
    then show ?thesis
    proof (cases k)
      case (Suc k')
      have "nat_bits n \<le> k \<longleftrightarrow> nat_bits (n div 2) \<le> k'"
        using False Suc by (simp add: nat_bits.simps [of n])
      also have "\<dots> \<longleftrightarrow> n div 2 < 2 ^ k'" using 1 False by blast
      also have "\<dots> \<longleftrightarrow> n < 2 ^ k" using Suc by (simp add: div_less_iff_less_mult mult.commute)
      finally show ?thesis .
    qed (simp add: nat_bits.simps [of n])
  qed
qed

lemma nat_bits_gt_iff: "k < nat_bits n \<longleftrightarrow> 2 ^ k \<le> n"
  using nat_bits_le_iff [of n k] by auto

lemma unat_lt_256: "unat (v :: u256) < 2 ^ 256"
  using unsigned_less [of v] by simp

lemmas unat_lt_256_num [simp] = unat_lt_256 [simplified]

lemma u256_bits_le [simp]: "u256_bits v \<le> 256"
  by (simp add: u256_bits_def nat_bits_le_iff)

lemma mantissa_mask: "UNSIGNED_MANTISSA_MASK = mask 23"
  by (simp add: UNSIGNED_MANTISSA_MASK_def SIGN_BIT_def PRECISION_def mask_eq_exp_minus_1)

lemma unat_mantissa: "unat (c AND UNSIGNED_MANTISSA_MASK) = unat c mod 2 ^ 23"
proof -
  have "c AND UNSIGNED_MANTISSA_MASK = take_bit 23 c"
    by (simp only: mantissa_mask take_bit_eq_mask)
  then have "unat (c AND UNSIGNED_MANTISSA_MASK) = take_bit 23 (unat c)"
    by (simp only: unsigned_take_bit_eq)
  then show ?thesis by (simp only: take_bit_eq_mod)
qed

lemma unat_size: "unat (drop_bit PRECISION (c :: 32 word)) = unat c div 2 ^ 24"
proof -
  have "unat (drop_bit PRECISION c) = drop_bit 24 (unat c)"
    by (simp only: PRECISION_def unat_drop_bit_eq)
  then show ?thesis by (simp only: drop_bit_eq_div)
qed

lemma sign_bit_iff: "c AND SIGN_BIT = SIGN_BIT \<longleftrightarrow> bit c 23"
proof -
  have s: "SIGN_BIT = push_bit 23 1" by (simp add: SIGN_BIT_def PRECISION_def)
  have "bit (SIGN_BIT :: 32 word) n \<longleftrightarrow> n = 23" for n
    unfolding s by (auto simp only: bit_push_bit_iff bit_1_iff possible_bit_word) auto
  then show ?thesis
    unfolding bit_eq_iff [of "c AND SIGN_BIT"] bit_and_iff
    by (metis impossible_bit possible_bit_word)
qed

lemma u256_of_nat: "n < 2 ^ 256 \<Longrightarrow> unat (word_of_nat n :: u256) = n"
  by (simp add: unat_of_nat)

lemma unat_u256_mult: "unat a * unat b < 2 ^ 256 \<Longrightarrow> unat (a * b :: u256) = unat a * unat b"
  by (simp add: unat_word_ariths)

lemma unat_u256_add: "unat a + unat b < 2 ^ 256 \<Longrightarrow> unat (a + b :: u256) = unat a + unat b"
  by (simp add: unat_word_ariths)

lemma unat_u256_pow: "unat a ^ n < 2 ^ 256 \<Longrightarrow> unat (a ^ n :: u256) = unat a ^ n"
proof -
  assume a: "unat a ^ n < 2 ^ 256"
  have "a ^ n = word_of_nat (unat a ^ n)" by simp
  then show ?thesis using u256_of_nat [OF a] by metis
qed

lemma unat_ucast_u256 [simp]: "unat (ucast (m :: 32 word) :: u256) = unat m"
proof -
  have "unat m < 2 ^ 32" using unsigned_less [of m] by simp
  then have "unat m < 2 ^ 256" by simp
  then have "take_bit 256 (unat m) = unat m" by (simp add: take_bit_nat_eq_self)
  then show ?thesis by (simp add: unsigned_ucast_eq)
qed

lemma compact_product_eq:
  assumes e: "nat e < 32" and v: "unat m * 256 ^ nat e = v" and p: "v < 2 ^ 256"
  shows "compact_product m e = Ok (if v = 0 then None else Some (word_of_nat v))"
proof -
  have "(256 :: nat) ^ nat e \<le> 256 ^ 31" using e by (intro power_increasing) auto
  also have "\<dots> < 2 ^ 256" by simp
  finally have pow: "unat (256 :: u256) ^ nat e < 2 ^ 256" by simp
  then have up: "unat ((256 :: u256) ^ nat e) = 256 ^ nat e"
    using unat_u256_pow [OF pow] by simp
  have mul: "unat (ucast m :: u256) * unat ((256 :: u256) ^ nat e) < 2 ^ 256"
    using p v by (simp only: up unat_ucast_u256)
  define r where "r = (ucast m :: u256) * 256 ^ nat e"
  have ur: "unat r = v"
    unfolding r_def using unat_u256_mult [OF mul] v by (simp only: up unat_ucast_u256)
  have r: "r = word_of_nat v" unfolding ur [symmetric] by simp
  have z: "r = 0 \<longleftrightarrow> v = 0" using ur by (metis unat_eq_zero)
  have "compact_product m e = (if r = 0 then Ok None else Ok (Some r))"
    using pow mul by (simp only: compact_product_def u256_pow_def u256_mul_def if_True bindr.simps r_def)
  then show ?thesis using r z by (cases "v = 0") simp_all
qed

lemma unat_push_bit_small:
  assumes "unat (m :: 32 word) * 2 ^ k < 2 ^ 32"
  shows "unat (push_bit k m) = unat m * 2 ^ k"
proof -
  have "unat (push_bit k m) = take_bit 32 (push_bit k (unat m))"
    by (simp only: unsigned_push_bit_eq) simp
  also have "\<dots> = unat m * 2 ^ k"
    using assms by (simp only: push_bit_eq_mult take_bit_nat_eq_self)
  finally show ?thesis .
qed

lemma unat_drop_bit_div: "unat (drop_bit k (m :: 'a :: len word)) = unat m div 2 ^ k"
proof -
  have "unat (drop_bit k m) = drop_bit k (unat m)" by (simp only: unat_drop_bit_eq)
  then show ?thesis by (simp only: drop_bit_eq_div)
qed

lemma compact_value_cases:
  assumes s: "unat c div 2 ^ 24 = s" and m: "unat c mod 2 ^ 23 = m"
  shows "s < 3 \<Longrightarrow> compact_value c = m div 256 ^ (3 - s)"
    and "3 \<le> s \<Longrightarrow> compact_value c = m * 256 ^ (s - 3)"
proof -
  have v: "compact_value c = m * 256 ^ s div 256 ^ 3"
    by (simp only: compact_value_def s m)
  show "compact_value c = m div 256 ^ (3 - s)" if "s < 3"
  proof -
    have "(256 :: nat) ^ 3 = 256 ^ (3 - s) * 256 ^ s"
      using that by (simp flip: power_add)
    then have "m * 256 ^ s div 256 ^ 3 = m * 256 ^ s div (256 ^ (3 - s) * 256 ^ s)" by metis
    then show ?thesis unfolding v by simp
  qed
  show "compact_value c = m * 256 ^ (s - 3)" if "3 \<le> s"
  proof -
    have "(256 :: nat) ^ s = 256 ^ (s - 3) * 256 ^ 3"
      using that by (simp only: flip: power_add) simp
    then have "m * 256 ^ s = (m * 256 ^ (s - 3)) * 256 ^ 3" by (simp only: mult.assoc)
    then have "m * 256 ^ s div 256 ^ 3 = (m * 256 ^ (s - 3)) * 256 ^ 3 div 256 ^ 3" by metis
    also have "\<dots> = m * 256 ^ (s - 3)" by (intro nonzero_mult_div_cancel_right) simp
    finally show ?thesis unfolding v .
  qed
qed

lemma mult_256_less: "b \<le> 32 \<Longrightarrow> a * 256 ^ b < (2 :: nat) ^ 256 \<longleftrightarrow> a < 256 ^ (32 - b)"
proof -
  assume "b \<le> 32"
  then have "(2 :: nat) ^ 256 = 256 ^ (32 - b) * 256 ^ b" by (simp flip: power_add)
  then have "a * 256 ^ b < 2 ^ 256 \<longleftrightarrow> a * 256 ^ b < 256 ^ (32 - b) * 256 ^ b" by metis
  then show ?thesis by simp
qed

text \<open>What the \<open>match\<close> on mantissa and exponent achieves: the target, or its rejection.\<close>

definition normal_of :: "nat \<Rightarrow> (32 word \<times> int) option \<Rightarrow> bool" where
  "normal_of v r =
     (case r of
        None \<Rightarrow> v = 0 \<or> 2 ^ 256 \<le> v
      | Some (m, e) \<Rightarrow> nat e < 32 \<and> unat m * 256 ^ nat e = v \<and> v < 2 ^ 256)"

lemma normalise_overflow:
  assumes "35 \<le> s"
  shows "normal_of (unat m * 256 ^ (s - 3)) (normalise_compact m (int s - 3))"
proof (cases "unat m = 0")
  case False
  have "(256 :: nat) ^ 32 \<le> 256 ^ (s - 3)" using assms by (intro power_increasing) auto
  also have "\<dots> \<le> unat m * 256 ^ (s - 3)" using False by simp
  finally show ?thesis using assms by (simp add: normal_of_def normalise_compact_def)
qed (use assms in \<open>simp add: normal_of_def normalise_compact_def\<close>)

lemma normalise_top:
  fixes m :: "32 word" and k lim :: nat
  assumes s: "s = 34 \<and> k = 16 \<and> lim = 255 \<or> s = 33 \<and> k = 8 \<and> lim = 65535"
    and m: "unat m < 2 ^ 23"
  shows "normal_of (unat m * 256 ^ (s - 3)) (normalise_compact m (int s - 3))"
proof (cases "unat m \<le> lim")
  case True
  have n: "normalise_compact m (int s - 3) = Some (push_bit k m, 29)"
    using s True by (auto simp: normalise_compact_def word_le_nat_alt word_less_nat_alt)
  have p: "unat (push_bit k m) = unat m * 2 ^ k"
    using s True by (intro unat_push_bit_small) auto
  have "2 ^ k * 256 ^ 29 = (256 :: nat) ^ (s - 3)" using s by auto
  then have v: "unat (push_bit k m) * 256 ^ nat 29 = unat m * 256 ^ (s - 3)"
    unfolding p by (simp add: mult.assoc)
  have "unat m * 256 ^ (s - 3) < 2 ^ 256"
    using s True by (subst mult_256_less) auto
  then show ?thesis using v by (simp only: normal_of_def n option.case prod.case) simp
next
  case False
  then have n: "normalise_compact m (int s - 3) = None"
    using s by (auto simp: normalise_compact_def word_less_nat_alt)
  have "\<not> unat m * 256 ^ (s - 3) < 2 ^ 256"
    using s False by (subst mult_256_less) auto
  then show ?thesis by (simp add: normal_of_def n)
qed

lemma normalise_plain:
  assumes "3 \<le> s" "s \<le> 32" and m: "unat m < 2 ^ 23"
  shows "normal_of (unat m * 256 ^ (s - 3)) (normalise_compact m (int s - 3))"
proof -
  have n: "normalise_compact m (int s - 3) = Some (m, int s - 3)"
    using assms by (auto simp: normalise_compact_def)
  have "(256 :: nat) ^ 3 \<le> 256 ^ (32 - (s - 3))" using assms by (intro power_increasing) auto
  then have "unat m * 256 ^ (s - 3) < 2 ^ 256" using assms by (subst mult_256_less) auto
  moreover have "nat (int s - 3) = s - 3" using assms by simp
  ultimately show ?thesis using assms by (simp only: normal_of_def n option.case prod.case) simp
qed

lemma normalise_underflow:
  assumes "s < 3" and m: "unat m < 2 ^ 23"
  shows "normal_of (unat m div 256 ^ (3 - s)) (normalise_compact m (int s - 3))"
proof -
  have "nat (\<bar>int s - 3\<bar> * 8) = 8 * (3 - s)" using assms by simp
  then have n: "normalise_compact m (int s - 3) = Some (drop_bit (8 * (3 - s)) m, 0)"
    using assms by (simp only: normalise_compact_def) simp
  have v: "unat (drop_bit (8 * (3 - s)) m) = unat m div 256 ^ (3 - s)"
    by (simp only: unat_drop_bit_div power_mult) simp
  have "unat m div 256 ^ (3 - s) \<le> unat m" by (rule div_le_dividend)
  also have "\<dots> < 2 ^ 256" using m by simp
  finally have "unat m div 256 ^ (3 - s) < 2 ^ 256" .
  then show ?thesis using v by (simp only: normal_of_def n option.case prod.case) simp
qed

lemma to_expanded_eq:
  "to_expanded c =
    Ok (if bit c 23 \<or> compact_value c = 0 \<or> 2 ^ 256 \<le> compact_value c then None
        else Some (word_of_nat (compact_value c)))"
proof (cases "bit c 23")
  case True
  then show ?thesis by (simp add: to_expanded_def sign_bit_iff)
next
  case False
  define s m where "s = unat c div 2 ^ 24" and "m = c AND UNSIGNED_MANTISSA_MASK"
  have um: "unat c mod 2 ^ 23 = unat m" by (simp only: m_def unat_mantissa)
  have m23: "unat m < 2 ^ 23" by (simp add: um [symmetric])
  note val = compact_value_cases [OF s_def [symmetric] um]
  consider "35 \<le> s" | "s = 34" | "s = 33" | "3 \<le> s" "s \<le> 32" | "s < 3" by linarith
  then have norm: "normal_of (compact_value c) (normalise_compact m (int s - 3))"
    using normalise_overflow [of s m] normalise_top [of s _ _ m] normalise_plain [of s m]
      normalise_underflow [of s m] m23 val by cases auto
  have unfold: "to_expanded c =
      (case normalise_compact m (int s - 3) of None \<Rightarrow> Ok None | Some (m, e) \<Rightarrow> compact_product m e)"
    using False
    by (simp only: to_expanded_def sign_bit_iff if_False Let_def m_def s_def unat_size OFFSET_def)
  show ?thesis
  proof (cases "normalise_compact m (int s - 3)")
    case None
    then show ?thesis using norm False by (auto simp: unfold normal_of_def)
  next
    case (Some me)
    then obtain m' e where me: "normalise_compact m (int s - 3) = Some (m', e)" by (cases me) simp
    then have "nat e < 32" "unat m' * 256 ^ nat e = compact_value c" "compact_value c < 2 ^ 256"
      using norm by (auto simp: normal_of_def)
    then show ?thesis using False compact_product_eq [of e m'] by (simp add: unfold me)
  qed
qed

lemma compact_size_bounds:
  assumes "0 < n" "n < 2 ^ 256"
  shows "1 \<le> compact_size n" "compact_size n \<le> 33" "n < 2 ^ (8 * compact_size n - 1)"
    and "2 ^ 23 \<le> n \<Longrightarrow> 4 \<le> compact_size n \<and> 2 ^ 15 * 256 ^ (compact_size n - 3) \<le> n"
    and "n < 2 ^ 23 \<Longrightarrow> compact_size n \<le> 3"
proof -
  let ?b = "nat_bits n" let ?s = "compact_size n"
  have b: "?b \<le> 256" using assms nat_bits_le_iff by blast
  show "1 \<le> ?s" "?s \<le> 33" using b by (auto simp: compact_size_def)
  have "?b \<le> 8 * ?s - 1" by (simp add: compact_size_def)
  then show "n < 2 ^ (8 * ?s - 1)" using nat_bits_le_iff by blast
  show "?s \<le> 3" if "n < 2 ^ 23"
    using that nat_bits_le_iff [of n 23] by (simp add: compact_size_def)
  show "4 \<le> ?s \<and> 2 ^ 15 * 256 ^ (?s - 3) \<le> n" if "2 ^ 23 \<le> n"
  proof -
    have "23 < ?b" using that nat_bits_gt_iff by blast
    then have s4: "4 \<le> ?s" by (simp add: compact_size_def)
    have "8 * (?s - 1) - 1 < ?b" using \<open>23 < ?b\<close> by (simp add: compact_size_def)
    then have "2 ^ (8 * (?s - 1) - 1) \<le> n" using nat_bits_gt_iff by blast
    moreover have "8 * (?s - 1) - 1 = 15 + 8 * (?s - 3)" using s4 by simp
    moreover have "(2 :: nat) ^ (15 + 8 * (?s - 3)) = 2 ^ 15 * 256 ^ (?s - 3)"
      by (simp only: power_add power_mult) simp
    ultimately show ?thesis using s4 by simp
  qed
qed

lemma pow_256: "(256 :: nat) ^ k = 2 ^ (8 * k)"
  by (simp only: power_mult) simp

lemma compact_mantissa_bounds:
  assumes "0 < n" "n < 2 ^ 256"
  shows "0 < compact_mantissa n" "compact_mantissa n < 2 ^ 23"
proof -
  let ?s = "compact_size n"
  note b = compact_size_bounds [OF assms]
  have "0 < compact_mantissa n \<and> compact_mantissa n < 2 ^ 23"
  proof (cases "n < 2 ^ 23")
    case True
    have "n * 256 ^ (3 - ?s) < 2 ^ (8 * ?s - 1) * 256 ^ (3 - ?s)" using b(3) by simp
    also have "\<dots> = 2 ^ (8 * ?s - 1 + 8 * (3 - ?s))" by (simp only: pow_256 power_add)
    also have "8 * ?s - 1 + 8 * (3 - ?s) = 23" using b(1) b(5) [OF True] by simp
    finally show ?thesis using True assms(1) by (simp add: compact_mantissa_def)
  next
    case False
    then have s: "4 \<le> ?s" "2 ^ 15 * 256 ^ (?s - 3) \<le> n" using b(4) by auto
    have "2 ^ 15 \<le> n div 256 ^ (?s - 3)" using s(2) by (simp only: less_eq_div_iff_mult_less_eq zero_less_power)
    moreover have "n < 2 ^ 23 * 256 ^ (?s - 3)"
    proof -
      have "2 ^ 23 * 256 ^ (?s - 3) = (2 :: nat) ^ (23 + 8 * (?s - 3))" by (simp only: pow_256 power_add)
      also have "23 + 8 * (?s - 3) = 8 * ?s - 1" using s(1) by simp
      finally show ?thesis using b(3) by simp
    qed
    then have "n div 256 ^ (?s - 3) < 2 ^ 23" by (simp only: div_less_iff_less_mult zero_less_power)
    ultimately show ?thesis using False by (simp add: compact_mantissa_def)
  qed
  then show "0 < compact_mantissa n" "compact_mantissa n < 2 ^ 23" by auto
qed

lemma compact_encoding_parts:
  assumes "0 < n" "n < 2 ^ 256"
  shows "compact_encoding n < 2 ^ 32" "compact_encoding n mod 2 ^ 23 = compact_mantissa n"
    "compact_encoding n div 2 ^ 24 = compact_size n" "even (compact_encoding n div 2 ^ 23)"
proof -
  note m = compact_mantissa_bounds(2) [OF assms] and s = compact_size_bounds(2) [OF assms]
  show "compact_encoding n < 2 ^ 32" using m s by (simp add: compact_encoding_def)
  have e: "compact_encoding n = compact_mantissa n + 2 ^ 23 * (2 * compact_size n)"
    by (simp add: compact_encoding_def)
  show "compact_encoding n mod 2 ^ 23 = compact_mantissa n"
    unfolding e using m by (simp only: mod_mult_self2 mod_less)
  show "compact_encoding n div 2 ^ 24 = compact_size n"
    using m by (simp add: compact_encoding_def)
  have "compact_encoding n div 2 ^ 23 = 2 * compact_size n"
    unfolding e using m by (simp only: div_mult_self2) simp
  then show "even (compact_encoding n div 2 ^ 23)" by simp
qed

lemma unat_mask_u256: "unat (ucast UNSIGNED_MANTISSA_MASK :: u256) = 2 ^ 23 - 1"
  by (simp add: unat_ucast_u256 UNSIGNED_MANTISSA_MASK_def SIGN_BIT_def PRECISION_def)

lemma unat_push_bit_u256:
  assumes "unat (m :: u256) * 2 ^ k < 2 ^ 256"
  shows "unat (push_bit k m) = unat m * 2 ^ k"
proof -
  have "unat (push_bit k m) = take_bit 256 (push_bit k (unat m))"
    by (simp only: unsigned_push_bit_eq) simp
  also have "\<dots> = unat m * 2 ^ k"
    using assms by (simp only: push_bit_eq_mult take_bit_nat_eq_self)
  finally show ?thesis .
qed

lemma to_compact_zero: "to_compact 0 = Panic"
  by (simp add: to_compact_def)

lemma to_compact_eq:
  assumes "v \<noteq> 0"
  shows "to_compact v = Ok (word_of_nat (compact_encoding (unat v)))"
proof -
  let ?n = "unat v" let ?s = "compact_size (unat v)"
  have n: "0 < ?n" "?n < 2 ^ 256" using assms(1) unat_lt_256 [of v] by (auto simp: unat_gt_0)
  note mb = compact_mantissa_bounds [OF n] and sb = compact_size_bounds [OF n]
  define mant where "mant = (if v \<le> ucast UNSIGNED_MANTISSA_MASK then push_bit (8 * (3 - ?s)) v
                     else drop_bit (8 * (?s - 3)) v)"
  have le: "v \<le> ucast UNSIGNED_MANTISSA_MASK \<longleftrightarrow> ?n < 2 ^ 23"
    unfolding word_le_nat_alt unat_mask_u256 by auto
  have um: "unat mant = compact_mantissa ?n"
  proof (cases "?n < 2 ^ 23")
    case True
    have "?n * 2 ^ (8 * (3 - ?s)) = compact_mantissa ?n"
      using True by (simp add: compact_mantissa_def pow_256)
    moreover have "(2 :: nat) ^ 23 < 2 ^ 256" by simp
    ultimately have "unat (push_bit (8 * (3 - ?s)) v) = compact_mantissa ?n"
      using mb(2) unat_push_bit_u256 [of v "8 * (3 - ?s)"] by linarith
    then show ?thesis using True by (simp add: mant_def le)
  next
    case False
    then show ?thesis by (simp add: mant_def le unat_drop_bit_div compact_mantissa_def pow_256)
  qed
  have "mant \<le> ucast UNSIGNED_MANTISSA_MASK"
    unfolding word_le_nat_alt unat_mask_u256 um using mb(2) by simp
  moreover have "0 < mant" unfolding word_less_nat_alt um using mb(1) by simp
  moreover have "0 < v" using assms by (simp add: word_gt_0)
  moreover have "int ?s < 31 + OFFSET" using sb(2) by (simp add: OFFSET_def)
  ultimately have "to_compact v = Ok (ucast mant + push_bit 24 (word_of_nat ?s))"
    unfolding to_compact_def Let_def u256_bits_def compact_size_def [symmetric] mant_def [symmetric]
    by simp
  also have "ucast mant + push_bit 24 (word_of_nat ?s :: 32 word) = word_of_nat (compact_encoding ?n)"
  proof -
    have "ucast mant = (word_of_nat (compact_mantissa ?n) :: 32 word)"
      unfolding um [symmetric] by simp
    moreover have "push_bit 24 (word_of_nat ?s :: 32 word) = word_of_nat (?s * 2 ^ 24)"
      by (simp add: push_bit_eq_mult)
    ultimately show ?thesis by (simp add: compact_encoding_def)
  qed
  finally show ?thesis .
qed

lemma compact_value_encoding:
  fixes v :: u256
  assumes "v \<noteq> 0"
  defines "B \<equiv> 256 ^ (compact_size (unat v) - 3)"
  shows "compact_value (word_of_nat (compact_encoding (unat v))) = unat v div B * B"
    "\<not> bit (word_of_nat (compact_encoding (unat v)) :: 32 word) 23"
    "B \<le> unat v"
proof -
  let ?n = "unat v" let ?c = "word_of_nat (compact_encoding (unat v)) :: 32 word"
  have n: "0 < ?n" "?n < 2 ^ 256" using assms(1) unat_lt_256 [of v] by (auto simp: unat_gt_0)
  note p = compact_encoding_parts [OF n] and s = compact_size_bounds [OF n]
  have uc: "unat ?c = compact_encoding ?n" using p(1) by (simp add: unat_of_nat)
  show "\<not> bit ?c 23"
  proof -
    have "bit ?c 23 = bit (unat ?c) 23" by (simp only: bit_unsigned_iff) simp
    then show ?thesis using p(4) unfolding uc by (simp add: bit_iff_odd)
  qed
  have "compact_value ?c = ?n div B * B \<and> B \<le> ?n"
  proof (cases "?n < 2 ^ 23")
    case True
    then have "compact_size ?n \<le> 3" using s by blast
    then have B: "B = 1" "compact_size ?n = 3 \<or> compact_size ?n < 3" by (auto simp: B_def)
    show ?thesis
      using B True n compact_value_cases [of ?c "compact_size ?n" "compact_mantissa ?n"]
      by (auto simp: uc p(2,3) [simplified] compact_mantissa_def)
  next
    case False
    then have "4 \<le> compact_size ?n" "2 ^ 15 * B \<le> ?n" using s(4) by (auto simp: B_def)
    moreover have "B \<le> 2 ^ 15 * B" by simp
    ultimately show ?thesis
      using False compact_value_cases(2) [of ?c "compact_size ?n" "compact_mantissa ?n"]
      by (simp add: uc p(2,3) [simplified] compact_mantissa_def B_def)
  qed
  then show "compact_value ?c = ?n div B * B" "B \<le> ?n" by auto
qed

lemma nat_bits_round:
  assumes "j < nat_bits n"
  shows "nat_bits (n div 2 ^ j * 2 ^ j) = nat_bits n"
proof -
  let ?r = "n div 2 ^ j * 2 ^ j"
  have "nat_bits ?r \<le> k \<longleftrightarrow> nat_bits n \<le> k" for k
  proof
    assume "nat_bits ?r \<le> k"
    then have r: "?r < 2 ^ k" using nat_bits_le_iff by blast
    show "nat_bits n \<le> k"
    proof (cases "j \<le> k")
      case True
      then have "(2 :: nat) ^ k = 2 ^ (k - j) * 2 ^ j" by (simp flip: power_add)
      then have "n div 2 ^ j < 2 ^ (k - j)" using r by simp
      then have "n < 2 ^ (k - j) * 2 ^ j" by (simp add: div_less_iff_less_mult)
      then have "n < 2 ^ k" using \<open>(2 :: nat) ^ k = 2 ^ (k - j) * 2 ^ j\<close> by simp
      then show ?thesis using nat_bits_le_iff by blast
    next
      case False
      then have "(2 :: nat) ^ k < 2 ^ j" by (intro power_strict_increasing) auto
      then have "?r < 2 ^ j" using r by linarith
      then have "n div 2 ^ j = 0" by (cases "n div 2 ^ j") auto
      then have "n < 2 ^ j" by (simp add: div_eq_0_iff)
      then have "nat_bits n \<le> j" using nat_bits_le_iff by blast
      then show ?thesis using assms by simp
    qed
  next
    assume "nat_bits n \<le> k"
    then have "n < 2 ^ k" using nat_bits_le_iff by blast
    moreover have "?r \<le> n" by simp
    ultimately show "nat_bits ?r \<le> k" using nat_bits_le_iff by (meson le_less_trans)
  qed
  then show ?thesis by (meson antisym order_refl)
qed

lemma compact_encoding_round:
  assumes "0 < n" "n < 2 ^ 256"
  defines "B \<equiv> 256 ^ (compact_size n - 3)"
  shows "compact_encoding (n div B * B) = compact_encoding n"
proof (cases "n < 2 ^ 23")
  case True
  then have "B = 1" using compact_size_bounds(5) [OF assms(1,2)] by (simp add: B_def)
  then show ?thesis by simp
next
  case False
  note s = compact_size_bounds(4) [OF assms(1,2)]
  have Bn: "2 ^ 15 * B \<le> n" "4 \<le> compact_size n" using s False by (auto simp: B_def)
  have B: "B = 2 ^ (8 * (compact_size n - 3))" by (simp only: B_def pow_256)
  have "8 * (compact_size n - 3) < nat_bits n"
    unfolding nat_bits_gt_iff B [symmetric] using Bn by simp
  then have size: "compact_size (n div B * B) = compact_size n"
    unfolding B compact_size_def by (subst nat_bits_round) auto
  have B0: "0 < B" by (simp add: B_def)
  have "B \<le> n" using Bn(1) by simp
  then have r0: "0 < n div B * B" using B0 by (simp add: div_greater_zero_iff)
  have "n div B * B \<le> n" by simp
  then have r: "n div B * B < 2 ^ 256" using assms(2) by linarith
  have big: "\<not> n div B * B < 2 ^ 23"
    using compact_size_bounds(5) [OF r0 r] Bn(2) size by linarith
  have "compact_mantissa (n div B * B) = compact_mantissa n"
    using False B0 big by (simp add: compact_mantissa_def size B_def [symmetric])
  then show ?thesis by (simp add: compact_encoding_def size)
qed

lemma compact_value_aligned:
  assumes "0 < compact_value c" "compact_value c < 2 ^ 256"
  shows "256 ^ (compact_size (compact_value c) - 3) dvd compact_value c"
proof -
  define s m where "s = unat c div 2 ^ 24" and "m = unat c mod 2 ^ 23"
  note val = compact_value_cases [OF s_def [symmetric] m_def [symmetric]]
  let ?n = "compact_value c"
  have m: "m < 2 ^ 23" by (simp add: m_def)
  show ?thesis
  proof (cases "3 \<le> s")
    case True
    have n: "?n = m * 256 ^ (s - 3)" using val(2) True by simp
    have "m * 256 ^ (s - 3) < 2 ^ 23 * 256 ^ (s - 3)" using m by simp
    also have "\<dots> = 2 ^ (23 + 8 * (s - 3))" by (simp only: pow_256 power_add)
    finally have "nat_bits ?n \<le> 23 + 8 * (s - 3)" unfolding n nat_bits_le_iff .
    then have "compact_size ?n \<le> s" using True by (simp add: compact_size_def)
    then have "(256 :: nat) ^ (compact_size ?n - 3) dvd 256 ^ (s - 3)" by (intro le_imp_power_dvd) simp
    then show ?thesis unfolding n by (metis dvd_mult n)
  next
    case False
    then have "?n \<le> m" using val(1) by simp
    then have "compact_size ?n \<le> 3" using m compact_size_bounds(5) [OF assms] by simp
    then show ?thesis by simp
  qed
qed

lemma unat_max_u256: "unat (- 1 :: u256) = 2 ^ 256 - 1"
  by (simp add: unsigned_minus_1_eq_mask mask_eq_exp_minus_1)

lemma unat_not_u256: "unat (NOT (v :: u256)) = 2 ^ 256 - 1 - unat v"
proof -
  have "NOT v = - 1 - v" by (simp add: not_eq_complement algebra_simps)
  moreover have "unat (- 1 - v) = unat (- 1 :: u256) - unat v" by (intro unat_sub) simp
  ultimately show ?thesis by (simp add: unat_max_u256)
qed

lemma work_try_from_eq:
  "work_try_from v = (if v = 0 then Err () else Ok (word_of_nat (2 ^ 256 div (unat v + 1))))"
proof -
  consider "v = 0" | "v = - 1" | "v \<noteq> 0" "v \<noteq> - 1" by blast
  then show ?thesis
  proof cases
    case 2
    have "unat v = 2 ^ 256 - 1" unfolding 2 by (simp add: unat_max_u256)
    then have "2 ^ 256 div (unat v + 1) = 1" by simp
    then show ?thesis using 2 by (simp add: work_try_from_def)
  next
    case 3
    have "unat v \<noteq> unat (- 1 :: u256)" using 3(2) by (metis word_unat_eq_iff)
    then have lt: "unat v + 1 < 2 ^ 256" using unat_lt_256 [of v] unfolding unat_max_u256 by linarith
    have ud: "unat (v + 1) = unat v + 1" using unat_u256_add [of v 1] lt by simp
    have d0: "v + 1 \<noteq> 0" using ud by (metis add_is_0 one_neq_zero unat_0)
    define q where "q = NOT v div (v + 1)"
    have uq: "unat q = (2 ^ 256 - 1 - unat v) div (unat v + 1)"
      by (simp only: q_def unat_div unat_not_u256 ud)
    have w: "unat q + 1 = 2 ^ 256 div (unat v + 1)"
    proof -
      have "2 ^ 256 = (2 ^ 256 - 1 - unat v) + (unat v + 1)" using lt by simp
      then have "2 ^ 256 div (unat v + 1) = ((2 ^ 256 - 1 - unat v) + (unat v + 1)) div (unat v + 1)"
        by metis
      also have "\<dots> = unat q + 1" unfolding uq by (rule div_add_self2) simp
      finally show ?thesis by simp
    qed
    have lt256: "2 ^ 256 div (unat v + 1) < 2 ^ 256"
    proof -
      have "0 < unat v" using 3(1) by (simp add: unat_gt_0)
      then show ?thesis by (intro div_less_dividend) auto
    qed
    have "u256_add q 1 = Ok (q + 1)"
      using lt256 unfolding w [symmetric] u256_add_def by simp
    also have "q + 1 = word_of_nat (unat q + 1)" by simp
    finally have "u256_add q 1 = Ok (word_of_nat (2 ^ 256 div (unat v + 1)))" unfolding w .
    then show ?thesis
      using 3 d0 lt by (simp add: work_try_from_def u256_add_def [of v] u256_div_def q_def)
  qed (simp add: work_try_from_def)
qed

section \<open>Properties\<close>

text \<open>
  C28. Decoding a compact difficulty never panics and is exact: the result is
  \<open>floor(mantissa * 256 ^ (size - 3))\<close>, rejected precisely when the sign bit is set, the value is
  zero, or it does not fit in 256 bits.
\<close>

theorem to_expanded_exact:
  "to_expanded c =
    Ok (if bit c 23 \<or> compact_value c = 0 \<or> 2 ^ 256 \<le> compact_value c then None
        else Some (word_of_nat (compact_value c)))"
  by (rule to_expanded_eq)

text \<open>
  C27. Encoding and decoding agree. A non-zero target encodes without panicking; decoding the result
  gives a target that is not larger, differs by less than one part in \<open>2 ^ 15\<close>, and encodes to the
  same compact difficulty. A target that was decoded from any compact difficulty survives encoding
  and decoding unchanged.
\<close>

theorem compact_round_trip:
  assumes "v \<noteq> 0"
  shows "\<exists>c v'. to_compact v = Ok c \<and> to_expanded c = Ok (Some v') \<and> v' \<le> v \<and>
      (unat v - unat v') * 2 ^ 15 \<le> unat v \<and> to_compact v' = Ok c \<and>
      ((\<exists>d. to_expanded d = Ok (Some v)) \<longrightarrow> v' = v)"
proof -
  let ?n = "unat v" let ?c = "word_of_nat (compact_encoding (unat v)) :: 32 word"
  define B where "B = (256 :: nat) ^ (compact_size ?n - 3)"
  define v' where "v' = (word_of_nat (?n div B * B) :: u256)"
  have n: "0 < ?n" "?n < 2 ^ 256" using assms unat_lt_256 [of v] by (auto simp: unat_gt_0)
  note enc = compact_value_encoding [OF assms, folded B_def]
  have B0: "0 < B" by (simp add: B_def)
  have le: "?n div B * B \<le> ?n" by simp
  then have lt: "?n div B * B < 2 ^ 256" using n(2) by linarith
  have pos: "0 < ?n div B * B" using enc(3) B0 by (simp add: div_greater_zero_iff)
  have uv': "unat v' = ?n div B * B" unfolding v'_def by (rule u256_of_nat [OF lt])
  have v'0: "v' \<noteq> 0" using uv' pos by (metis less_not_refl unat_0)
  have exp: "to_expanded ?c = Ok (Some v')"
    using enc lt pos by (simp add: to_expanded_eq v'_def)
  have "v' \<le> v" unfolding word_le_nat_alt uv' by (rule le)
  moreover have "(?n - unat v') * 2 ^ 15 \<le> ?n"
  proof (cases "?n < 2 ^ 23")
    case True
    then show ?thesis using compact_size_bounds(5) [OF n] by (simp add: uv' B_def)
  next
    case False
    then have "2 ^ 15 * B \<le> ?n" using compact_size_bounds(4) [OF n] by (simp add: B_def)
    moreover have "?n - unat v' = ?n mod B" unfolding uv' by (simp add: minus_div_mult_eq_mod)
    moreover have "?n mod B < B" using B0 by simp
    ultimately show ?thesis by (simp add: mult.commute)
  qed
  moreover have "to_compact v' = Ok ?c"
    using to_compact_eq [OF v'0] compact_encoding_round [OF n, folded B_def] by (simp add: uv')
  moreover have "v' = v" if "to_expanded d = Ok (Some v)" for d
  proof -
    have d: "0 < compact_value d" "compact_value d < 2 ^ 256" "v = word_of_nat (compact_value d)"
      using that by (auto simp: to_expanded_eq split: if_splits)
    then have "?n = compact_value d" using u256_of_nat by simp
    then have "B dvd ?n" using compact_value_aligned [OF d(1,2)] by (simp add: B_def)
    then show ?thesis unfolding v'_def by simp
  qed
  ultimately show ?thesis using to_compact_eq [OF assms] exp by blast
qed

theorem compact_round_trip_witness:
  "\<exists>c v'. to_compact 0x123456789a = Ok c \<and> to_expanded c = Ok (Some v') \<and> v' \<le> 0x123456789a \<and>
      (unat (0x123456789a :: u256) - unat v') * 2 ^ 15 \<le> unat (0x123456789a :: u256) \<and>
      to_compact v' = Ok c \<and> ((\<exists>d. to_expanded d = Ok (Some 0x123456789a)) \<longrightarrow> v' = 0x123456789a)"
proof -
  have "(0x123456789a :: u256) \<noteq> 0" by simp
  then show ?thesis by (rule compact_round_trip)
qed

lemma to_work_eq:
  "to_work c =
    Ok (if bit c 23 \<or> compact_value c = 0 \<or> 2 ^ 256 \<le> compact_value c then None
        else Some (word_of_nat (2 ^ 256 div (compact_value c + 1))))"
proof (cases "bit c 23 \<or> compact_value c = 0 \<or> 2 ^ 256 \<le> compact_value c")
  case True
  then show ?thesis by (auto simp: to_work_def to_expanded_eq)
next
  case False
  then have lt: "compact_value c < 2 ^ 256" by simp
  define v where "v = (word_of_nat (compact_value c) :: u256)"
  have uv: "unat v = compact_value c" unfolding v_def by (rule u256_of_nat [OF lt])
  then have "v \<noteq> 0" using False by (metis unat_0)
  then have "work_try_from v = Ok (word_of_nat (2 ^ 256 div (compact_value c + 1)))"
    unfolding work_try_from_eq uv by simp
  then show ?thesis using False by (simp add: to_work_def to_expanded_eq flip: v_def)
qed

text \<open>
  C29. The work of a block is exact: for every compact difficulty that encodes a valid target it is
  \<open>floor(2 ^ 256 / (target + 1))\<close>, computed without panicking although \<open>2 ^ 256\<close> does not fit in
  the integer type, and it is absent for every other compact difficulty.
\<close>

theorem block_work_exact:
  "to_work c =
    Ok (if bit c 23 \<or> compact_value c = 0 \<or> 2 ^ 256 \<le> compact_value c then None
        else Some (word_of_nat (2 ^ 256 div (compact_value c + 1))))"
  by (rule to_work_eq)

end
