(* ===== verification/Network.thy ===== *)
theory Network
  imports Subsidy_Constants Difficulty
begin

text \<open>
  Networks and their consensus parameters: \<open>Network\<close> and \<open>NetworkKind\<close> of
  \<open>zakura-chain/src/parameters/network.rs\<close>, \<open>Parameters\<close>, \<open>ParametersBuilder\<close> and
  \<open>finish\<close> of \<open>network/testnet.rs\<close>, and the lookups of \<open>network_upgrade.rs\<close> that read the
  activation map of a network. The setters and checks of the builder are in \<open>Testnet_Builder\<close>.

  Left out of the parameters: the height that only test builds carry
  (\<open>test_nsm_reissuance_height\<close>) and the cache of the derived reissuance height, which equality
  ignores. The built-in Testnet checkpoint list, a generated file, is named by a constructor.

  \<open>valid_network\<close> is the invariant of a network. The locale \<open>valid_net\<close> collects what follows from
  it, and is interpreted for Mainnet and for the default Testnet.
\<close>

section \<open>Networks and parameters\<close>

datatype network_kind = MainnetKind | TestnetKind | RegtestKind

datatype checkpoint_list = Testnet_Checkpoint_List | Checkpoint_List "(height \<times> string) list"

type_synonym magic = "byte list"

definition MAGIC_MAINNET :: magic where
  "MAGIC_MAINNET = [0x24, 0xe9, 0x27, 0x64]"

definition MAGIC_TESTNET :: magic where
  "MAGIC_TESTNET = [0xfa, 0x1a, 0xf9, 0xbf]"

definition MAGIC_REGTEST :: magic where
  "MAGIC_REGTEST = [0xaa, 0xe8, 0x3f, 0x5f]"

record parameters =
  p_network_name :: string
  p_network_magic :: magic
  p_genesis_hash :: string
  p_activation_heights :: activation_map
  p_slow_start_interval :: height
  p_slow_start_shift :: height
  p_funding_streams :: "funding_streams list"
  p_target_difficulty_limit :: expanded_difficulty
  p_disable_pow :: bool
  p_max_block_time_start_height :: height
  p_should_allow_unshielded_coinbase_spends :: bool
  p_pre_blossom_halving_interval :: height_diff
  p_post_blossom_halving_interval :: height_diff
  p_lockbox_disbursements :: "(address \<times> amount) list"
  p_checkpoints :: checkpoint_list
  p_temporary_orchard_disabling_soft_fork_height :: "height option"
  p_initial_nsm_value_balance :: "amount option"

datatype network = Mainnet | Testnet parameters

record parameters_builder =
  b_network_name :: string
  b_network_magic :: magic
  b_genesis_hash :: string
  b_activation_heights :: activation_map
  b_slow_start_interval :: height
  b_funding_streams :: "funding_streams list"
  b_inherited_funding_stream_ranges :: "bool list"
  b_should_lock_funding_stream_address_period :: bool
  b_target_difficulty_limit :: expanded_difficulty
  b_disable_pow :: bool
  b_max_block_time_start_height :: "height option"
  b_should_allow_unshielded_coinbase_spends :: bool
  b_pre_blossom_halving_interval :: height_diff
  b_post_blossom_halving_interval :: height_diff
  b_lockbox_disbursements :: "(address \<times> amount) list"
  b_checkpoints :: checkpoint_list
  b_temporary_orchard_disabling_soft_fork_height :: "height option"
  b_initial_nsm_value_balance :: "amount option"

section \<open>Upgrades of a network\<close>

definition activation_map :: "network \<Rightarrow> activation_map" where
  "activation_map net =
     (case net of Mainnet \<Rightarrow> MAINNET_ACTIVATION_HEIGHTS | Testnet params \<Rightarrow> p_activation_heights params)"

text \<open>\<open>range(..=height).next_back()\<close>: the last entry at or below the height.\<close>

definition map_last_upto :: "activation_map \<Rightarrow> height \<Rightarrow> (height \<times> network_upgrade) option" where
  "map_last_upto m h =
     (let below = filter (\<lambda>x. fst x \<le> h) m in if below = [] then None else Some (last below))"

definition current_with_activation_height :: "network \<Rightarrow> height \<Rightarrow> ('e, network_upgrade \<times> height) res" where
  "current_with_activation_height net h =
     expect_some (map_option (\<lambda>x. (snd x, fst x)) (map_last_upto (activation_map net) h))"

definition current :: "network \<Rightarrow> height \<Rightarrow> ('e, network_upgrade) res" where
  "current net h = expect_some (map_option snd (map_last_upto (activation_map net) h))"

function map_activation_height :: "activation_map \<Rightarrow> network_upgrade \<Rightarrow> height option" where
  "map_activation_height m nu =
     (case find (\<lambda>x. snd x = nu) m of
        Some x \<Rightarrow> Some (fst x)
      | None \<Rightarrow> (case next_upgrade nu of None \<Rightarrow> None | Some nu' \<Rightarrow> map_activation_height m nu'))"
  by pat_completeness auto
termination
proof (relation "measure (\<lambda>(m, nu). 12 - nu_index nu)", goal_cases)
  case (2 m nu nu')
  then have "nu_index nu' = Suc (nu_index nu)" by (simp add: next_upgrade_index)
  moreover have "nu_index nu' \<le> 12" by (cases nu') simp_all
  ultimately show ?case by simp
qed simp

declare map_activation_height.simps [simp del]

definition activation_height :: "network_upgrade \<Rightarrow> network \<Rightarrow> height option" where
  "activation_height nu net = map_activation_height (activation_map net) nu"

definition is_activation_height :: "network \<Rightarrow> height \<Rightarrow> bool" where
  "is_activation_height net h \<longleftrightarrow> h \<in> fst ` set (activation_map net)"

definition full_activation_list :: "network \<Rightarrow> activation_map" where
  "full_activation_list net =
     List.map_filter (\<lambda>nu. map_option (\<lambda>h. (h, nu)) (activation_height nu net)) NETWORK_UPGRADES"

definition is_nu7_active :: "network \<Rightarrow> height \<Rightarrow> ('e, bool) res" where
  "is_nu7_active net h = bindr (current net h) (\<lambda>nu. Ok (Nu7 \<le> nu))"

definition target_spacing_for_height :: "network \<Rightarrow> height \<Rightarrow> ('e, int) res" where
  "target_spacing_for_height net h = bindr (current net h) (\<lambda>nu. Ok (target_spacing nu))"

definition target_spacings :: "network \<Rightarrow> (height \<times> int) list" where
  "target_spacings net =
     List.map_filter (\<lambda>(nu, s). map_option (\<lambda>h. (h, s)) (activation_height nu net))
       [(Genesis, PRE_BLOSSOM_POW_TARGET_SPACING), (Blossom, POST_BLOSSOM_POW_TARGET_SPACING),
        (Nu7, POST_NU7_POW_TARGET_SPACING)]"

definition minimum_difficulty_spacing_for_height :: "network \<Rightarrow> height \<Rightarrow> ('e, int option) res" where
  "minimum_difficulty_spacing_for_height net h =
     (case net of
        Mainnet \<Rightarrow> Ok None
      | Testnet _ \<Rightarrow>
          if h < TESTNET_MINIMUM_DIFFICULTY_START_HEIGHT then Ok None
          else bindr (current net h) (\<lambda>nu.
            let multiplier = (if Nu7 \<le> nu then POST_NU7_TESTNET_MINIMUM_DIFFICULTY_GAP_MULTIPLIER
                              else PRE_NU7_TESTNET_MINIMUM_DIFFICULTY_GAP_MULTIPLIER)
            in Ok (Some (target_spacing nu * multiplier))))"

definition is_testnet_min_difficulty_block :: "network \<Rightarrow> height \<Rightarrow> int \<Rightarrow> int \<Rightarrow> ('e, bool) res" where
  "is_testnet_min_difficulty_block net h block_time previous_block_time =
     (let block_time_gap = block_time - previous_block_time in
      bindr (minimum_difficulty_spacing_for_height net h) (\<lambda>gap.
        Ok (case gap of Some min_difficulty_gap \<Rightarrow> block_time_gap > min_difficulty_gap | None \<Rightarrow> False)))"

definition averaging_window_for_height :: "network \<Rightarrow> height \<Rightarrow> ('e, nat) res" where
  "averaging_window_for_height net h = bindr (current net h) (\<lambda>nu. Ok (averaging_window nu))"

definition averaging_window_timespan_for_height :: "network \<Rightarrow> height \<Rightarrow> ('e, int) res" where
  "averaging_window_timespan_for_height net h =
     bindr (current net h) (\<lambda>nu. Ok (averaging_window_timespan nu))"

section \<open>Building parameters\<close>

text \<open>
  A value the source computes once from constants and \<open>expect\<close>s: \<open>unwrap\<close> is only applied to
  constants, and lemmas below show that each of them is \<open>Ok\<close>.
\<close>

fun unwrap :: "(unit, 'a) res \<Rightarrow> 'a" where
  "unwrap (Ok x) = x"

definition limit_via_compact :: "expanded_difficulty \<Rightarrow> ('e, expanded_difficulty) res" where
  "limit_via_compact v = bindr (to_compact v) (\<lambda>c. bindr (to_expanded c) expect_some)"

definition TESTNET_POW_LIMIT :: expanded_difficulty where
  "TESTNET_POW_LIMIT = unwrap (limit_via_compact (push_bit 251 1 - 1))"

definition TESTNET_GENESIS_HASH :: string where
  "TESTNET_GENESIS_HASH = ''05a60a92d99d85997cce3b87616c089f6124d7342af37106edc76126334a2c38''"

definition MAINNET_TEMPORARY_ORCHARD_DISABLING_SOFT_FORK_HEIGHT :: height where
  "MAINNET_TEMPORARY_ORCHARD_DISABLING_SOFT_FORK_HEIGHT = 3363426"

definition TESTNET_TEMPORARY_ORCHARD_DISABLING_SOFT_FORK_HEIGHT :: height where
  "TESTNET_TEMPORARY_ORCHARD_DISABLING_SOFT_FORK_HEIGHT = 4048500"

definition default_builder :: parameters_builder where
  "default_builder =
     \<lparr>b_network_name = ''UnknownTestnet'',
      b_network_magic = MAGIC_TESTNET,
      b_genesis_hash = TESTNET_GENESIS_HASH,
      b_activation_heights = TESTNET_ACTIVATION_HEIGHTS,
      b_slow_start_interval = SLOW_START_INTERVAL,
      b_funding_streams = TESTNET_FUNDING_STREAMS,
      b_inherited_funding_stream_ranges = replicate (length TESTNET_FUNDING_STREAMS) True,
      b_should_lock_funding_stream_address_period = False,
      b_target_difficulty_limit = TESTNET_POW_LIMIT,
      b_disable_pow = False,
      b_max_block_time_start_height = None,
      b_should_allow_unshielded_coinbase_spends = False,
      b_pre_blossom_halving_interval = PRE_BLOSSOM_HALVING_INTERVAL,
      b_post_blossom_halving_interval = POST_BLOSSOM_HALVING_INTERVAL,
      b_lockbox_disbursements = TESTNET_NU6_1_LOCKBOX_DISBURSEMENTS,
      b_checkpoints = Testnet_Checkpoint_List,
      b_temporary_orchard_disabling_soft_fork_height =
        Some TESTNET_TEMPORARY_ORCHARD_DISABLING_SOFT_FORK_HEIGHT,
      b_initial_nsm_value_balance = None\<rparr>"

text \<open>\<open>nu7_adjusted_funding_stream_height\<close>; the subtraction is guarded by the filter.\<close>

definition nu7_adjusted_funding_stream_height :: "height \<Rightarrow> height option \<Rightarrow> height option" where
  "nu7_adjusted_funding_stream_height h nu7_activation =
     (case nu7_activation of
        None \<Rightarrow> Some h
      | Some a \<Rightarrow>
          if \<not> a < h then Some h
          else case u32_checked ((h - a) * NU7_POW_TARGET_SPACING_RATIO) of
                 None \<Rightarrow> None
               | Some blocks \<Rightarrow>
                   (case u32_checked (a + blocks) of
                      None \<Rightarrow> None
                    | Some r \<Rightarrow> if r \<le> MAX_HEIGHT then Some r else None))"

definition with_nu7_adjusted_end_height :: "height option \<Rightarrow> funding_streams \<Rightarrow> ('e, funding_streams) res" where
  "with_nu7_adjusted_end_height nu7_activation fs =
     bindr (expect_some (nu7_adjusted_funding_stream_height (range_end fs) nu7_activation))
       (\<lambda>e. Ok (fs\<lparr>range_end := e\<rparr>))"

definition finish :: "parameters_builder \<Rightarrow> ('e, parameters) res" where
  "finish b =
     (let ps =
        \<lparr>p_network_name = b_network_name b,
         p_network_magic = b_network_magic b,
         p_genesis_hash = b_genesis_hash b,
         p_activation_heights = b_activation_heights b,
         p_slow_start_interval = b_slow_start_interval b,
         p_slow_start_shift = b_slow_start_interval b div 2,
         p_funding_streams = b_funding_streams b,
         p_target_difficulty_limit = b_target_difficulty_limit b,
         p_disable_pow = b_disable_pow b,
         p_max_block_time_start_height =
           (case b_max_block_time_start_height b of Some h \<Rightarrow> h | None \<Rightarrow> TESTNET_MAX_TIME_START_HEIGHT),
         p_should_allow_unshielded_coinbase_spends = b_should_allow_unshielded_coinbase_spends b,
         p_pre_blossom_halving_interval = b_pre_blossom_halving_interval b,
         p_post_blossom_halving_interval = b_post_blossom_halving_interval b,
         p_lockbox_disbursements = b_lockbox_disbursements b,
         p_checkpoints = b_checkpoints b,
         p_temporary_orchard_disabling_soft_fork_height =
           b_temporary_orchard_disabling_soft_fork_height b,
         p_initial_nsm_value_balance = b_initial_nsm_value_balance b\<rparr>;
        nu7_activation = activation_height Nu7 (Testnet ps);
        i = REVISION_2_FUNDING_STREAMS_INDEX
      in if i < length (p_funding_streams ps) \<and>
            i < length (b_inherited_funding_stream_ranges b) \<and> b_inherited_funding_stream_ranges b ! i
         then bindr (with_nu7_adjusted_end_height nu7_activation (p_funding_streams ps ! i)) (\<lambda>fs.
                Ok (ps\<lparr>p_funding_streams := (p_funding_streams ps)[i := fs]\<rparr>))
         else Ok ps)"

definition default_parameters :: parameters where
  "default_parameters =
     (unwrap (finish default_builder))
       \<lparr>p_network_name := ''Testnet'',
        p_max_block_time_start_height := TESTNET_MAX_TIME_START_HEIGHT,
        p_initial_nsm_value_balance := Some TESTNET_INITIAL_NSM_VALUE_BALANCE\<rparr>"

definition params_is_default_testnet :: "parameters \<Rightarrow> bool" where
  "params_is_default_testnet ps \<longleftrightarrow> ps = default_parameters"

definition new_default_testnet :: network where
  "new_default_testnet = Testnet default_parameters"

section \<open>Parameters of a network\<close>

definition is_default_testnet :: "network \<Rightarrow> bool" where
  "is_default_testnet net =
     (case net of Testnet params \<Rightarrow> params_is_default_testnet params | Mainnet \<Rightarrow> False)"

definition t_addr_kind :: "network \<Rightarrow> network_kind" where
  "t_addr_kind net = (case net of Mainnet \<Rightarrow> MainnetKind | Testnet _ \<Rightarrow> TestnetKind)"

definition is_max_block_time_enforced :: "network \<Rightarrow> height \<Rightarrow> bool" where
  "is_max_block_time_enforced net h =
     (case net of Mainnet \<Rightarrow> True | Testnet params \<Rightarrow> p_max_block_time_start_height params \<le> h)"

definition default_port :: "network \<Rightarrow> nat" where
  "default_port net = (case net of Mainnet \<Rightarrow> 8233 | Testnet _ \<Rightarrow> 18233)"

definition is_a_test_network :: "network \<Rightarrow> bool" where
  "is_a_test_network net \<longleftrightarrow> net \<noteq> Mainnet"

definition disable_pow :: "network \<Rightarrow> bool" where
  "disable_pow net = (case net of Testnet params \<Rightarrow> p_disable_pow params | Mainnet \<Rightarrow> False)"

definition slow_start_interval :: "network \<Rightarrow> height" where
  "slow_start_interval net =
     (case net of Testnet params \<Rightarrow> p_slow_start_interval params | Mainnet \<Rightarrow> SLOW_START_INTERVAL)"

definition slow_start_shift :: "network \<Rightarrow> height" where
  "slow_start_shift net =
     (case net of Testnet params \<Rightarrow> p_slow_start_shift params | Mainnet \<Rightarrow> SLOW_START_SHIFT)"

definition should_allow_unshielded_coinbase_spends :: "network \<Rightarrow> bool" where
  "should_allow_unshielded_coinbase_spends net =
     (case net of Testnet params \<Rightarrow> p_should_allow_unshielded_coinbase_spends params | Mainnet \<Rightarrow> False)"

definition founder_address_list :: "network \<Rightarrow> address list" where
  "founder_address_list net =
     (case net of Mainnet \<Rightarrow> MAINNET_FOUNDER_ADDRESS_LIST | Testnet _ \<Rightarrow> TESTNET_FOUNDER_ADDRESS_LIST)"

definition post_blossom_halving_interval :: "network \<Rightarrow> height_diff" where
  "post_blossom_halving_interval net =
     (case net of
        Mainnet \<Rightarrow> POST_BLOSSOM_HALVING_INTERVAL
      | Testnet params \<Rightarrow> p_post_blossom_halving_interval params)"

definition pre_blossom_halving_interval :: "network \<Rightarrow> height_diff" where
  "pre_blossom_halving_interval net =
     (case net of
        Mainnet \<Rightarrow> PRE_BLOSSOM_HALVING_INTERVAL
      | Testnet params \<Rightarrow> p_pre_blossom_halving_interval params)"

definition nu7_activation_height :: "network \<Rightarrow> height option" where
  "nu7_activation_height net = activation_height Nu7 net"

definition initial_nsm_value_balance :: "network \<Rightarrow> amount" where
  "initial_nsm_value_balance net =
     (case net of
        Mainnet \<Rightarrow> MAINNET_INITIAL_NSM_VALUE_BALANCE
      | Testnet params \<Rightarrow> (case p_initial_nsm_value_balance params of Some b \<Rightarrow> b | None \<Rightarrow> 0))"

definition mandatory_checkpoint_height :: "network \<Rightarrow> ('e, height) res" where
  "mandatory_checkpoint_height net =
     bindr (expect_some (activation_height Canopy net)) (\<lambda>h. expect_ok (height_previous h))"

definition sapling_activation_height :: "network \<Rightarrow> ('e, height) res" where
  "sapling_activation_height net = expect_some (activation_height Sapling net)"

definition target_difficulty_limit :: "network \<Rightarrow> ('e, expanded_difficulty) res" where
  "target_difficulty_limit net =
     (case net of
        Mainnet \<Rightarrow> limit_via_compact (push_bit 243 1 - 1)
      | Testnet params \<Rightarrow> Ok (p_target_difficulty_limit params))"

text \<open>One-time lockbox disbursements; \<open>parse\<close> decodes a transparent address.\<close>

primrec parse_disbursements ::
  "(string \<Rightarrow> 'a option) \<Rightarrow> (address \<times> amount) list \<Rightarrow> ('e, ('a \<times> amount) list) res" where
  "parse_disbursements parse [] = Ok []"
| "parse_disbursements parse (x # xs) =
     bindr (expect_some (parse (fst x))) (\<lambda>a.
     bindr (parse_disbursements parse xs) (\<lambda>rest. Ok ((a, snd x) # rest)))"

definition params_lockbox_disbursement_total_amount ::
  "(string \<Rightarrow> 'a option) \<Rightarrow> parameters \<Rightarrow> ('e, amount) res" where
  "params_lockbox_disbursement_total_amount parse ps =
     bindr (parse_disbursements parse (p_lockbox_disbursements ps)) (\<lambda>ds.
       case map snd ds of
         [] \<Rightarrow> Ok 0
       | a # as \<Rightarrow> try_fold (\<lambda>x y. expect_ok (amount_add NonNegative x y)) a as)"

definition lockbox_disbursement_total_amount ::
  "(string \<Rightarrow> 'a option) \<Rightarrow> network \<Rightarrow> height \<Rightarrow> ('e, amount) res" where
  "lockbox_disbursement_total_amount parse net h =
     (if Some h \<noteq> activation_height Nu6_1 net then Ok 0
      else case net of
        Mainnet \<Rightarrow> Ok EXPECTED_NU6_1_LOCKBOX_DISBURSEMENTS_TOTAL
      | Testnet params \<Rightarrow>
          if params_is_default_testnet params then Ok EXPECTED_NU6_1_LOCKBOX_DISBURSEMENTS_TOTAL
          else params_lockbox_disbursement_total_amount parse params)"

definition lockbox_disbursements ::
  "(string \<Rightarrow> 'a option) \<Rightarrow> network \<Rightarrow> height \<Rightarrow> ('e, ('a \<times> amount) list) res" where
  "lockbox_disbursements parse net h =
     (if Some h \<noteq> activation_height Nu6_1 net then Ok []
      else case net of
        Mainnet \<Rightarrow> parse_disbursements parse MAINNET_NU6_1_LOCKBOX_DISBURSEMENTS
      | Testnet params \<Rightarrow>
          if params_is_default_testnet params
          then parse_disbursements parse TESTNET_NU6_1_LOCKBOX_DISBURSEMENTS
          else parse_disbursements parse (p_lockbox_disbursements params))"

text \<open>The soft fork that disabled Orchard until NU6.2.\<close>

definition temporary_orchard_disabling_soft_fork_height :: "network \<Rightarrow> height option" where
  "temporary_orchard_disabling_soft_fork_height net =
     (case net of
        Mainnet \<Rightarrow> Some MAINNET_TEMPORARY_ORCHARD_DISABLING_SOFT_FORK_HEIGHT
      | Testnet params \<Rightarrow> p_temporary_orchard_disabling_soft_fork_height params)"

definition temporary_orchard_disabling_soft_fork_active :: "network \<Rightarrow> height \<Rightarrow> bool" where
  "temporary_orchard_disabling_soft_fork_active net h =
     (case temporary_orchard_disabling_soft_fork_height net of Some s \<Rightarrow> s \<le> h | None \<Rightarrow> False)"

definition is_orchard_temporarily_disabled :: "network \<Rightarrow> height \<Rightarrow> bool" where
  "is_orchard_temporarily_disabled net h \<longleftrightarrow>
     temporary_orchard_disabling_soft_fork_active net h \<and>
     (case activation_height Nu6_2 net of None \<Rightarrow> True | Some nu6_2 \<Rightarrow> h < nu6_2)"

definition is_temporary_orchard_disabling_soft_fork_activation_height :: "network \<Rightarrow> height \<Rightarrow> bool" where
  "is_temporary_orchard_disabling_soft_fork_activation_height net h \<longleftrightarrow>
     temporary_orchard_disabling_soft_fork_height net = Some h"

section \<open>Valid networks\<close>

definition valid_activation :: "activation_map \<Rightarrow> bool" where
  "valid_activation m \<longleftrightarrow>
     bt_sorted m \<and> sorted_wrt (<) (map snd m) \<and> (0, Genesis) \<in> set m \<and>
     (\<forall>x \<in> set m. fst x \<le> MAX_HEIGHT)"

definition valid_parameters :: "parameters \<Rightarrow> bool" where
  "valid_parameters ps \<longleftrightarrow>
     valid_activation (p_activation_heights ps) \<and>
     in_u32 (p_slow_start_interval ps) \<and>
     p_slow_start_shift ps = p_slow_start_interval ps div 2 \<and>
     0 < p_pre_blossom_halving_interval ps \<and>
     in_i64 (p_pre_blossom_halving_interval ps * 150) \<and>
     p_post_blossom_halving_interval ps = p_pre_blossom_halving_interval ps * 2"

definition valid_network :: "network \<Rightarrow> bool" where
  "valid_network net = (case net of Mainnet \<Rightarrow> True | Testnet params \<Rightarrow> valid_parameters params)"

locale valid_net =
  fixes net :: network
  assumes valid: "valid_network net"

section \<open>Lemmas\<close>

lemma mainnet_activation_valid: "valid_activation MAINNET_ACTIVATION_HEIGHTS"
  by (simp add: valid_activation_def MAINNET_ACTIVATION_HEIGHTS_def nu_order MAX_HEIGHT_def)

lemma testnet_activation_valid: "valid_activation TESTNET_ACTIVATION_HEIGHTS"
  by (simp add: valid_activation_def TESTNET_ACTIVATION_HEIGHTS_def nu_order MAX_HEIGHT_def)

text \<open>In a valid map the fallback to later upgrades finds the first entry at or after the upgrade.\<close>

lemma map_activation_height_eq:
  "sorted_wrt (<) (map snd m) \<Longrightarrow>
    map_activation_height m nu = map_option fst (find (\<lambda>x. nu \<le> snd x) m)"
proof (induction "12 - nu_index nu" arbitrary: nu rule: less_induct)
  case less
  have first: "find (\<lambda>x. nu \<le> snd x) m = Some x" if f: "find (\<lambda>x. snd x = nu) m = Some x" for x
  proof -
    obtain i where i: "i < length m" "m ! i = x" "snd x = nu"
      using f by (auto simp: find_Some_iff)
    have "\<not> nu \<le> snd (m ! j)" if "j < i" for j
      using less.prems that i sorted_wrt_nth_less [of "(<)" "map snd m" j i] by auto
    then show ?thesis using i by (fastforce simp: find_Some_iff)
  qed
  show ?case
  proof (cases "find (\<lambda>x. snd x = nu) m")
    case (Some x)
    then show ?thesis using first by (simp add: map_activation_height.simps [of m nu])
  next
    case None
    then have no: "snd x \<noteq> nu" if "x \<in> set m" for x
      using that unfolding find_None_iff by blast
    show ?thesis
    proof (cases "next_upgrade nu")
      case next_None: None
      then have "\<not> nu \<le> snd x" if "x \<in> set m" for x
        using no [OF that] next_None nu_le_Nu7 [of "snd x"] by (metis antisym next_upgrade_None)
      then have "find (\<lambda>x. nu \<le> snd x) m = None" unfolding find_None_iff by blast
      then show ?thesis using None next_None by (subst map_activation_height.simps) simp
    next
      case (Some nu')
      have idx: "nu_index nu' = Suc (nu_index nu)" using Some by (rule next_upgrade_index)
      have "nu_index nu' \<le> 12" by (cases nu') simp_all
      then have IH: "map_activation_height m nu' = map_option fst (find (\<lambda>x. nu' \<le> snd x) m)"
        using less.hyps [of nu'] less.prems idx by simp
      have "nu' \<le> snd x \<longleftrightarrow> nu \<le> snd x" if "x \<in> set m" for x
      proof -
        have "nu_index (snd x) \<noteq> nu_index nu" using no [OF that] by simp
        then show ?thesis using idx by (auto simp: nu_order simp del: nu_index_inject)
      qed
      then have "find (\<lambda>x. nu' \<le> snd x) m = find (\<lambda>x. nu \<le> snd x) m"
        by (intro find_cong) auto
      then show ?thesis using None Some IH by (simp add: map_activation_height.simps [of m nu])
    qed
  qed
qed

lemma map_last_upto_Some:
  assumes "valid_activation m"
  shows "\<exists>x. map_last_upto m h = Some x \<and> x \<in> set m \<and> fst x \<le> h \<and>
      (\<forall>y \<in> set m. fst y \<le> h \<longrightarrow> fst y \<le> fst x \<and> snd y \<le> snd x)"
proof -
  let ?b = "filter (\<lambda>x. fst x \<le> h) m"
  have "(0, Genesis) \<in> set ?b" using assms by (simp add: valid_activation_def)
  then have ne: "?b \<noteq> []" by (metis empty_iff list.set(1))
  have s: "sorted_wrt (<) (map fst m)" "sorted_wrt (<) (map snd m)"
    using assms by (simp_all add: valid_activation_def)
  then have pairs: "sorted_wrt (\<lambda>x y. fst x < fst y \<and> snd x < snd y) m"
    by (simp add: sorted_wrt_map sorted_wrt_iff_nth_less)
  then have "sorted_wrt (\<lambda>x y. fst x < fst y \<and> snd x < snd y) ?b"
    by (rule sorted_wrt_filter)
  then have "fst y \<le> fst (last ?b) \<and> snd y \<le> snd (last ?b)" if "y \<in> set ?b" for y
  proof -
    have "sorted_wrt (\<lambda>x y. fst x < fst y \<and> snd x < snd y) (butlast ?b @ [last ?b])"
      using \<open>sorted_wrt _ ?b\<close> ne by simp
    moreover have "y \<in> set (butlast ?b) \<or> y = last ?b"
      using that ne by (metis append_butlast_last_id in_set_conv_decomp rotate1.simps(2) set_ConsD set_rotate1)
    ultimately show ?thesis by (auto simp: sorted_wrt_append less_imp_le)
  qed
  moreover have "last ?b \<in> set ?b" using ne by (rule last_in_set)
  ultimately show ?thesis using ne by (auto simp: map_last_upto_def Let_def)
qed

text \<open>The upgrade of a height, as a total function on valid networks.\<close>

definition upgrade_at :: "network \<Rightarrow> height \<Rightarrow> network_upgrade" where
  "upgrade_at net h = unwrap (current net h)"

context valid_net
begin

lemma activation_valid: "valid_activation (activation_map net)"
  using valid mainnet_activation_valid
  by (auto simp: activation_map_def valid_network_def valid_parameters_def split: network.splits)

lemma current_eq: "current net h = Ok (upgrade_at net h)"
  using map_last_upto_Some [OF activation_valid, of h]
  by (auto simp: current_def upgrade_at_def)

lemma activation_height_find:
  "activation_height nu net = map_option fst (find (\<lambda>x. nu \<le> snd x) (activation_map net))"
  using activation_valid
  by (simp add: activation_height_def valid_activation_def map_activation_height_eq)

lemma upgrade_at_ge_iff:
  "nu \<le> upgrade_at net h \<longleftrightarrow> (\<exists>a. activation_height nu net = Some a \<and> a \<le> h)"
proof -
  let ?m = "activation_map net"
  obtain x where x: "map_last_upto ?m h = Some x" "x \<in> set ?m" "fst x \<le> h"
      "\<forall>y \<in> set ?m. fst y \<le> h \<longrightarrow> fst y \<le> fst x \<and> snd y \<le> snd x"
    using map_last_upto_Some [OF activation_valid, of h] by blast
  have up: "upgrade_at net h = snd x" using x(1) by (simp add: upgrade_at_def current_def)
  have sorted: "sorted_wrt (<) (map fst ?m)"
    using activation_valid by (simp add: valid_activation_def)
  show ?thesis
  proof
    assume nu: "nu \<le> upgrade_at net h"
    then have "find (\<lambda>x. nu \<le> snd x) ?m \<noteq> None" using x(2) up unfolding find_None_iff by metis
    then obtain y where y: "find (\<lambda>x. nu \<le> snd x) ?m = Some y" by blast
    then obtain i where i: "i < length ?m" "?m ! i = y" "\<forall>j < i. \<not> nu \<le> snd (?m ! j)"
      by (auto simp: find_Some_iff)
    obtain k where k: "k < length ?m" "?m ! k = x" using x(2) by (auto simp: in_set_conv_nth)
    have "i \<le> k" using i(3) k nu up by (metis not_le)
    then have "fst y \<le> fst x"
      using i k sorted_wrt_nth_less [OF sorted, of i k] by (cases "i = k") auto
    then show "\<exists>a. activation_height nu net = Some a \<and> a \<le> h"
      using y x(3) by (simp add: activation_height_find)
  next
    assume "\<exists>a. activation_height nu net = Some a \<and> a \<le> h"
    then obtain y where y: "find (\<lambda>x. nu \<le> snd x) ?m = Some y" "fst y \<le> h"
      by (auto simp: activation_height_find)
    then have "y \<in> set ?m" "nu \<le> snd y" by (auto simp: find_Some_iff)
    then show "nu \<le> upgrade_at net h" using x(4) y(2) up by (metis order_trans)
  qed
qed

lemma upgrade_at_mono: "h \<le> k \<Longrightarrow> upgrade_at net h \<le> upgrade_at net k"
  using upgrade_at_ge_iff [of "upgrade_at net h" h] upgrade_at_ge_iff [of "upgrade_at net h" k]
  by auto

lemma activation_height_mono:
  "nu \<le> nu' \<Longrightarrow> activation_height nu' net = Some b \<Longrightarrow> \<exists>a. activation_height nu net = Some a \<and> a \<le> b"
  using upgrade_at_ge_iff [of nu' b] upgrade_at_ge_iff [of nu b] by (auto dest: order_trans)

lemma activation_height_Genesis: "activation_height Genesis net = Some 0"
  using upgrade_at_ge_iff [of Genesis 0] by auto

lemma activation_height_le_MAX: "activation_height nu net = Some a \<Longrightarrow> a \<le> MAX_HEIGHT"
  using activation_valid unfolding activation_height_find valid_activation_def
  by (auto simp: find_Some_iff) (metis fst_conv nth_mem)

end

text \<open>Passing a limit through its compact form clears all but its leading bytes.\<close>

lemma limit_via_compact_eq:
  fixes v :: u256
  assumes "v \<noteq> 0"
  defines "B \<equiv> 256 ^ (compact_size (unat v) - 3)"
  shows "limit_via_compact v = Ok (word_of_nat (unat v div B * B))"
proof -
  note enc = compact_value_encoding [OF assms(1), folded B_def]
  have "0 < unat v div B * B" using enc(3) by (simp add: B_def div_greater_zero_iff)
  moreover have "unat v div B * B \<le> unat v" by simp
  then have "unat v div B * B < 2 ^ 256" using unat_lt_256 [of v] by (rule le_less_trans)
  ultimately show ?thesis
    using enc by (simp add: limit_via_compact_def to_compact_eq [OF assms(1)] to_expanded_eq)
qed

lemma compact_size_exact: "2 ^ k \<le> n \<Longrightarrow> n < 2 ^ Suc k \<Longrightarrow> compact_size n = Suc k div 8 + 1"
  using nat_bits_le_iff [of n "Suc k"] nat_bits_gt_iff [of k n]
  by (simp add: compact_size_def order_antisym)

lemma mainnet_limit:
  "limit_via_compact (push_bit 243 1 - 1) = Ok (word_of_nat (0x7ffff * 256 ^ 28))"
proof -
  have u: "unat (push_bit 243 1 - 1 :: u256) = 2 ^ 243 - 1" by simp
  have c: "compact_size (2 ^ 243 - 1) = 31"
    using compact_size_exact [of 242 "2 ^ 243 - 1"] by simp
  have nz: "(push_bit 243 1 - 1 :: u256) \<noteq> 0" by simp
  have "(2 ^ 243 - 1) div 256 ^ (31 - 3) * 256 ^ (31 - 3) = (0x7ffff * 256 ^ 28 :: nat)" by simp
  then show ?thesis by (simp only: limit_via_compact_eq [OF nz] u c)
qed

lemma testnet_limit:
  "limit_via_compact (push_bit 251 1 - 1) = Ok (word_of_nat (0x7ffff * 256 ^ 29))"
proof -
  have u: "unat (push_bit 251 1 - 1 :: u256) = 2 ^ 251 - 1" by simp
  have c: "compact_size (2 ^ 251 - 1) = 32"
    using compact_size_exact [of 250 "2 ^ 251 - 1"] by simp
  have nz: "(push_bit 251 1 - 1 :: u256) \<noteq> 0" by simp
  have "(2 ^ 251 - 1) div 256 ^ (32 - 3) * 256 ^ (32 - 3) = (0x7ffff * 256 ^ 29 :: nat)" by simp
  then show ?thesis by (simp only: limit_via_compact_eq [OF nz] u c)
qed

lemma TESTNET_POW_LIMIT_eq: "TESTNET_POW_LIMIT = word_of_nat (0x7ffff * 256 ^ 29)"
  by (simp only: TESTNET_POW_LIMIT_def testnet_limit unwrap.simps)

lemma length_testnet_funding_streams [simp]: "length TESTNET_FUNDING_STREAMS = 3"
  by (simp add: TESTNET_FUNDING_STREAMS_def)

lemma default_activation: "activation_map (Testnet (p\<lparr>p_activation_heights := m\<rparr>)) = m"
  by (simp add: activation_map_def)

lemma testnet_map_nu7: "map_activation_height TESTNET_ACTIVATION_HEIGHTS Nu7 = Some 4465026"
  using testnet_activation_valid
  by (simp add: valid_activation_def map_activation_height_eq)
    (simp add: TESTNET_ACTIVATION_HEIGHTS_def nu_order)

text \<open>The third halving, and with it the end of the Revision 2 streams, moves to 4,497,948.\<close>

lemma finish_default:
  "\<exists>ps. finish default_builder = (Ok ps :: (unit, parameters) res) \<and>
     p_activation_heights ps = TESTNET_ACTIVATION_HEIGHTS \<and>
     p_slow_start_interval ps = SLOW_START_INTERVAL \<and> p_slow_start_shift ps = SLOW_START_INTERVAL div 2 \<and>
     p_pre_blossom_halving_interval ps = PRE_BLOSSOM_HALVING_INTERVAL \<and>
     p_post_blossom_halving_interval ps = POST_BLOSSOM_HALVING_INTERVAL \<and>
     p_target_difficulty_limit ps = TESTNET_POW_LIMIT \<and>
     p_funding_streams ps =
       TESTNET_FUNDING_STREAMS[2 := (TESTNET_FUNDING_STREAMS ! 2)\<lparr>range_end := 4497948\<rparr>]"
proof -
  have e: "range_end (TESTNET_FUNDING_STREAMS ! 2) = 4476000"
    by (simp add: TESTNET_FUNDING_STREAMS_def)
  show ?thesis
    unfolding finish_def default_builder_def
    by (simp add: Let_def REVISION_2_FUNDING_STREAMS_INDEX_def activation_height_def activation_map_def
        testnet_map_nu7 with_nu7_adjusted_end_height_def nu7_adjusted_funding_stream_height_def e
        u32_checked_def in_u32_def MAX_HEIGHT_def)
qed

lemma default_parameters_fields:
  "p_activation_heights default_parameters = TESTNET_ACTIVATION_HEIGHTS"
  "p_slow_start_interval default_parameters = 20000"
  "p_slow_start_shift default_parameters = 10000"
  "p_pre_blossom_halving_interval default_parameters = 840000"
  "p_post_blossom_halving_interval default_parameters = 1680000"
  "p_target_difficulty_limit default_parameters = TESTNET_POW_LIMIT"
  "p_initial_nsm_value_balance default_parameters = Some TESTNET_INITIAL_NSM_VALUE_BALANCE"
  "p_funding_streams default_parameters =
     TESTNET_FUNDING_STREAMS[2 := (TESTNET_FUNDING_STREAMS ! 2)\<lparr>range_end := 4497948\<rparr>]"
  using finish_default
  by (auto simp: default_parameters_def SLOW_START_INTERVAL_def PRE_BLOSSOM_HALVING_INTERVAL_def
      POST_BLOSSOM_HALVING_INTERVAL_def BLOSSOM_POW_TARGET_SPACING_RATIO_def)

lemma default_parameters_valid: "valid_parameters default_parameters"
  using testnet_activation_valid
  by (simp add: valid_parameters_def default_parameters_fields in_u32_def in_i64_def)

interpretation mainnet: valid_net Mainnet
  by unfold_locales (simp add: valid_network_def)

interpretation testnet: valid_net new_default_testnet
  by unfold_locales (simp add: valid_network_def new_default_testnet_def default_parameters_valid)

context valid_net
begin

lemma slow_start_shift_eq: "slow_start_shift net = slow_start_interval net div 2"
  using valid
  by (auto simp: valid_network_def valid_parameters_def slow_start_shift_def slow_start_interval_def
      SLOW_START_INTERVAL_def split: network.splits)

lemma slow_start_interval_u32: "slow_start_interval net < 2 ^ 32"
  using valid
  by (auto simp: valid_network_def valid_parameters_def slow_start_interval_def in_u32_def
      SLOW_START_INTERVAL_def split: network.splits)

lemma pre_blossom_interval_pos: "0 < pre_blossom_halving_interval net"
  using valid
  by (auto simp: valid_network_def valid_parameters_def pre_blossom_halving_interval_def
      PRE_BLOSSOM_HALVING_INTERVAL_def split: network.splits)

lemma pre_blossom_interval_i64: "in_i64 (pre_blossom_halving_interval net * 150)"
  using valid
  by (auto simp: valid_network_def valid_parameters_def pre_blossom_halving_interval_def
      PRE_BLOSSOM_HALVING_INTERVAL_def in_i64_def split: network.splits)

lemma post_blossom_interval_eq: "post_blossom_halving_interval net = pre_blossom_halving_interval net * 2"
  using valid
  by (auto simp: valid_network_def valid_parameters_def pre_blossom_halving_interval_def
      post_blossom_halving_interval_def POST_BLOSSOM_HALVING_INTERVAL_def
      BLOSSOM_POW_TARGET_SPACING_RATIO_def split: network.splits)

end

section \<open>Properties\<close>

text \<open>
  C26. On every valid network each height has exactly one current upgrade, found without panicking,
  and an upgrade or a later one is current at a height precisely when its activation height, which
  falls back to the next configured upgrade, is at or below that height. Upgrades never go back as
  the chain grows.
\<close>

theorem current_upgrade_iff_activated:
  assumes "valid_network net"
  shows "\<exists>cur. current net h = Ok cur \<and>
      (nu \<le> cur \<longleftrightarrow> (\<exists>a. activation_height nu net = Some a \<and> a \<le> h)) \<and>
      (h \<le> k \<longrightarrow> (\<exists>cur'. current net k = Ok cur' \<and> cur \<le> cur'))"
proof -
  have v: "valid_net net" using assms by (rule valid_net.intro)
  show ?thesis
    by (intro exI conjI impI, rule valid_net.current_eq [OF v], rule valid_net.upgrade_at_ge_iff [OF v],
        rule valid_net.current_eq [OF v], erule valid_net.upgrade_at_mono [OF v])
qed

theorem current_upgrade_iff_activated_witness:
  "\<exists>cur. current Mainnet 3600000 = Ok cur \<and>
      (Nu7 \<le> cur \<longleftrightarrow> (\<exists>a. activation_height Nu7 Mainnet = Some a \<and> a \<le> 3600000)) \<and>
      ((3600000 :: nat) \<le> 4000000 \<longrightarrow> (\<exists>cur'. current Mainnet 4000000 = Ok cur' \<and> cur \<le> cur'))"
proof -
  have "valid_network Mainnet" by (simp add: valid_network_def)
  then show ?thesis by (rule current_upgrade_iff_activated)
qed

end
