(* ===== verification/Subsidy.thy ===== *)
theory Subsidy
  imports Network
begin

text \<open>
  The halving schedule, \<open>zakura-chain/src/parameters/network/subsidy.rs\<close>: the halving index of a
  height, its inverse \<open>height_for_halving\<close>, and the block subsidy it gives. The functions compute
  with \<open>i64\<close> seconds, and every step is checked.

  On a valid network all of it is total. \<open>block_seconds\<close>, \<open>halving_index\<close> and
  \<open>scheduled_subsidy\<close> are closed forms of what the loops compute; the source's bisection is
  interpreted on them (\<open>halving_search\<close>).
\<close>

section \<open>The halving schedule\<close>

datatype subsidy_error =
    NoCoinbase
  | FundingStreamNotFound
  | FoundersRewardNotFound
  | OneTimeLockboxDisbursementNotFound
  | InvalidMinerFees
  | MissingNsmValueBalance
  | NegativeNsmValueBalance
  | SubsidyOverflow
  | SubsidyUnderflow
  | UnsupportedHeight
  | InvalidAmount amount_error

text \<open>The \<open>while let\<close> over the spacing eras: each adds its block seconds up to the next one.\<close>

fun add_eras :: "height \<Rightarrow> int \<Rightarrow> (height \<times> int) list \<Rightarrow> ('e, int) res" where
  "add_eras h total_block_seconds [] = Ok total_block_seconds"
| "add_eras h total_block_seconds ((era_start, era_spacing) # eras) =
     (let era_end = (case eras of [] \<Rightarrow> h | (next_start, _) # _ \<Rightarrow> next_start) in
      bindr (i64_op (height_sub era_end era_start * era_spacing)) (\<lambda>s.
      bindr (i64_op (total_block_seconds + s)) (\<lambda>t. add_eras h t eras)))"

definition halving :: "height \<Rightarrow> network \<Rightarrow> ('e, nat) res" where
  "halving h net =
     (if h < slow_start_shift net then Ok 0
      else
        let pre_blossom_spacing_seconds = target_spacing Genesis in
        bindr (i64_op (- int (slow_start_shift net) * pre_blossom_spacing_seconds)) (\<lambda>start.
        bindr (add_eras h start (filter (\<lambda>x. fst x \<le> h) (target_spacings net))) (\<lambda>total_block_seconds.
        bindr (i64_op (pre_blossom_halving_interval net * pre_blossom_spacing_seconds))
          (\<lambda>pre_blossom_denominator.
        bindr (i64_div total_block_seconds pre_blossom_denominator) (\<lambda>q.
        expect_some (u32_try_from (max q 0)))))))"

text \<open>\<open>1u64.checked_shl\<close> gives \<open>None\<close> for shifts of 64 bits and more.\<close>

definition halving_divisor :: "height \<Rightarrow> network \<Rightarrow> ('e, nat option) res" where
  "halving_divisor h net = bindr (halving h net) (\<lambda>k. Ok (if k < 64 then Some (2 ^ k) else None))"

definition height_for_halving :: "nat \<Rightarrow> network \<Rightarrow> ('e, height option) res" where
  "height_for_halving k net =
     (if k = 0 then Ok (Some 0)
      else bindr (halving MAX_HEIGHT net) (\<lambda>last.
        if last < k then Ok None
        else bindr (bisect (\<lambda>middle. bindr (halving middle net) (\<lambda>x. Ok (\<not> x < k))) MIN_HEIGHT MAX_HEIGHT)
               (\<lambda>low. Ok (Some low))))"

definition height_for_first_halving :: "network \<Rightarrow> ('e, height) res" where
  "height_for_first_halving net =
     (case net of
        Mainnet \<Rightarrow> expect_some (activation_height Canopy net)
      | Testnet params \<Rightarrow>
          if params_is_default_testnet params then Ok TESTNET_FIRST_HALVING
          else bindr (height_for_halving 1 net) expect_some)"

definition halving_block_subsidy :: "height \<Rightarrow> network \<Rightarrow> (subsidy_error, amount) res" where
  "halving_block_subsidy h net =
     bindr (halving_divisor h net) (\<lambda>d. case d of
       None \<Rightarrow> Ok 0
     | Some halving_div \<Rightarrow>
         bindr
           (if h < slow_start_interval net then
              (let slow_start_rate = MAX_BLOCK_SUBSIDY div slow_start_interval net in
               if h < slow_start_shift net then u64_op (slow_start_rate * h)
               else u64_op (slow_start_rate * (h + 1)))
            else
              bindr (target_spacing_for_height net h) (\<lambda>current_spacing_seconds.
              bindr (u64_op (MAX_BLOCK_SUBSIDY * nat current_spacing_seconds)) (\<lambda>s.
              Ok (s div nat (target_spacing Genesis) div halving_div))))
           (\<lambda>a. map_err InvalidAmount (amount_try_from_u64 NonNegative a)))"

section \<open>Closed forms\<close>

definition era_start :: "network \<Rightarrow> network_upgrade \<Rightarrow> height \<Rightarrow> height" where
  "era_start net nu h = (case activation_height nu net of None \<Rightarrow> h | Some a \<Rightarrow> min a h)"

definition block_seconds :: "network \<Rightarrow> height \<Rightarrow> int" where
  "block_seconds net h =
     150 * int (era_start net Blossom h)
     + 75 * (int (era_start net Nu7 h) - int (era_start net Blossom h))
     + 25 * (int h - int (era_start net Nu7 h))
     - 150 * int (slow_start_shift net)"

definition halving_index :: "network \<Rightarrow> height \<Rightarrow> nat" where
  "halving_index net h =
     (if h < slow_start_shift net then 0
      else nat (block_seconds net h div (150 * pre_blossom_halving_interval net)))"

definition scheduled_subsidy :: "network \<Rightarrow> height \<Rightarrow> nat" where
  "scheduled_subsidy net h =
     (if 64 \<le> halving_index net h then 0
      else if h < slow_start_interval net then
        (let rate = MAX_BLOCK_SUBSIDY div slow_start_interval net in
         if h < slow_start_shift net then rate * h else rate * (h + 1))
      else MAX_BLOCK_SUBSIDY * nat (target_spacing (upgrade_at net h)) div 150 div 2 ^ halving_index net h)"

section \<open>Lemmas\<close>

context valid_net
begin

lemma target_spacings_eq:
  "target_spacings net =
    (0, 150) # (case activation_height Blossom net of None \<Rightarrow> []
      | Some b \<Rightarrow> (b, 75) # (case activation_height Nu7 net of None \<Rightarrow> [] | Some a \<Rightarrow> [(a, 25)]))"
proof -
  have "activation_height Nu7 net = None" if "activation_height Blossom net = None"
    using that activation_height_mono [of Blossom Nu7] by (cases "activation_height Nu7 net") auto
  then show ?thesis
    by (auto simp: target_spacings_def map_filter_simps activation_height_Genesis spacing_constants
        split: option.splits)
qed

lemma blossom_le_nu7:
  "activation_height Nu7 net = Some a \<Longrightarrow> \<exists>b. activation_height Blossom net = Some b \<and> b \<le> a"
  using activation_height_mono [of Blossom Nu7] by simp

lemma add_eras_eq:
  assumes h: "h < 2 ^ 32" and t: "\<bar>t\<bar> \<le> 2 ^ 62"
  shows "add_eras h t (filter (\<lambda>x. fst x \<le> h) (target_spacings net)) =
    Ok (t + block_seconds net h + 150 * int (slow_start_shift net))"
proof -
  have op: "i64_op x = Ok x" if "\<bar>x\<bar> \<le> 2 ^ 62 + 2 ^ 40" for x
    using that by (intro i64_op_Ok) (auto simp: in_i64_def)
  consider "activation_height Blossom net = None" "activation_height Nu7 net = None"
    | b where "activation_height Blossom net = Some b" "activation_height Nu7 net = None"
    | b a where "activation_height Blossom net = Some b" "activation_height Nu7 net = Some a" "b \<le> a"
    using blossom_le_nu7 by (cases "activation_height Nu7 net"; cases "activation_height Blossom net") auto
  then show ?thesis
  proof cases
    case 1
    then show ?thesis using h t
      by (simp add: target_spacings_eq block_seconds_def era_start_def height_sub_def op)
  next
    case (2 b)
    then show ?thesis using h t
      by (auto simp: target_spacings_eq block_seconds_def era_start_def height_sub_def op Let_def)
  next
    case (3 b a)
    then show ?thesis using h t
      by (auto simp: target_spacings_eq block_seconds_def era_start_def height_sub_def op Let_def)
  qed
qed

lemma era_start_le: "era_start net nu h \<le> h"
  by (auto simp: era_start_def split: option.splits)

lemma era_start_order: "era_start net Blossom h \<le> era_start net Nu7 h"
  using blossom_le_nu7
  by (cases "activation_height Nu7 net"; cases "activation_height Blossom net")
    (auto simp: era_start_def min_def)

lemma block_seconds_Suc:
  "block_seconds net (Suc h) = block_seconds net h + target_spacing (upgrade_at net h)"
proof -
  have e: "int (era_start net nu (Suc h)) = int (era_start net nu h) + (if nu \<le> upgrade_at net h then 0 else 1)" for nu
    by (auto simp: era_start_def upgrade_at_ge_iff min_def split: option.splits)
  have n: "upgrade_at net h < nu \<longleftrightarrow> \<not> nu \<le> upgrade_at net h" for nu by auto
  have "Nu7 \<le> upgrade_at net h \<Longrightarrow> Blossom \<le> upgrade_at net h"
    using order_trans [of Blossom Nu7 "upgrade_at net h"] by simp
  then show ?thesis by (auto simp: block_seconds_def e target_spacing_eq n)
qed

lemma block_seconds_mono: "h \<le> k \<Longrightarrow> block_seconds net h \<le> block_seconds net k"
proof (induction k rule: dec_induct)
  case (step n)
  have "0 < target_spacing (upgrade_at net n)" by (simp add: target_spacing_eq)
  with step show ?case by (simp add: block_seconds_Suc)
qed simp

lemma block_seconds_bounds:
  "- (150 * int (slow_start_shift net)) \<le> block_seconds net h"
  "block_seconds net h \<le> 150 * int h"
  using era_start_le [of Blossom h] era_start_le [of Nu7 h] era_start_order [of h]
  by (auto simp: block_seconds_def)

lemma shift_u32: "slow_start_shift net < 2 ^ 31"
  using slow_start_interval_u32 by (simp add: slow_start_shift_eq)

lemma halving_eq:
  assumes h: "h < 2 ^ 32"
  shows "halving h net = (Ok (halving_index net h) :: ('e, nat) res)"
proof (cases "h < slow_start_shift net")
  case True
  then show ?thesis by (simp add: halving_def halving_index_def)
next
  case False
  define d where "d = pre_blossom_halving_interval net * 150"
  define t where "t = block_seconds net h"
  have d: "0 < d" "in_i64 d"
    using pre_blossom_interval_pos pre_blossom_interval_i64 by (auto simp: d_def)
  have t: "- (2 ^ 40) < t" "t < 2 ^ 40"
    using block_seconds_bounds [of h] h shift_u32 by (auto simp: t_def)
  have add: "add_eras h (- (int (slow_start_shift net) * 150)) (filter (\<lambda>x. fst x \<le> h) (target_spacings net)) =
      (Ok t :: ('e, int) res)"
    using add_eras_eq [OF h, of "- int (slow_start_shift net) * 150"] shift_u32 by (simp add: t_def)
  have start: "in_i64 (- int (slow_start_shift net) * 150)"
    using shift_u32 by (auto simp: in_i64_def)
  have q: "\<bar>t sdiv d\<bar> \<le> \<bar>t\<bar>"
  proof (cases "0 \<le> t")
    case True
    then have "t div d \<le> t" using d(1) zdiv_mono2 [of t 1 d] by simp
    moreover have "0 \<le> t div d" using True d(1) by (simp add: pos_imp_zdiv_nonneg_iff)
    ultimately show ?thesis using True d(1) by (simp add: sdiv_nonneg)
  next
    case False
    then have "(- t) div d \<le> - t" using d(1) zdiv_mono2 [of "- t" 1 d] by simp
    moreover have "0 \<le> (- t) div d" using False d(1) by (simp add: pos_imp_zdiv_nonneg_iff)
    ultimately show ?thesis using False d(1) by (simp add: sdiv_neg)
  qed
  have div: "i64_div t d = (Ok (t sdiv d) :: ('e, int) res)"
    using d(1) t q by (auto simp: i64_div_def in_i64_def intro!: i64_op_Ok)
  have max: "max (t sdiv d) 0 = max (t div d) 0"
  proof (cases "0 \<le> t")
    case False
    have "0 \<le> (- t) div d" using False d(1) by (simp add: pos_imp_zdiv_nonneg_iff)
    moreover have "t div d < 0" using False d(1) by (simp add: pos_imp_zdiv_neg_iff)
    ultimately show ?thesis using False d(1) by (simp add: sdiv_neg)
  qed (simp add: sdiv_nonneg d(1))
  have "t < 150 * 2 ^ 32" using block_seconds_bounds(2) [of h] h by (simp add: t_def)
  also have "\<dots> \<le> d * 2 ^ 32" using pre_blossom_interval_pos by (simp add: d_def)
  finally have "t div d < 2 ^ 32" using d(1) by (intro int_div_less)
  then have u: "u32_try_from (max (t sdiv d) 0) = Some (nat (t div d))"
    unfolding max by (auto simp: u32_try_from_def max_def)
  show ?thesis
    using False d(2) start
    by (simp add: halving_def target_spacing_eq nu_order add div u halving_index_def t_def [symmetric]
        d_def [symmetric] i64_op_Ok mult.commute [of 150])
qed

lemma halving_index_mono: "h \<le> k \<Longrightarrow> halving_index net h \<le> halving_index net k"
  using block_seconds_mono [of h k] pre_blossom_interval_pos
  by (auto simp: halving_index_def intro!: nat_mono zdiv_mono1)


lemma halving_eq_le: "m \<le> MAX_HEIGHT \<Longrightarrow> halving m net = Ok (halving_index net m)"
  by (rule halving_eq) (simp add: MAX_HEIGHT_def)

sublocale halving_search: monotone_test
  "\<lambda>middle. bindr (halving middle net) (\<lambda>x. Ok (\<not> x < k))" "\<lambda>m. k \<le> halving_index net m" MAX_HEIGHT
  for k
proof unfold_locales
  fix m assume "m \<le> MAX_HEIGHT"
  then show "bindr (halving m net) (\<lambda>x. Ok (\<not> x < k)) = Ok (k \<le> halving_index net m)"
    by (auto simp: halving_eq_le)
next
  fix m n assume "k \<le> halving_index net m" "m \<le> n"
  then show "k \<le> halving_index net n" using halving_index_mono [of m n] by simp
qed

lemma height_for_halving_eq:
  "height_for_halving k net =
    Ok (if k = 0 then Some 0 else if halving_index net MAX_HEIGHT < k then None
        else Some (LEAST h. k \<le> halving_index net h))"
  by (auto simp: height_for_halving_def halving_eq_le MIN_HEIGHT_def not_less
      halving_search.bisect_eq(1) [of 0 MAX_HEIGHT k, simplified not_less])

lemma halving_index_0 [simp]: "halving_index net 0 = 0"
  using block_seconds_bounds(2) [of 0] pre_blossom_interval_pos
  by (auto simp: halving_index_def nat_eq_iff pos_imp_zdiv_nonneg_iff intro!: zdiv_eq_0_iff [THEN iffD2]) 

lemma halving_height:
  assumes "0 < k" "k \<le> halving_index net MAX_HEIGHT"
  defines "a \<equiv> (LEAST h. k \<le> halving_index net h)"
  shows "0 < a" "a \<le> MAX_HEIGHT" "k \<le> halving_index net h \<longleftrightarrow> a \<le> h"
proof -
  note b = halving_search.bisect_eq(3-5) [of 0 MAX_HEIGHT k, simplified, OF assms(2), folded a_def]
  show "a \<le> MAX_HEIGHT" by (rule b(1))
  have "halving_index net a \<noteq> halving_index net 0" using b(2) assms(1) by simp
  then show "0 < a" by (cases "a = 0") auto
  show "k \<le> halving_index net h \<longleftrightarrow> a \<le> h"
    using b(2) b(3) [of h] halving_index_mono [of a h] by (cases "a \<le> h") auto
qed
end

lemma target_spacing_cases: "target_spacing nu = 25 \<or> target_spacing nu = 75 \<or> target_spacing nu = 150"
  by (simp add: target_spacing_eq)

context valid_net
begin

lemma halving_divisor_eq:
  "h < 2 ^ 32 \<Longrightarrow> halving_divisor h net = Ok (if halving_index net h < 64 then Some (2 ^ halving_index net h) else None)"
  by (simp add: halving_divisor_def halving_eq)

lemma scheduled_subsidy_le: "scheduled_subsidy net h \<le> MAX_BLOCK_SUBSIDY"
proof (cases "h < slow_start_interval net")
  case True
  define rate where "rate = MAX_BLOCK_SUBSIDY div slow_start_interval net"
  have "rate * h \<le> rate * slow_start_interval net" "rate * (h + 1) \<le> rate * slow_start_interval net"
    using True by (intro mult_le_mono2; simp)+
  moreover have "rate * slow_start_interval net \<le> MAX_BLOCK_SUBSIDY"
    unfolding rate_def by (rule div_times_less_eq_dividend)
  ultimately show ?thesis
    using True unfolding scheduled_subsidy_def Let_def rate_def [symmetric] by auto
next
  case False
  have "nat (target_spacing nu) \<le> 150" for nu using target_spacing_cases [of nu] by auto
  then have "MAX_BLOCK_SUBSIDY * nat (target_spacing (upgrade_at net h)) div 150 \<le> MAX_BLOCK_SUBSIDY"
    by (metis div_le_mono mult_le_mono2 nonzero_mult_div_cancel_right zero_neq_numeral)
  then have "MAX_BLOCK_SUBSIDY * nat (target_spacing (upgrade_at net h)) div 150 div 2 ^ halving_index net h
      \<le> MAX_BLOCK_SUBSIDY"
    by (rule le_trans [OF div_le_dividend])
  then show ?thesis
    using False unfolding scheduled_subsidy_def by simp
qed

lemma scheduled_subsidy_antimono:
  assumes "slow_start_interval net \<le> h" "h \<le> k"
  shows "scheduled_subsidy net k \<le> scheduled_subsidy net h"
proof (cases "64 \<le> halving_index net k")
  case False
  have idx: "halving_index net h \<le> halving_index net k" using assms(2) by (rule halving_index_mono)
  have "target_spacing (upgrade_at net k) \<le> target_spacing (upgrade_at net h)"
    using upgrade_at_mono [OF assms(2)] order_trans [of Blossom Nu7]
    by (auto simp: target_spacing_eq not_less nu_order)
  then have "nat (target_spacing (upgrade_at net k)) \<le> nat (target_spacing (upgrade_at net h))" by simp
  then have "MAX_BLOCK_SUBSIDY * nat (target_spacing (upgrade_at net k)) div 150 \<le>
      MAX_BLOCK_SUBSIDY * nat (target_spacing (upgrade_at net h)) div 150"
    by (intro div_le_mono mult_le_mono2)
  then have "MAX_BLOCK_SUBSIDY * nat (target_spacing (upgrade_at net k)) div 150 div 2 ^ halving_index net k \<le>
      MAX_BLOCK_SUBSIDY * nat (target_spacing (upgrade_at net h)) div 150 div 2 ^ halving_index net k"
    by (rule div_le_mono)
  also have "\<dots> \<le> MAX_BLOCK_SUBSIDY * nat (target_spacing (upgrade_at net h)) div 150 div 2 ^ halving_index net h"
    using idx by (intro div_le_mono2) auto
  finally show ?thesis using False idx assms by (simp add: scheduled_subsidy_def)
qed (simp add: scheduled_subsidy_def)

lemma halving_block_subsidy_eq:
  assumes h: "h < 2 ^ 32"
  shows "halving_block_subsidy h net = Ok (int (scheduled_subsidy net h))"
proof (cases "halving_index net h < 64")
  case False
  then show ?thesis using h by (simp add: halving_block_subsidy_def halving_divisor_eq scheduled_subsidy_def)
next
  case True
  have amount: "amount_try_from_u64 NonNegative a = Ok (int a)" if "a \<le> MAX_BLOCK_SUBSIDY" for a
    using that by (simp add: amount_try_from_u64_def validate_def in_i64_def MAX_MONEY_def COIN_def)
  have u64: "in_u64 a" if "a \<le> MAX_BLOCK_SUBSIDY * 150" for a
    using that by (simp add: in_u64_def)
  note le = scheduled_subsidy_le [of h]
  show ?thesis
  proof (cases "h < slow_start_interval net")
    case slow: True
    then have "scheduled_subsidy net h =
        (if h < slow_start_shift net then MAX_BLOCK_SUBSIDY div slow_start_interval net * h
         else MAX_BLOCK_SUBSIDY div slow_start_interval net * (h + 1))"
      using True by (simp add: scheduled_subsidy_def Let_def)
    then show ?thesis
      using True slow h le amount [OF le] u64
      by (auto simp: halving_block_subsidy_def halving_divisor_eq u64_op_Ok Let_def
          simp del: mult_Suc_right MAX_BLOCK_SUBSIDY_eq split: if_splits)
  next
    case False
    have "nat (target_spacing (upgrade_at net h)) \<le> 150"
      using target_spacing_cases [of "upgrade_at net h"] by auto
    then have p: "in_u64 (MAX_BLOCK_SUBSIDY * nat (target_spacing (upgrade_at net h)))"
      by (intro u64 mult_le_mono2)
    have s: "scheduled_subsidy net h =
        MAX_BLOCK_SUBSIDY * nat (target_spacing (upgrade_at net h)) div 150 div 2 ^ halving_index net h"
      using True False by (simp add: scheduled_subsidy_def)
    have g: "nat (target_spacing Genesis) = 150" by (simp add: target_spacing_eq nu_order)
    show ?thesis
      using True False h amount [OF le] unfolding s
      by (simp add: halving_block_subsidy_def halving_divisor_eq target_spacing_for_height_def current_eq
          u64_op_Ok [OF p] g del: MAX_BLOCK_SUBSIDY_eq)
  qed
qed

lemma halving_divisor_eq_le:
  "h \<le> MAX_HEIGHT \<Longrightarrow>
    halving_divisor h net = Ok (if halving_index net h < 64 then Some (2 ^ halving_index net h) else None)"
  by (rule halving_divisor_eq) (simp add: MAX_HEIGHT_def)

lemma halving_block_subsidy_eq_le:
  "h \<le> MAX_HEIGHT \<Longrightarrow> halving_block_subsidy h net = Ok (int (scheduled_subsidy net h))"
  by (rule halving_block_subsidy_eq) (simp add: MAX_HEIGHT_def)

end

section \<open>Properties\<close>

text \<open>
  C15. On every valid network the halving index is defined at every supported height, and
  \<open>height_for_halving\<close> inverts it: the bisection returns the first height whose halving index
  reaches the requested one, and \<open>None\<close> precisely when no supported height does.
\<close>

theorem height_for_halving_inverse:
  assumes "valid_network net"
  shows "\<exists>r. height_for_halving k net = Ok r \<and>
      (\<forall>h. h \<le> MAX_HEIGHT \<longrightarrow> (\<exists>j. halving h net = Ok j \<and> (k \<le> j \<longleftrightarrow> (\<exists>a. r = Some a \<and> a \<le> h))))"
proof -
  have v: "valid_net net" using assms by (rule valid_net.intro)
  define r where "r = (if k = 0 then Some 0 else if halving_index net MAX_HEIGHT < k then None
      else Some (LEAST h. k \<le> halving_index net h))"
  have iff: "k \<le> halving_index net h \<longleftrightarrow> (\<exists>a. r = Some a \<and> a \<le> h)" if "h \<le> MAX_HEIGHT" for h
    using valid_net.halving_height(3) [OF v, of k h] valid_net.halving_index_mono [OF v that]
    by (auto simp: r_def)
  show ?thesis
    unfolding valid_net.height_for_halving_eq [OF v] r_def [symmetric]
    using iff by (intro exI [of _ r] conjI allI impI refl)
      (intro exI conjI, erule valid_net.halving_eq_le [OF v], blast)
qed

theorem height_for_halving_inverse_witness:
  "\<exists>r. height_for_halving 3 Mainnet = Ok r \<and>
      (\<forall>h. h \<le> MAX_HEIGHT \<longrightarrow>
         (\<exists>j. halving h Mainnet = Ok j \<and> (3 \<le> j \<longleftrightarrow> (\<exists>a. r = Some a \<and> a \<le> h))))"
  by (rule height_for_halving_inverse) (simp add: valid_network_def)



end
