(* ===== verification/Issuance.thy ===== *)
theory Issuance
  imports Subsidy
begin

text \<open>
  Cumulative issuance and reissuance, \<open>zakura-chain/src/parameters/network/subsidy.rs\<close>:
  \<open>scheduled_issuance_zatoshis\<close> sums the block subsidies of a whole chain by walking runs of
  constant subsidy, \<open>nsm_reissuance_height\<close> derives where the ZIP 234 reissuance starts, and
  \<open>block_subsidy\<close> adds the reissuance bonus. The sums stay far below \<open>u128\<close>
  (\<open>scheduled_issuance_bound\<close>), so they are written without a check. The cache around the derived
  height is left out: it stores the value of a function of immutable parameters.
\<close>

section \<open>Cumulative issuance\<close>

definition first_overflowed_halving_height :: "network \<Rightarrow> nat \<Rightarrow> ('e, nat option) res" where
  "first_overflowed_halving_height net bound =
     (case u32_checked bound of
        None \<Rightarrow> Ok None
      | Some bound' \<Rightarrow>
          bindr (halving_divisor bound' net) (\<lambda>d.
            if d \<noteq> None then Ok None
            else bindr (bisect (\<lambda>mid. bindr (halving_divisor mid net) (\<lambda>d. Ok (d = None))) 0 bound')
                   (\<lambda>low. Ok (Some low))))"

definition next_subsidy_boundary :: "height \<Rightarrow> network \<Rightarrow> ('e, height option) res" where
  "next_subsidy_boundary h net =
     bindr (halving h net) (\<lambda>current_halving.
     let next_spacing_era = find (\<lambda>s. s > h) (map fst (target_spacings net)) in
     case u32_checked (h + 1) of
       None \<Rightarrow> Ok None
     | Some low \<Rightarrow>
         bindr (halving MAX_HEIGHT net) (\<lambda>last.
         bindr
           (if last > current_halving then
              bindr (bisect (\<lambda>mid. bindr (halving mid net) (\<lambda>x. Ok (x > current_halving))) low MAX_HEIGHT)
                (\<lambda>r. Ok (Some r))
            else Ok None)
           (\<lambda>next_halving.
              Ok (case (next_spacing_era, next_halving) of
                    (Some s, Some n) \<Rightarrow> Some (min s n)
                  | (boundary, None) \<Rightarrow> boundary
                  | (None, boundary) \<Rightarrow> boundary))))"

text \<open>The slow start part of the sum; \<open>sum_from_one_through n = n * (n + 1) / 2\<close>.\<close>

definition sum_from_one_through :: "nat \<Rightarrow> nat" where
  "sum_from_one_through n = n * (n + 1) div 2"

definition slow_start_issuance :: "height \<Rightarrow> network \<Rightarrow> ('e, nat) res" where
  "slow_start_issuance h net =
     (let shift = slow_start_shift net; interval = slow_start_interval net in
      if interval > 0 \<and> shift > 0 then
        let rate = MAX_BLOCK_SUBSIDY div interval in
        bindr (first_overflowed_halving_height net (interval - 1)) (\<lambda>cutoff.
        let last_paying = (case cutoff of None \<Rightarrow> interval - 1 | Some c \<Rightarrow> c - 1);
            slow_start_end = min h last_paying;
            first_phase_end = min slow_start_end (shift - 1)
        in Ok (sum_from_one_through first_phase_end * rate +
               (if slow_start_end \<ge> shift
                then (sum_from_one_through (slow_start_end + 1) - sum_from_one_through shift) * rate
                else 0)))
      else Ok 0)"

text \<open>The \<open>while block <= height\<close> loop over runs of constant subsidy.\<close>

function issuance_loop :: "height \<Rightarrow> network \<Rightarrow> nat \<Rightarrow> nat \<Rightarrow> (subsidy_error, nat) res" where
  "issuance_loop h net acc block =
     (if block \<le> h then
        bindr (halving_divisor block net) (\<lambda>d.
        if d = None then Ok acc
        else
          bindr (halving_block_subsidy block net) (\<lambda>subsidy.
          if subsidy < 0 then Err SubsidyOverflow
          else
            bindr (next_subsidy_boundary block net) (\<lambda>boundary.
            bindr (case boundary of None \<Rightarrow> Ok h | Some b \<Rightarrow> expect_ok (height_previous b)) (\<lambda>e.
            let run_end = min e h in
            if run_end < block then Panic
            else
              let run_blocks = run_end - block + 1;
                  acc' = acc + run_blocks * nat subsidy
              in if run_end = h \<or> run_end = 2 ^ 32 - 1 then Ok acc'
                 else issuance_loop h net acc' (run_end + 1)))))
      else Ok acc)"
  by pat_completeness auto
termination
  by (relation "measure (\<lambda>(h, net, acc, block). Suc h - block)") auto

declare issuance_loop.simps [simp del]

definition scheduled_issuance_zatoshis :: "height \<Rightarrow> network \<Rightarrow> (subsidy_error, nat) res" where
  "scheduled_issuance_zatoshis h net =
     bindr (slow_start_issuance h net) (\<lambda>total.
     issuance_loop h net total (max (slow_start_interval net) 1))"

definition expected_issued_supply :: "height \<Rightarrow> network \<Rightarrow> (subsidy_error, amount) res" where
  "expected_issued_supply h net =
     bindr (scheduled_issuance_zatoshis h net) (\<lambda>total.
     map_err InvalidAmount (amount_try_from_i64 NonNegative (int (min total (nat MAX_MONEY)))))"

section \<open>Reissuance\<close>

definition BLOCK_SUBSIDY_FRACTION_NUMERATOR :: nat where
  "BLOCK_SUBSIDY_FRACTION_NUMERATOR = 1375"

definition BLOCK_SUBSIDY_FRACTION_DENOMINATOR :: nat where
  "BLOCK_SUBSIDY_FRACTION_DENOMINATOR = 10000000000"

definition NSM_REISSUANCE_START_HALVING :: nat where
  "NSM_REISSUANCE_START_HALVING = 3"

definition first_nsm_crossing_in_subsidy_run ::
  "nat \<Rightarrow> nat \<Rightarrow> nat \<Rightarrow> nat \<Rightarrow> nat \<Rightarrow> (subsidy_error, nat option) res" where
  "first_nsm_crossing_in_subsidy_run first run_end supply_before_first subsidy max_money =
     (if first > run_end \<or> subsidy = 0 then Ok None
      else
        bindr (ok_or SubsidyOverflow
                 (Option.bind (u_checked_sub subsidy 1)
                    (\<lambda>s. u128_checked (s * BLOCK_SUBSIDY_FRACTION_DENOMINATOR)))) (\<lambda>m.
        let max_reserve = m div BLOCK_SUBSIDY_FRACTION_NUMERATOR;
            reserve = max_money - supply_before_first;
            blocks_until_crossing = div_ceil (reserve - max_reserve) subsidy
        in bindr (ok_or SubsidyOverflow (u128_checked (first + blocks_until_crossing))) (\<lambda>crossing.
           if crossing > run_end then Ok None
           else bindr (ok_or SubsidyOverflow (u32_checked crossing)) (\<lambda>c. Ok (Some c)))))"

definition amount_to_u128 :: "amount \<Rightarrow> ('e, nat) res" where
  "amount_to_u128 a = (if 0 \<le> a then Ok (nat a) else Panic)"

definition nsm_reissuance_crossing_height :: "network \<Rightarrow> (subsidy_error, height option) res" where
  "nsm_reissuance_crossing_height net =
     (case activation_height Nu7 net of
        None \<Rightarrow> Ok None
      | Some nu7 \<Rightarrow>
          bindr (height_for_halving NSM_REISSUANCE_START_HALVING net) (\<lambda>third. case third of
            None \<Rightarrow> Ok None
          | Some third_halving \<Rightarrow>
              bindr (height_for_halving (NSM_REISSUANCE_START_HALVING + 1) net) (\<lambda>fourth.
              bindr (case fourth of
                       Some fourth_halving \<Rightarrow> map_err (\<lambda>_. UnsupportedHeight) (height_previous fourth_halving)
                     | None \<Rightarrow> Ok MAX_HEIGHT) (\<lambda>run_end.
              bindr (ok_or SubsidyOverflow (u32_checked (third_halving + 1))) (\<lambda>next_block.
              let first_candidate = max next_block nu7 in
              if first_candidate > run_end then Ok None
              else
                bindr (map_err (\<lambda>_. UnsupportedHeight) (height_previous first_candidate)) (\<lambda>parent.
                bindr (scheduled_issuance_zatoshis parent net) (\<lambda>supply_before_first.
                bindr (halving_block_subsidy first_candidate net) (\<lambda>s.
                bindr (amount_to_u128 s) (\<lambda>subsidy.
                first_nsm_crossing_in_subsidy_run first_candidate run_end supply_before_first subsidy
                  (nat MAX_MONEY)))))))))
     )"

definition nsm_reissuance_height :: "network \<Rightarrow> ('e, height option) res" where
  "nsm_reissuance_height net =
     (case activation_height Nu7 net of
        None \<Rightarrow> Ok None
      | Some _ \<Rightarrow> expect_ok (nsm_reissuance_crossing_height net))"

definition is_zip234_active :: "network \<Rightarrow> height \<Rightarrow> ('e, bool) res" where
  "is_zip234_active net h =
     bindr (nsm_reissuance_height net) (\<lambda>s. Ok (case s of None \<Rightarrow> False | Some start \<Rightarrow> start \<le> h))"

definition parent_nsm_value_balance :: "amount \<Rightarrow> (subsidy_error, amount) res" where
  "parent_nsm_value_balance b = map_err (\<lambda>_. NegativeNsmValueBalance) (amount_constrain NonNegative b)"

definition reissuance_amount :: "amount \<Rightarrow> (subsidy_error, amount) res" where
  "reissuance_amount a =
     bindr (amount_to_u128 a) (\<lambda>u.
     bindr (ok_or SubsidyOverflow (u128_checked (u * BLOCK_SUBSIDY_FRACTION_NUMERATOR))) (\<lambda>p.
     let subsidy = div_ceil p BLOCK_SUBSIDY_FRACTION_DENOMINATOR in
     if \<not> in_i64 (int subsidy) then Err SubsidyOverflow
     else map_err InvalidAmount (amount_try_from_i64 NonNegative (int subsidy))))"

definition reissuance_bonus :: "amount \<Rightarrow> (subsidy_error, amount) res" where
  "reissuance_bonus nsm_value_balance = reissuance_amount nsm_value_balance"

definition block_subsidy :: "height \<Rightarrow> network \<Rightarrow> amount option \<Rightarrow> (subsidy_error, amount) res" where
  "block_subsidy h net nsm_value_balance =
     bindr (is_zip234_active net h) (\<lambda>active.
     if active then
       bindr (ok_or MissingNsmValueBalance nsm_value_balance) (\<lambda>b.
       bindr (halving_block_subsidy h net) (\<lambda>halving_subsidy.
       bindr (reissuance_bonus b) (\<lambda>bonus.
       map_err InvalidAmount (amount_add NonNegative halving_subsidy bonus))))
     else halving_block_subsidy h net)"

section \<open>Runs of constant subsidy and the reference crossing\<close>

definition constant_run :: "network \<Rightarrow> height \<Rightarrow> height \<Rightarrow> bool" where
  "constant_run net block e \<longleftrightarrow>
     (\<forall>k. block \<le> k \<and> k \<le> e \<longrightarrow> scheduled_subsidy net k = scheduled_subsidy net block)"

definition subsidy_boundary :: "network \<Rightarrow> height \<Rightarrow> height option" where
  "subsidy_boundary net block =
     (let era = find (\<lambda>s. s > block) (map fst (target_spacings net));
          c = halving_index net block;
          rise = (if c < halving_index net MAX_HEIGHT
                  then Some (LEAST r. block + 1 \<le> r \<and> c < halving_index net r) else None)
      in case era of None \<Rightarrow> rise | Some s \<Rightarrow> (case rise of None \<Rightarrow> era | Some n \<Rightarrow> Some (min s n)))"

text \<open>The reference condition: after the blocks from \<open>first\<close> up to the parent of \<open>c\<close>, the
  reissuance from the remaining reserve is less than the scheduled subsidy.\<close>

definition nsm_crossed :: "nat \<Rightarrow> nat \<Rightarrow> nat \<Rightarrow> nat \<Rightarrow> nat \<Rightarrow> bool" where
  "nsm_crossed first supply subsidy max_money c \<longleftrightarrow>
     div_ceil ((max_money - (supply + (c - first) * subsidy)) * BLOCK_SUBSIDY_FRACTION_NUMERATOR)
       BLOCK_SUBSIDY_FRACTION_DENOMINATOR < subsidy"

text \<open>The first height of the third halving era after \<open>h\<close>, and the era's last supported height.\<close>

definition third_halving_height :: "network \<Rightarrow> height" where
  "third_halving_height net = (LEAST h. 3 \<le> halving_index net h)"

definition third_era_end :: "network \<Rightarrow> height" where
  "third_era_end net =
     (if 4 \<le> halving_index net MAX_HEIGHT then (LEAST h. 4 \<le> halving_index net h) - 1 else MAX_HEIGHT)"

definition reissuance_start :: "network \<Rightarrow> height option" where
  "reissuance_start net = unwrap (nsm_reissuance_height net)"

definition reissuance_ceil :: "nat \<Rightarrow> nat" where
  "reissuance_ceil b = div_ceil (b * BLOCK_SUBSIDY_FRACTION_NUMERATOR) BLOCK_SUBSIDY_FRACTION_DENOMINATOR"

section \<open>Lemmas\<close>

context valid_net
begin

sublocale rise_search: monotone_test
  "\<lambda>mid. bindr (halving mid net) (\<lambda>x. Ok (c < x))" "\<lambda>m. c < halving_index net m" MAX_HEIGHT
  for c
proof unfold_locales
  fix m assume "m \<le> MAX_HEIGHT"
  then show "bindr (halving m net) (\<lambda>x. Ok (c < x)) = Ok (c < halving_index net m)"
    by (simp add: halving_eq_le)
next
  fix m n assume "c < halving_index net m" "m \<le> n"
  then show "c < halving_index net n" using halving_index_mono [of m n] by simp
qed

sublocale overflow_search: monotone_test
  "\<lambda>mid. bindr (halving_divisor mid net) (\<lambda>d. Ok (d = None))" "\<lambda>m. 64 \<le> halving_index net m" "2 ^ 32 - 1"
proof unfold_locales
  fix m :: nat assume "m \<le> 2 ^ 32 - 1"
  then show "bindr (halving_divisor m net) (\<lambda>d. Ok (d = None)) = Ok (64 \<le> halving_index net m)"
    by (simp add: halving_divisor_eq)
next
  fix m n assume "64 \<le> halving_index net m" "m \<le> n"
  then show "64 \<le> halving_index net n" using halving_index_mono [of m n] by simp
qed

lemma spacing_starts: "set (map fst (target_spacings net)) =
    {0} \<union> {b. activation_height Blossom net = Some b} \<union> {a. activation_height Nu7 net = Some a}"
  using blossom_le_nu7 by (fastforce simp: target_spacings_eq split: option.splits)

lemma spacing_constant:
  assumes "block \<le> k" "\<And>s. s \<in> set (map fst (target_spacings net)) \<Longrightarrow> s \<le> block \<or> k < s"
  shows "target_spacing (upgrade_at net k) = target_spacing (upgrade_at net block)"
proof -
  have "nu \<le> upgrade_at net k \<longleftrightarrow> nu \<le> upgrade_at net block" if "nu = Blossom \<or> nu = Nu7" for nu
    using that assms unfolding upgrade_at_ge_iff spacing_starts by fastforce
  then have "Blossom \<le> upgrade_at net k \<longleftrightarrow> Blossom \<le> upgrade_at net block"
    "Nu7 \<le> upgrade_at net k \<longleftrightarrow> Nu7 \<le> upgrade_at net block" by auto
  then show ?thesis by (simp only: target_spacing_eq not_le [symmetric])
qed

lemma sorted_spacing_starts: "sorted (map fst (target_spacings net))"
  using blossom_le_nu7 by (fastforce simp: target_spacings_eq split: option.splits)

lemma next_era_gap:
  assumes "find (\<lambda>s. s > block) (map fst (target_spacings net)) = e"
    and "\<forall>b. e = Some b \<longrightarrow> k < b" and "s \<in> set (map fst (target_spacings net))"
  shows "s \<le> block \<or> k < s"
proof (cases e)
  case None
  then have "find (\<lambda>s. s > block) (map fst (target_spacings net)) = None" using assms(1) by simp
  then have "\<not> block < s" using assms(3) unfolding find_None_iff by blast
  then show ?thesis by simp
next
  case (Some b)
  then obtain i where i: "i < length (target_spacings net)" "map fst (target_spacings net) ! i = b"
      "\<forall>j < i. \<not> block < map fst (target_spacings net) ! j"
    using assms(1) by (auto simp: find_Some_iff)
  obtain j where j: "j < length (target_spacings net)" "map fst (target_spacings net) ! j = s"
    using assms(3) by (metis in_set_conv_nth length_map)
  show ?thesis
  proof (cases "j < i")
    case False
    then have "b \<le> s" using sorted_nth_mono [OF sorted_spacing_starts, of i j] i j by simp
    then show ?thesis using assms(2) Some by simp
  qed (use i(3) j(2) in auto)
qed

lemma constant_runI:
  assumes "slow_start_interval net \<le> block"
    and "\<forall>b. find (\<lambda>s. s > block) (map fst (target_spacings net)) = Some b \<longrightarrow> e < b"
    and "halving_index net e = halving_index net block"
  shows "constant_run net block e"
  unfolding constant_run_def
proof (intro allI impI)
  fix k assume k: "block \<le> k \<and> k \<le> e"
  then have "halving_index net k = halving_index net block"
    using halving_index_mono [of block k] halving_index_mono [of k e] assms(3) by simp
  moreover have "target_spacing (upgrade_at net k) = target_spacing (upgrade_at net block)"
    using k assms(2) by (intro spacing_constant next_era_gap [OF refl]) auto
  ultimately show "scheduled_subsidy net k = scheduled_subsidy net block"
    using assms(1) k by (simp add: scheduled_subsidy_def)
qed

lemma next_subsidy_boundary_eq:
  assumes b: "block \<le> MAX_HEIGHT"
  shows "next_subsidy_boundary block net = Ok (subsidy_boundary net block)"
proof (cases "halving_index net block < halving_index net MAX_HEIGHT")
  case True
  then have le: "block + 1 \<le> MAX_HEIGHT" using b by (cases "block = MAX_HEIGHT") auto
  show ?thesis
    using True b
    by (simp add: next_subsidy_boundary_def halving_eq_le subsidy_boundary_def Let_def u32_checked_def
        in_u32_def rise_search.bisect_eq(1) [OF le order_refl True, simplified] split: option.splits)
      (simp add: MAX_HEIGHT_def)
next
  case False
  then show ?thesis
    using b
    by (simp add: next_subsidy_boundary_def halving_eq_le subsidy_boundary_def Let_def u32_checked_def
        in_u32_def split: option.splits)
      (simp add: MAX_HEIGHT_def)
qed

lemma next_era_bounds:
  assumes "find (\<lambda>s. s > block) (map fst (target_spacings net)) = Some n"
  shows "block < n" "n \<le> MAX_HEIGHT"
proof -
  have n: "block < n" "n \<in> set (map fst (target_spacings net))"
    using assms nth_mem [of _ "map fst (target_spacings net)"]
    by (auto simp: find_Some_iff simp del: nth_map)
  then show "block < n" "n \<le> MAX_HEIGHT"
    using activation_height_le_MAX unfolding spacing_starts by auto
qed

lemma subsidy_boundary_run:
  assumes slow: "slow_start_interval net \<le> block" and b: "block \<le> MAX_HEIGHT"
  shows "case subsidy_boundary net block of None \<Rightarrow> constant_run net block MAX_HEIGHT
      | Some n \<Rightarrow> block < n \<and> n \<le> MAX_HEIGHT \<and> constant_run net block (n - 1)"
proof -
  define era where "era = find (\<lambda>s. s > block) (map fst (target_spacings net))"
  define c where "c = halving_index net block"
  note era = next_era_bounds [of block, folded era_def]
  note bd = subsidy_boundary_def [of net block, unfolded Let_def, folded era_def c_def]
  show ?thesis
  proof (cases "c < halving_index net MAX_HEIGHT")
    case True
    define r where "r = (LEAST r. block + 1 \<le> r \<and> c < halving_index net r)"
    have le: "block + 1 \<le> MAX_HEIGHT" using True b c_def by (cases "block = MAX_HEIGHT") auto
    note bis = rise_search.bisect_eq(2-5) [OF le order_refl True, folded r_def]
    have same: "halving_index net m = c" if "block \<le> m" "m < r" for m
      using bis(4) [of m] halving_index_mono [OF that(1)] that by (cases "m = block") (auto simp: c_def)
    define n where "n = (case era of None \<Rightarrow> r | Some s \<Rightarrow> min s r)"
    have eq: "subsidy_boundary net block = Some n"
      using True by (simp add: bd n_def r_def split: option.splits)
    have n: "block < n" "n \<le> MAX_HEIGHT" "n \<le> r"
      using era bis(1,2) by (auto simp: n_def split: option.splits)
    have "constant_run net block (n - 1)"
    proof (rule constant_runI [OF slow])
      show "\<forall>s. find (\<lambda>s. s > block) (map fst (target_spacings net)) = Some s \<longrightarrow> n - 1 < s"
        using n by (auto simp: n_def era_def [symmetric])
      show "halving_index net (n - 1) = halving_index net block"
        using same [of "n - 1"] n by (simp add: c_def)
    qed
    then show ?thesis using eq n by simp
  next
    case False
    then have top: "halving_index net MAX_HEIGHT = c" using halving_index_mono [OF b] by (simp add: c_def)
    have eq: "subsidy_boundary net block = era" using False by (simp add: bd split: option.splits)
    have run: "constant_run net block e" if "e \<le> MAX_HEIGHT" "\<forall>s. era = Some s \<longrightarrow> e < s" "block \<le> e" for e
      using that top halving_index_mono [of e MAX_HEIGHT] halving_index_mono [of block e]
      by (intro constant_runI [OF slow]) (auto simp: era_def c_def)
    show ?thesis
    proof (cases era)
      case None
      then show ?thesis using eq run [OF order_refl] b by simp
    next
      case (Some s)
      then show ?thesis using eq era [OF Some] run [of "s - 1"] by simp
    qed
  qed
qed
end

lemma sum_from_one_through_eq: "sum_from_one_through n = \<Sum>{1..n}"
proof -
  have "\<Sum>{1..n} = \<Sum>{0..n}" by (intro sum.mono_neutral_left) auto
  then show ?thesis by (simp add: sum_from_one_through_def gauss_sum_nat)
qed

lemma sum_constant_run:
  "constant_run net block e \<Longrightarrow> block \<le> e \<Longrightarrow>
    (\<Sum>k \<in> {block..e}. scheduled_subsidy net k) = (e - block + 1) * scheduled_subsidy net block"
proof -
  assume run: "constant_run net block e" and le: "block \<le> e"
  have "(\<Sum>k \<in> {block..e}. scheduled_subsidy net k) = (\<Sum>k \<in> {block..e}. scheduled_subsidy net block)"
  proof (intro sum.cong refl)
    fix k assume "k \<in> {block..e}"
    then have "block \<le> k \<and> k \<le> e" by simp
    then show "scheduled_subsidy net k = scheduled_subsidy net block"
      using run unfolding constant_run_def by blast
  qed
  then show ?thesis using le by (simp add: Suc_diff_le)
qed

lemma constant_run_mono: "constant_run net block e \<Longrightarrow> e' \<le> e \<Longrightarrow> constant_run net block e'"
  unfolding constant_run_def by (meson le_trans)

context valid_net
begin

lemma subsidy_zero_after_overflow:
  "64 \<le> halving_index net block \<Longrightarrow> (\<Sum>k \<in> {block..h}. scheduled_subsidy net k) = 0"
proof (intro sum.neutral ballI)
  fix k assume "64 \<le> halving_index net block" "k \<in> {block..h}"
  then have "64 \<le> halving_index net k" using halving_index_mono [of block k] by simp
  then show "scheduled_subsidy net k = 0" by (simp add: scheduled_subsidy_def)
qed

lemma issuance_loop_eq:
  assumes "h \<le> MAX_HEIGHT" "slow_start_interval net \<le> block"
  shows "issuance_loop h net acc block = Ok (acc + (\<Sum>k \<in> {block..h}. scheduled_subsidy net k))"
  using assms(2)
proof (induction "Suc h - block" arbitrary: acc block rule: less_induct)
  case less
  show ?case
  proof (cases "block \<le> h")
    case False
    then show ?thesis by (simp add: issuance_loop.simps [of h net acc block])
  next
    case True
    then have b: "block \<le> MAX_HEIGHT" using assms(1) by simp
    show ?thesis
    proof (cases "halving_index net block < 64")
      case False
      then show ?thesis
        using True b subsidy_zero_after_overflow [of block h]
        by (simp add: issuance_loop.simps [of h net acc block] halving_divisor_eq_le)
    next
      case pays: True
      define bd where "bd = subsidy_boundary net block"
      define e where "e = (case bd of None \<Rightarrow> h | Some n \<Rightarrow> min (n - 1) h)"
      have run: "constant_run net block e" and e: "block \<le> e" "e \<le> h"
        using subsidy_boundary_run [OF less.prems b] True assms(1)
        by (auto simp: e_def bd_def intro: constant_run_mono split: option.splits)
      have prev: "(case bd of None \<Rightarrow> Ok h | Some n \<Rightarrow> expect_ok (height_previous n)) =
          (Ok (case bd of None \<Rightarrow> h | Some n \<Rightarrow> n - 1) :: (subsidy_error, nat) res)"
        using subsidy_boundary_run [OF less.prems b]
        by (auto simp: bd_def height_previous_eq split: option.splits)
      have me: "min (case bd of None \<Rightarrow> h | Some n \<Rightarrow> n - 1) h = e"
        by (auto simp: e_def split: option.splits)
      have "e \<noteq> 2 ^ 32 - 1" using e assms(1) by (simp add: MAX_HEIGHT_def)
      then have step: "issuance_loop h net acc block =
          (let acc' = acc + (e - block + 1) * scheduled_subsidy net block in
           if e = h then Ok acc' else issuance_loop h net acc' (e + 1))"
        using True pays b e
        by (simp add: issuance_loop.simps [of h net acc block] halving_divisor_eq_le
            halving_block_subsidy_eq_le next_subsidy_boundary_eq bd_def [symmetric] prev me Let_def)
      show ?thesis
      proof (cases "e = h")
        case True
        then show ?thesis using step sum_constant_run [OF run e(1)] by simp
      next
        case False
        have "Suc h - (e + 1) < Suc h - block" "slow_start_interval net \<le> e + 1"
          using e True less.prems by auto
        note IH = less.hyps [OF this]
        have "{block..h} = {block..e} \<union> {e + 1..h}" using e by auto
        then have "(\<Sum>k \<in> {block..h}. scheduled_subsidy net k) =
            (\<Sum>k \<in> {block..e}. scheduled_subsidy net k) + (\<Sum>k \<in> {e + 1..h}. scheduled_subsidy net k)"
          by (simp add: sum.union_disjoint)
        then show ?thesis using False IH step sum_constant_run [OF run e(1)] by (simp add: Let_def)
      qed
    qed
  qed
qed
end

text \<open>The two phases of the slow start, summed.\<close>

lemma slow_start_sum:
  fixes shift rate e :: nat
  assumes "0 < shift"
  shows "(\<Sum>k \<in> {1..e}. if k < shift then rate * k else rate * (k + 1)) =
    sum_from_one_through (min e (shift - 1)) * rate +
    (if e \<ge> shift then (sum_from_one_through (e + 1) - sum_from_one_through shift) * rate else 0)"
proof (induction e)
  case 0
  then show ?case using assms by (simp add: sum_from_one_through_def)
next
  case (Suc e)
  define f where "f k = (if k < shift then rate * k else rate * (k + 1))" for k
  have split: "(\<Sum>k \<in> {1..Suc e}. f k) = (\<Sum>k \<in> {1..e}. f k) + f (Suc e)" by simp
  note IH = Suc [folded f_def]
  have sf: "sum_from_one_through (Suc n) = sum_from_one_through n + Suc n" for n
    by (simp add: sum_from_one_through_eq)
  have mono: "sum_from_one_through m \<le> sum_from_one_through n" if "m \<le> n" for m n
    using that by (simp add: sum_from_one_through_eq sum_mono2)
  consider "Suc e < shift" | "Suc e = shift" | "shift \<le> e" by linarith
  then show ?case unfolding f_def [symmetric] split
  proof cases
    case 1
    then have "min (Suc e) (shift - 1) = Suc e" "min e (shift - 1) = e" by auto
    with 1 IH show "(\<Sum>k \<in> {1..e}. f k) + f (Suc e) =
        sum_from_one_through (min (Suc e) (shift - 1)) * rate +
        (if Suc e \<ge> shift then (sum_from_one_through (Suc e + 1) - sum_from_one_through shift) * rate else 0)"
      by (simp add: sf f_def algebra_simps)
  next
    case 2
    then have m: "min (Suc e) (shift - 1) = e" "min e (shift - 1) = e" by auto
    have "sum_from_one_through (Suc e + 1) - sum_from_one_through shift = Suc e + 1"
      using 2 sf [of "Suc e"] by simp
    moreover have "f (Suc e) = rate * (Suc e + 1)" using 2 by (simp add: f_def)
    ultimately show "(\<Sum>k \<in> {1..e}. f k) + f (Suc e) =
        sum_from_one_through (min (Suc e) (shift - 1)) * rate +
        (if Suc e \<ge> shift then (sum_from_one_through (Suc e + 1) - sum_from_one_through shift) * rate else 0)"
      using 2 IH m by simp
  next
    case 3
    then have m: "min (Suc e) (shift - 1) = shift - 1" "min e (shift - 1) = shift - 1" by auto
    have d: "sum_from_one_through (Suc e + 1) - sum_from_one_through shift =
        (sum_from_one_through (e + 1) - sum_from_one_through shift) + (Suc e + 1)"
      using 3 sf [of "Suc e"] mono [of shift "e + 1"] by simp
    have "f (Suc e) = rate * (Suc e + 1)" using 3 by (simp add: f_def)
    then show "(\<Sum>k \<in> {1..e}. f k) + f (Suc e) =
        sum_from_one_through (min (Suc e) (shift - 1)) * rate +
        (if Suc e \<ge> shift then (sum_from_one_through (Suc e + 1) - sum_from_one_through shift) * rate else 0)"
      using 3 IH m by (simp only: d) (simp add: algebra_simps)
  qed
qed

context valid_net
begin

lemma first_overflowed_eq:
  assumes "bound < 2 ^ 32"
  shows "first_overflowed_halving_height net bound =
    Ok (if 64 \<le> halving_index net bound then Some (LEAST c. 64 \<le> halving_index net c) else None)"
proof (cases "64 \<le> halving_index net bound")
  case True
  have le: "0 \<le> bound" "bound \<le> 2 ^ 32 - 1" using assms by auto
  show ?thesis
    using assms True
    by (simp add: first_overflowed_halving_height_def u32_checked_def in_u32_def halving_divisor_eq
        overflow_search.bisect_eq(1) [OF le True, simplified])
next
  case False
  then show ?thesis
    using assms
    by (simp add: first_overflowed_halving_height_def u32_checked_def in_u32_def halving_divisor_eq)
qed

lemma slow_start_issuance_eq:
  "slow_start_issuance h net = Ok (\<Sum>k \<in> {1..min h (slow_start_interval net - 1)}. scheduled_subsidy net k)"
proof (cases "0 < slow_start_shift net")
  case False
  then have "slow_start_interval net \<le> 1" by (simp add: slow_start_shift_eq)
  then show ?thesis using False by (simp add: slow_start_issuance_def)
next
  case True
  let ?i = "slow_start_interval net" and ?s = "slow_start_shift net"
  define rate where "rate = MAX_BLOCK_SUBSIDY div ?i"
  define c where "c = (LEAST c. 64 \<le> halving_index net c)"
  define lp where "lp = (if 64 \<le> halving_index net (?i - 1) then c - 1 else ?i - 1)"
  have i: "0 < ?i" "?s < ?i" using True by (auto simp: slow_start_shift_eq)
  have top: "?i - 1 \<le> 2 ^ 32 - 1" using slow_start_interval_u32 by simp
  have pay: "halving_index net k < 64 \<longleftrightarrow> k \<le> lp" if "k < ?i" for k
  proof (cases "64 \<le> halving_index net (?i - 1)")
    case ov: True
    note b = overflow_search.bisect_eq(2-5) [of 0 "?i - 1", OF _ top ov, simplified, folded c_def]
    have "halving_index net c \<noteq> halving_index net 0"
      using b(3) True by (simp add: halving_index_def [of net 0])
    then have "0 < c" by (cases "c = 0") auto
    then have "k \<le> lp \<longleftrightarrow> k < c" using ov by (auto simp: lp_def)
    moreover have "64 \<le> halving_index net k \<longleftrightarrow> c \<le> k"
      using b(3) b(4) [of k] halving_index_mono [of c k] by (cases "k < c") auto
    ultimately show ?thesis by (metis not_less)
  next
    case False
    moreover have "k \<le> ?i - 1" using that by simp
    ultimately show ?thesis using halving_index_mono [of k "?i - 1"] by (auto simp: lp_def)
  qed
  have lp: "lp < ?i"
    using i overflow_search.bisect_eq(3) [of 0 "?i - 1", OF _ top, simplified, folded c_def]
    by (auto simp: lp_def)
  have first: "?i - 1 < 2 ^ 32" using slow_start_interval_u32 by simp
  have "(\<Sum>k \<in> {1..min h (?i - 1)}. scheduled_subsidy net k) = (\<Sum>k \<in> {1..min h lp}. scheduled_subsidy net k)"
    using lp pay by (intro sum.mono_neutral_right) (auto simp: scheduled_subsidy_def not_le)
  also have "\<dots> = (\<Sum>k \<in> {1..min h lp}. if k < ?s then rate * k else rate * (k + 1))"
  proof (intro sum.cong refl)
    fix k assume "k \<in> {1..min h lp}"
    then have "k < ?i" "\<not> 64 \<le> halving_index net k" using lp pay [of k] by auto
    then show "scheduled_subsidy net k = (if k < ?s then rate * k else rate * (k + 1))"
      by (simp add: scheduled_subsidy_def rate_def Let_def)
  qed
  also note slow_start_sum [OF True]
  finally have sum: "(\<Sum>k \<in> {1..min h (?i - 1)}. scheduled_subsidy net k) =
      sum_from_one_through (min (min h lp) (?s - 1)) * rate +
      (if min h lp \<ge> ?s then (sum_from_one_through (min h lp + 1) - sum_from_one_through ?s) * rate else 0)" .
  show ?thesis
    unfolding sum slow_start_issuance_def Let_def first_overflowed_eq [OF first, folded c_def]
      lp_def rate_def
    using True i by auto
qed

lemma scheduled_issuance_eq:
  assumes "h \<le> MAX_HEIGHT"
  shows "scheduled_issuance_zatoshis h net = Ok (\<Sum>k \<in> {1..h}. scheduled_subsidy net k)"
proof -
  let ?i = "slow_start_interval net"
  have "{1..h} = {1..min h (?i - 1)} \<union> {max ?i 1..h}" by auto
  moreover have "{1..min h (?i - 1)} \<inter> {max ?i 1..h} = {}" by auto
  ultimately have "(\<Sum>k \<in> {1..h}. scheduled_subsidy net k) =
      (\<Sum>k \<in> {1..min h (?i - 1)}. scheduled_subsidy net k) + (\<Sum>k \<in> {max ?i 1..h}. scheduled_subsidy net k)"
    by (metis finite_atLeastAtMost sum.union_disjoint)
  then show ?thesis
    by (simp add: scheduled_issuance_zatoshis_def slow_start_issuance_eq issuance_loop_eq [OF assms])
qed

lemma scheduled_issuance_bound:
  assumes "h \<le> MAX_HEIGHT"
  shows "(\<Sum>k \<in> {1..h}. scheduled_subsidy net k) < 2 ^ 62"
proof -
  have "(\<Sum>k \<in> {1..h}. scheduled_subsidy net k) \<le> (\<Sum>k \<in> {1..h}. MAX_BLOCK_SUBSIDY)"
    by (intro sum_mono scheduled_subsidy_le)
  also have "\<dots> < 2 ^ 62" using assms by (simp add: MAX_HEIGHT_def)
  finally show ?thesis .
qed
end

lemma u128_checked_Some: "n < 2 ^ 128 \<Longrightarrow> u128_checked n = Some n"
  by (simp add: u128_checked_def in_u128_def)

lemma div_ceil_mult_le: "0 < b \<Longrightarrow> div_ceil a b \<le> c \<longleftrightarrow> a \<le> c * b"
  by (simp add: div_ceil_le_iff mult.commute)

lemma nsm_crossed_iff:
  assumes "0 < subsidy"
  shows "nsm_crossed first supply subsidy max_money c \<longleftrightarrow>
    div_ceil (max_money - supply -
        (subsidy - 1) * BLOCK_SUBSIDY_FRACTION_DENOMINATOR div BLOCK_SUBSIDY_FRACTION_NUMERATOR) subsidy \<le> c - first"
proof -
  define R where "R = max_money - supply"
  define M where "M = (subsidy - 1) * BLOCK_SUBSIDY_FRACTION_DENOMINATOR div BLOCK_SUBSIDY_FRACTION_NUMERATOR"
  have N: "0 < BLOCK_SUBSIDY_FRACTION_NUMERATOR" "0 < BLOCK_SUBSIDY_FRACTION_DENOMINATOR"
    by (simp_all add: BLOCK_SUBSIDY_FRACTION_NUMERATOR_def BLOCK_SUBSIDY_FRACTION_DENOMINATOR_def)
  have "nsm_crossed first supply subsidy max_money c \<longleftrightarrow>
      div_ceil ((R - (c - first) * subsidy) * BLOCK_SUBSIDY_FRACTION_NUMERATOR)
        BLOCK_SUBSIDY_FRACTION_DENOMINATOR \<le> subsidy - 1"
    using assms by (auto simp: nsm_crossed_def R_def diff_diff_left)
  also have "\<dots> \<longleftrightarrow> (R - (c - first) * subsidy) * BLOCK_SUBSIDY_FRACTION_NUMERATOR \<le>
      (subsidy - 1) * BLOCK_SUBSIDY_FRACTION_DENOMINATOR"
    using N by (simp add: div_ceil_mult_le)
  also have "\<dots> \<longleftrightarrow> R - (c - first) * subsidy \<le> M"
    unfolding M_def using N(1) by (simp add: less_eq_div_iff_mult_less_eq)
  also have "\<dots> \<longleftrightarrow> R - M \<le> (c - first) * subsidy" by auto
  also have "\<dots> \<longleftrightarrow> div_ceil (R - M) subsidy \<le> c - first"
    using assms by (simp add: div_ceil_mult_le)
  finally show ?thesis by (simp only: R_def M_def)
qed

lemma div_ceil_le: "0 < b \<Longrightarrow> div_ceil a b \<le> a"
  by (subst div_ceil_mult_le) auto

lemma first_nsm_crossing_eq:
  assumes "first < 2 ^ 32" "run_end < 2 ^ 32" "subsidy < 2 ^ 64" "max_money < 2 ^ 64"
  shows "first_nsm_crossing_in_subsidy_run first run_end supply subsidy max_money =
    Ok (if \<exists>c. first \<le> c \<and> c \<le> run_end \<and> nsm_crossed first supply subsidy max_money c
        then Some (LEAST c. first \<le> c \<and> nsm_crossed first supply subsidy max_money c) else None)"
proof (cases "first > run_end \<or> subsidy = 0")
  case True
  then have "\<not> (first \<le> c \<and> c \<le> run_end \<and> nsm_crossed first supply subsidy max_money c)" for c
    by (auto simp: nsm_crossed_def)
  then show ?thesis using True by (auto simp: first_nsm_crossing_in_subsidy_run_def)
next
  case False
  then have pos: "0 < subsidy" by simp
  define b where "b = div_ceil (max_money - supply -
      (subsidy - 1) * BLOCK_SUBSIDY_FRACTION_DENOMINATOR div BLOCK_SUBSIDY_FRACTION_NUMERATOR) subsidy"
  have iff: "nsm_crossed first supply subsidy max_money c \<longleftrightarrow> b \<le> c - first" for c
    unfolding b_def by (rule nsm_crossed_iff [OF pos])
  have "b \<le> max_money"
    unfolding b_def by (rule le_trans [OF div_ceil_le [OF pos]]) simp
  then have c1: "u128_checked (first + b) = Some (first + b)"
    using assms by (intro u128_checked_Some) simp
  have "(subsidy - 1) * BLOCK_SUBSIDY_FRACTION_DENOMINATOR \<le> 2 ^ 64 * BLOCK_SUBSIDY_FRACTION_DENOMINATOR"
    using assms by (intro mult_le_mono1) simp
  then have c2: "u128_checked ((subsidy - 1) * BLOCK_SUBSIDY_FRACTION_DENOMINATOR) =
      Some ((subsidy - 1) * BLOCK_SUBSIDY_FRACTION_DENOMINATOR)"
    by (intro u128_checked_Some) (simp add: BLOCK_SUBSIDY_FRACTION_DENOMINATOR_def)
  have least: "(LEAST c. first \<le> c \<and> nsm_crossed first supply subsidy max_money c) = first + b"
    unfolding iff by (intro Least_equality) auto
  have ex: "(\<exists>c. first \<le> c \<and> c \<le> run_end \<and> nsm_crossed first supply subsidy max_money c) \<longleftrightarrow>
      first + b \<le> run_end"
    unfolding iff by (auto intro: exI [of _ "first + b"])
  have sub: "u_checked_sub subsidy 1 = Some (subsidy - 1)" using pos by (simp add: u_checked_sub_def)
  show ?thesis
    using False assms(2)
    unfolding first_nsm_crossing_in_subsidy_run_def sub least ex Let_def
    by (simp add: c2 [simplified] b_def [symmetric, simplified] c1 u32_checked_def in_u32_def)
qed

lemma reissuance_bonus_eq:
  assumes "valid_amount NonNegative b"
  shows "reissuance_bonus b =
    Ok (int (div_ceil (nat b * BLOCK_SUBSIDY_FRACTION_NUMERATOR) BLOCK_SUBSIDY_FRACTION_DENOMINATOR))"
proof -
  have b: "0 \<le> b" "b \<le> MAX_MONEY" using assms by (auto simp: valid_NonNegative)
  have "nat b * BLOCK_SUBSIDY_FRACTION_NUMERATOR < 2 ^ 128"
    using b by (simp add: BLOCK_SUBSIDY_FRACTION_NUMERATOR_def MAX_MONEY_def COIN_def nat_less_iff)
  note u = u128_checked_Some [OF this]
  define r where "r = div_ceil (nat b * BLOCK_SUBSIDY_FRACTION_NUMERATOR) BLOCK_SUBSIDY_FRACTION_DENOMINATOR"
  have "r \<le> nat b"
    unfolding r_def by (subst div_ceil_mult_le)
      (simp_all add: BLOCK_SUBSIDY_FRACTION_NUMERATOR_def BLOCK_SUBSIDY_FRACTION_DENOMINATOR_def)
  then have "valid_amount NonNegative (int r)" "in_i64 (int r)"
    using b by (auto simp: valid_NonNegative in_i64_def MAX_MONEY_def COIN_def)
  then show ?thesis
    using b u
    by (simp add: reissuance_bonus_def reissuance_amount_def amount_to_u128_def r_def [symmetric] Let_def
        amount_try_from_i64_def amt.validate_valid)
qed

lemma reissuance_bonus_bounds:
  "r = div_ceil (b * BLOCK_SUBSIDY_FRACTION_NUMERATOR) BLOCK_SUBSIDY_FRACTION_DENOMINATOR \<Longrightarrow>
    r \<le> b \<and> (r = 0 \<longleftrightarrow> b = 0)"
proof -
  assume r: "r = div_ceil (b * BLOCK_SUBSIDY_FRACTION_NUMERATOR) BLOCK_SUBSIDY_FRACTION_DENOMINATOR"
  have "r \<le> b"
    unfolding r by (subst div_ceil_mult_le)
      (simp_all add: BLOCK_SUBSIDY_FRACTION_NUMERATOR_def BLOCK_SUBSIDY_FRACTION_DENOMINATOR_def)
  moreover have "r \<le> 0 \<longleftrightarrow> b = 0"
    unfolding r by (subst div_ceil_mult_le)
      (simp_all add: BLOCK_SUBSIDY_FRACTION_NUMERATOR_def BLOCK_SUBSIDY_FRACTION_DENOMINATOR_def)
  ultimately show ?thesis by simp
qed

lemma reissuance_ceil_le:
  assumes "x \<le> nat MAX_MONEY" shows "reissuance_ceil x \<le> 288750000"
proof -
  have "x * BLOCK_SUBSIDY_FRACTION_NUMERATOR \<le> nat MAX_MONEY * BLOCK_SUBSIDY_FRACTION_NUMERATOR"
    using assms by (rule mult_le_mono1)
  also have "\<dots> \<le> 288750000 * BLOCK_SUBSIDY_FRACTION_DENOMINATOR"
    by (simp add: MAX_MONEY_def COIN_def BLOCK_SUBSIDY_FRACTION_NUMERATOR_def
        BLOCK_SUBSIDY_FRACTION_DENOMINATOR_def)
  finally show ?thesis
    by (simp only: reissuance_ceil_def div_ceil_mult_le BLOCK_SUBSIDY_FRACTION_DENOMINATOR_def zero_less_numeral)
qed

context valid_net
begin

lemma third_halving_height:
  assumes "3 \<le> halving_index net MAX_HEIGHT"
  shows "third_halving_height net \<le> MAX_HEIGHT"
    and "3 \<le> halving_index net h \<longleftrightarrow> third_halving_height net \<le> h"
proof -
  have pos: "0 < (3 :: nat)" by simp
  show "third_halving_height net \<le> MAX_HEIGHT"
    "3 \<le> halving_index net h \<longleftrightarrow> third_halving_height net \<le> h"
    using halving_height(2,3) [OF pos assms, folded third_halving_height_def] by blast+
qed

lemma third_era_end:
  "third_era_end net \<le> MAX_HEIGHT" "h \<le> third_era_end net \<Longrightarrow> halving_index net h < 4"
  "4 \<le> halving_index net MAX_HEIGHT \<Longrightarrow>
    height_previous (LEAST h. 4 \<le> halving_index net h) = Ok (third_era_end net)"
proof -
  have "third_era_end net \<le> MAX_HEIGHT \<and> (h \<le> third_era_end net \<longrightarrow> halving_index net h < 4) \<and>
      (4 \<le> halving_index net MAX_HEIGHT \<longrightarrow>
        height_previous (LEAST h. 4 \<le> halving_index net h) = Ok (third_era_end net))"
  proof (cases "4 \<le> halving_index net MAX_HEIGHT")
    case True
    have pos: "0 < (4 :: nat)" by simp
    define a where "a = (LEAST h. 4 \<le> halving_index net h)"
    note f = halving_height [OF pos True, folded a_def]
    have e: "third_era_end net = a - 1" using True by (simp add: third_era_end_def a_def)
    have "halving_index net h < 4" if "h \<le> third_era_end net"
      using that f(1) f(3) [of h] e by (cases "a \<le> h") auto
    then show ?thesis
      unfolding a_def [symmetric] using f(1,2) e by (simp add: height_previous_eq)
  next
    case False
    then have "third_era_end net = MAX_HEIGHT" by (simp add: third_era_end_def)
    then show ?thesis using halving_index_mono [of h MAX_HEIGHT] False by auto
  qed
  then show "third_era_end net \<le> MAX_HEIGHT" "h \<le> third_era_end net \<Longrightarrow> halving_index net h < 4"
    "4 \<le> halving_index net MAX_HEIGHT \<Longrightarrow>
      height_previous (LEAST h. 4 \<le> halving_index net h) = Ok (third_era_end net)"
    by blast+
qed

lemma crossing_height_eq:
  assumes "activation_height Nu7 net = Some nu7" "3 \<le> halving_index net MAX_HEIGHT"
  defines "fc \<equiv> max (third_halving_height net + 1) nu7"
  shows "nsm_reissuance_crossing_height net =
    (if fc > third_era_end net then Ok None
     else first_nsm_crossing_in_subsidy_run fc (third_era_end net)
            (\<Sum>k \<in> {1..fc - 1}. scheduled_subsidy net k) (scheduled_subsidy net fc) (nat MAX_MONEY))"
proof -
  have u32: "u32_checked (Suc (third_halving_height net)) = Some (Suc (third_halving_height net))"
    using third_halving_height(1) [OF assms(2)] by (simp add: u32_checked_def in_u32_def MAX_HEIGHT_def)
  have "third_era_end net = MAX_HEIGHT" if "\<not> 4 \<le> halving_index net MAX_HEIGHT"
    using that by (simp add: third_era_end_def)
  then have "nsm_reissuance_crossing_height net =
      (if fc > third_era_end net then Ok None
       else bindr (map_err (\<lambda>_. UnsupportedHeight) (height_previous fc)) (\<lambda>parent.
            bindr (scheduled_issuance_zatoshis parent net) (\<lambda>issued.
            bindr (halving_block_subsidy fc net) (\<lambda>s.
            bindr (amount_to_u128 s) (\<lambda>subsidy.
            first_nsm_crossing_in_subsidy_run fc (third_era_end net) issued subsidy (nat MAX_MONEY))))))"
    using assms(1,2)
    by (simp add: nsm_reissuance_crossing_height_def height_for_halving_eq u32 third_era_end(3)
        NSM_REISSUANCE_START_HALVING_def third_halving_height_def [symmetric] fc_def Let_def)
  moreover have "fc \<le> MAX_HEIGHT \<and> 0 < fc" if "\<not> fc > third_era_end net"
    using that third_era_end(1) by (auto simp: fc_def)
  ultimately show ?thesis
    by (auto simp: height_previous_eq scheduled_issuance_eq halving_block_subsidy_eq_le amount_to_u128_def)
qed

lemma crossing_height_Ok:
  "\<exists>r. nsm_reissuance_crossing_height net = Ok r \<and>
     (\<forall>s. r = Some s \<longrightarrow>
        (\<exists>a. activation_height Nu7 net = Some a \<and> a \<le> s) \<and> s \<le> MAX_HEIGHT \<and> 0 < s \<and>
        halving_index net (s - 1) = 3 \<and> halving_index net s = 3)"
proof (cases "activation_height Nu7 net = None \<or> \<not> 3 \<le> halving_index net MAX_HEIGHT")
  case True
  then show ?thesis
    by (auto simp: nsm_reissuance_crossing_height_def height_for_halving_eq
        NSM_REISSUANCE_START_HALVING_def split: option.splits)
next
  case False
  then obtain nu7 where nu7: "activation_height Nu7 net = Some nu7" and i3: "3 \<le> halving_index net MAX_HEIGHT"
    by auto
  define fc where "fc = max (third_halving_height net + 1) nu7"
  define issued and sub where "issued = (\<Sum>k \<in> {1..fc - 1}. scheduled_subsidy net k)"
      and "sub = scheduled_subsidy net fc"
  note eq = crossing_height_eq [OF nu7 i3, folded fc_def, folded issued_def sub_def]
  show ?thesis
  proof (cases "fc > third_era_end net")
    case le: False
    have "sub < 2 ^ 64" using scheduled_subsidy_le [of fc] by (simp add: sub_def)
    then have run: "first_nsm_crossing_in_subsidy_run fc (third_era_end net) issued sub (nat MAX_MONEY) =
        Ok (if \<exists>c. fc \<le> c \<and> c \<le> third_era_end net \<and> nsm_crossed fc issued sub (nat MAX_MONEY) c
            then Some (LEAST c. fc \<le> c \<and> nsm_crossed fc issued sub (nat MAX_MONEY) c) else None)"
      using le third_era_end(1)
      by (intro first_nsm_crossing_eq) (auto simp: MAX_HEIGHT_def MAX_MONEY_def COIN_def)
    have "s \<le> MAX_HEIGHT \<and> nu7 \<le> s \<and> 0 < s \<and> halving_index net (s - 1) = 3 \<and> halving_index net s = 3"
      if c: "fc \<le> c" "c \<le> third_era_end net" "nsm_crossed fc issued sub (nat MAX_MONEY) c"
        and s: "s = (LEAST c. fc \<le> c \<and> nsm_crossed fc issued sub (nat MAX_MONEY) c)" for c s
    proof -
      have "fc \<le> s" unfolding s using c(1,3) by (metis (mono_tags, lifting) LeastI)
      moreover have "s \<le> c" unfolding s using c(1,3) by (intro Least_le) simp
      ultimately have b: "fc \<le> s" "s \<le> third_era_end net" using c(2) by auto
      have "3 \<le> halving_index net (s - 1)" "3 \<le> halving_index net s"
        using b(1) unfolding third_halving_height(2) [OF i3] by (auto simp: fc_def)
      moreover have "halving_index net (s - 1) < 4" "halving_index net s < 4"
        using third_era_end(2) b(2) by auto
      ultimately show ?thesis using b third_era_end(1) by (auto simp: fc_def)
    qed
    then show ?thesis unfolding eq run using le nu7 by auto
  qed (simp add: eq)
qed

lemma nsm_reissuance_height_eq: "nsm_reissuance_height net = Ok (reissuance_start net)"
proof -
  obtain r where "nsm_reissuance_crossing_height net = Ok r" using crossing_height_Ok by blast
  then show ?thesis by (simp add: nsm_reissuance_height_def reissuance_start_def split: option.splits)
qed

lemma reissuance_start_Some:
  assumes "reissuance_start net = Some s"
  shows "\<exists>a. activation_height Nu7 net = Some a \<and> a \<le> s" "s \<le> MAX_HEIGHT" "0 < s"
    "halving_index net (s - 1) = 3" "halving_index net s = 3"
proof -
  have "nsm_reissuance_height net = (Ok (Some s) :: (unit, height option) res)"
    using nsm_reissuance_height_eq assms by simp
  then have "nsm_reissuance_crossing_height net = Ok (Some s)"
    by (auto simp: nsm_reissuance_height_def split: option.splits)
  then show "\<exists>a. activation_height Nu7 net = Some a \<and> a \<le> s" "s \<le> MAX_HEIGHT" "0 < s"
    "halving_index net (s - 1) = 3" "halving_index net s = 3"
    using crossing_height_Ok by auto
qed

lemma is_zip234_active_eq:
  "is_zip234_active net h = Ok (case reissuance_start net of None \<Rightarrow> False | Some s \<Rightarrow> s \<le> h)"
  by (simp add: is_zip234_active_def nsm_reissuance_height_eq)

lemma block_subsidy_eq:
  assumes h: "h \<le> MAX_HEIGHT" and b: "\<forall>x. b = Some x \<longrightarrow> valid_amount NonNegative x"
  shows "block_subsidy h net b =
    (if case reissuance_start net of None \<Rightarrow> False | Some s \<Rightarrow> s \<le> h
     then (case b of None \<Rightarrow> Err MissingNsmValueBalance
           | Some x \<Rightarrow> Ok (int (scheduled_subsidy net h) + int (reissuance_ceil (nat x))))
     else Ok (int (scheduled_subsidy net h)))"
proof (cases b)
  case (Some x)
  have x: "valid_amount NonNegative x" "nat x \<le> nat MAX_MONEY"
    using b Some by (auto simp: valid_NonNegative)
  define r where "r = reissuance_ceil (nat x)"
  have r: "int r \<le> 288750000" using reissuance_ceil_le [OF x(2)] by (simp add: r_def)
  have s: "int (scheduled_subsidy net h) \<le> 1250000000" using scheduled_subsidy_le [of h] by simp
  have "amount_add NonNegative (int (scheduled_subsidy net h)) (int r) =
      Ok (int (scheduled_subsidy net h) + int r)"
    using r s by (simp add: amount_add_def i64_checked_def in_i64_def amount_try_from_i64_def
        validate_def Let_def MAX_MONEY_def COIN_def)
  moreover have "reissuance_bonus x = Ok (int r)"
    unfolding r_def reissuance_ceil_def by (rule reissuance_bonus_eq [OF x(1)])
  ultimately show ?thesis
    using Some h
    by (simp add: block_subsidy_def is_zip234_active_eq halving_block_subsidy_eq_le r_def)
qed (use h in \<open>simp add: block_subsidy_def is_zip234_active_eq halving_block_subsidy_eq_le\<close>)

end

section \<open>Properties\<close>

text \<open>
  C13. Cumulative issuance is exact: for every supported height, the closed-form slow start plus the
  walk over runs of constant subsidy returns, without errors or panics, precisely the sum of the
  scheduled block subsidies of the blocks after genesis, and that sum fits in 62 bits.
\<close>

theorem scheduled_issuance_is_sum:
  assumes "valid_network net" "h \<le> MAX_HEIGHT"
  shows "\<exists>s. (\<forall>k. k \<le> MAX_HEIGHT \<longrightarrow> halving_block_subsidy k net = Ok (int (s k))) \<and>
      scheduled_issuance_zatoshis h net = Ok (\<Sum>k \<in> {1..h}. s k) \<and> (\<Sum>k \<in> {1..h}. s k) < 2 ^ 62"
proof -
  have v: "valid_net net" using assms(1) by (rule valid_net.intro)
  show ?thesis
    using valid_net.halving_block_subsidy_eq_le [OF v] valid_net.scheduled_issuance_eq [OF v assms(2)]
      valid_net.scheduled_issuance_bound [OF v assms(2)] by blast
qed

theorem scheduled_issuance_is_sum_witness:
  "\<exists>s. (\<forall>k. k \<le> MAX_HEIGHT \<longrightarrow> halving_block_subsidy k Mainnet = Ok (int (s k))) \<and>
      scheduled_issuance_zatoshis 3600000 Mainnet = Ok (\<Sum>k \<in> {1..3600000}. s k) \<and>
      (\<Sum>k \<in> {1..3600000}. s k) < (2 :: nat) ^ 62"
  by (rule scheduled_issuance_is_sum) (simp_all add: valid_network_def MAX_HEIGHT_def)

text \<open>
  C14. The reference crossing of a run of constant subsidy is found exactly, without errors: the
  closed form returns the first height of the run at which the reissuance from the remaining reserve,
  rounded up, is less than the scheduled subsidy, and \<open>None\<close> precisely when no height of the run
  has that property.
\<close>

theorem nsm_crossing_is_first:
  assumes "first < 2 ^ 32" "run_end < 2 ^ 32" "subsidy < 2 ^ 64" "max_money < 2 ^ 64"
  shows "\<exists>r. first_nsm_crossing_in_subsidy_run first run_end issued subsidy max_money = Ok r \<and>
      (\<forall>c. r = Some c \<longrightarrow> first \<le> c \<and> c \<le> run_end \<and> nsm_crossed first issued subsidy max_money c \<and>
         (\<forall>k. first \<le> k \<and> k < c \<longrightarrow> \<not> nsm_crossed first issued subsidy max_money k)) \<and>
      (r = None \<longrightarrow> (\<forall>c. first \<le> c \<and> c \<le> run_end \<longrightarrow> \<not> nsm_crossed first issued subsidy max_money c))"
proof (cases "\<exists>c. first \<le> c \<and> c \<le> run_end \<and> nsm_crossed first issued subsidy max_money c")
  case True
  define l where "l = (LEAST c. first \<le> c \<and> nsm_crossed first issued subsidy max_money c)"
  obtain c where c: "first \<le> c" "c \<le> run_end" "nsm_crossed first issued subsidy max_money c"
    using True by blast
  let ?P = "\<lambda>c. first \<le> c \<and> nsm_crossed first issued subsidy max_money c"
  have P: "?P c" using c by simp
  have "?P l" unfolding l_def by (rule LeastI [of ?P, OF P])
  moreover have "l \<le> c" unfolding l_def by (rule Least_le [of ?P, OF P])
  moreover have "\<not> nsm_crossed first issued subsidy max_money k" if "first \<le> k" "k < l" for k
    using not_less_Least [of k ?P] that by (simp add: l_def)
  ultimately show ?thesis
    using first_nsm_crossing_eq [OF assms, of issued] True c(2) by (simp add: l_def [symmetric])
next
  case False
  then show ?thesis using first_nsm_crossing_eq [OF assms, of issued] by auto
qed

theorem nsm_crossing_is_first_witness:
  "\<exists>r. first_nsm_crossing_in_subsidy_run 10 500 100000 1000 2100000 = Ok r \<and>
      (\<forall>c. r = Some c \<longrightarrow> 10 \<le> c \<and> c \<le> 500 \<and> nsm_crossed 10 100000 1000 2100000 c \<and>
         (\<forall>k. 10 \<le> k \<and> k < c \<longrightarrow> \<not> nsm_crossed 10 100000 1000 2100000 k)) \<and>
      (r = None \<longrightarrow> (\<forall>c. 10 \<le> c \<and> c \<le> 500 \<longrightarrow> \<not> nsm_crossed 10 100000 1000 2100000 c))"
  by (rule nsm_crossing_is_first) simp_all





end
