(* ===== verification/Funding_Streams.thy ===== *)
theory Funding_Streams
  imports Issuance
begin

text \<open>
  Who receives a block's value: funding streams and their address periods, founders' reward, the
  miner's subsidy and the miner's share of the fees. Models \<open>funding_stream_address_period\<close> to
  \<open>founders_reward\<close> of \<open>zakura-chain/src/parameters/network/subsidy.rs\<close>, \<open>subsidy/fees.rs\<close>,
  the Mainnet streams of \<open>subsidy/constants/mainnet.rs\<close>, and
  \<open>zakura-consensus/src/block/subsidy.rs\<close>. Iterating over the \<open>HashMap\<close> of recipients is
  iterating over the association list.
\<close>

section \<open>Address periods\<close>

definition funding_stream_address_change_interval :: "network \<Rightarrow> height_diff" where
  "funding_stream_address_change_interval net = post_blossom_halving_interval net sdiv 48"

definition period_offset :: "height \<Rightarrow> network \<Rightarrow> ('e, height_diff) res" where
  "period_offset h net =
     bindr (height_for_first_halving net) (\<lambda>first_halving.
     i64_op (height_sub h first_halving + post_blossom_halving_interval net))"

definition funding_stream_address_period :: "height \<Rightarrow> network \<Rightarrow> ('e, height_diff) res" where
  "funding_stream_address_period h net =
     (let change_interval = funding_stream_address_change_interval net;
          before_nu7 = bindr (period_offset h net) (\<lambda>offset. i64_div_euclid offset change_interval)
      in case nu7_activation_height net of
           None \<Rightarrow> before_nu7
         | Some nu7_activation \<Rightarrow>
             if nu7_activation \<le> h then
               (let ratio = int NU7_POW_TARGET_SPACING_RATIO in
                bindr (period_offset nu7_activation net) (\<lambda>offset.
                bindr (i64_op (ratio * offset)) (\<lambda>scaled.
                bindr (i64_op (scaled + height_sub h nu7_activation)) (\<lambda>n.
                bindr (i64_op (ratio * change_interval)) (\<lambda>d.
                i64_div_euclid n d)))))
             else before_nu7)"

section \<open>The streams of a network\<close>

definition nu7_fpf_addresses :: "height option \<Rightarrow> ('e, address list) res" where
  "nu7_fpf_addresses nu7 =
     (let addresses = MAINNET_POST_NU6_1_FUNDING_STREAM_FPF_ADDRESSES in
      case nu7 of
        None \<Rightarrow> Ok addresses
      | Some activation \<Rightarrow>
          bindr (expect_ok (height_previous activation)) (\<lambda>previous.
          bindr (funding_stream_address_period previous Mainnet) (\<lambda>p.
          bindr (funding_stream_address_period 3146400 Mainnet) (\<lambda>q.
          bindr (i64_op (p - q)) (\<lambda>d.
          bindr (i64_op (d + 1)) (\<lambda>i.
          if i < 0 then Panic
          else Ok (take (nat i) addresses @ replicate (length addresses - nat i) NU7_FPF_ADDRESS)))))))"

definition mainnet_funding_streams :: "('e, funding_streams list) res" where
  "mainnet_funding_streams =
     (let nu7 = activation_height Nu7 Mainnet in
      bindr (nu7_fpf_addresses nu7) (\<lambda>fpf.
      bindr (with_nu7_adjusted_end_height nu7
               \<lparr>range_start = 3146400, range_end = 4406400,
                recipients =
                  [(Deferred, \<lparr>numerator = 12, addresses = []\<rparr>),
                   (MajorGrants, \<lparr>numerator = 8, addresses = fpf\<rparr>)]\<rparr>) (\<lambda>revision_2.
      Ok [\<lparr>range_start = 1046400, range_end = 2726400,
           recipients =
             [(Ecc, \<lparr>numerator = 7, addresses = MAINNET_FUNDING_STREAM_ECC_ADDRESSES\<rparr>),
              (ZcashFoundation, \<lparr>numerator = 5, addresses = MAINNET_FUNDING_STREAM_ZF_ADDRESSES\<rparr>),
              (MajorGrants, \<lparr>numerator = 8, addresses = MAINNET_FUNDING_STREAM_MG_ADDRESSES\<rparr>)]\<rparr>,
          \<lparr>range_start = 2726400, range_end = 2726400 + POST_NU6_FUNDING_STREAM_NUM_BLOCKS,
           recipients =
             [(Deferred, \<lparr>numerator = 12, addresses = []\<rparr>),
              (MajorGrants, \<lparr>numerator = 8, addresses = MAINNET_POST_NU6_FUNDING_STREAM_FPF_ADDRESSES\<rparr>)]\<rparr>,
          revision_2])))"

definition MAINNET_FUNDING_STREAMS :: "funding_streams list" where
  "MAINNET_FUNDING_STREAMS = unwrap mainnet_funding_streams"

definition all_funding_streams :: "network \<Rightarrow> funding_streams list" where
  "all_funding_streams net =
     (case net of Testnet params \<Rightarrow> p_funding_streams params | Mainnet \<Rightarrow> MAINNET_FUNDING_STREAMS)"

definition funding_streams_at :: "network \<Rightarrow> height \<Rightarrow> funding_streams option" where
  "funding_streams_at net h = find (\<lambda>fs. height_range_contains fs h) (all_funding_streams net)"

primrec stream_values ::
  "amount \<Rightarrow> (funding_stream_receiver \<times> funding_stream_recipient) list \<Rightarrow>
   (funding_stream_receiver \<times> amount) list amount_res" where
  "stream_values subsidy [] = Ok []"
| "stream_values subsidy (x # xs) =
     bindr (amount_mul NonNegative subsidy (numerator (snd x))) (\<lambda>product.
     bindr (amount_div NonNegative product FUNDING_STREAM_RECEIVER_DENOMINATOR) (\<lambda>amount_value.
     bindr (stream_values subsidy xs) (\<lambda>rest. Ok ((fst x, amount_value) # rest))))"

definition funding_stream_values ::
  "height \<Rightarrow> network \<Rightarrow> amount \<Rightarrow> (funding_stream_receiver \<times> amount) list amount_res" where
  "funding_stream_values h net expected_block_subsidy =
     (if amount_is_zero expected_block_subsidy then Ok []
      else
        bindr (current net h) (\<lambda>upgrade.
        if Canopy \<le> upgrade then
          (case funding_streams_at net h of
             None \<Rightarrow> Ok []
           | Some streams \<Rightarrow> stream_values expected_block_subsidy (recipients streams))
        else Ok []))"

definition funding_stream_address_index ::
  "height \<Rightarrow> network \<Rightarrow> funding_stream_receiver \<Rightarrow> ('e, nat option) res" where
  "funding_stream_address_index h net receiver =
     (if receiver = Deferred then Ok None
      else case funding_streams_at net h of
        None \<Rightarrow> Ok None
      | Some streams \<Rightarrow>
          (case recipient streams receiver of
             None \<Rightarrow> Ok None
           | Some rcp \<Rightarrow>
               bindr (funding_stream_address_period h net) (\<lambda>p.
               case i64_checked (1 + p) of
                 None \<Rightarrow> Ok None
               | Some p1 \<Rightarrow>
                   bindr (funding_stream_address_period (range_start streams) net) (\<lambda>q.
                   case i64_checked (p1 - q) of
                     None \<Rightarrow> Ok None
                   | Some index \<Rightarrow>
                       if index < 0 then Ok None
                       else bindr (assertr (0 < index \<and> nat index \<le> length (addresses rcp))) (\<lambda>_.
                         Ok (Some (nat index - 1)))))))"

text \<open>The number of addresses a height range needs (\<open>testnet.rs\<close>).\<close>

definition num_funding_stream_addresses_required ::
  "height \<Rightarrow> height \<Rightarrow> network \<Rightarrow> ('e, nat) res" where
  "num_funding_stream_addresses_required start_height end_height net =
     bindr (expect_ok (height_previous end_height)) (\<lambda>previous.
     bindr (funding_stream_address_period previous net) (\<lambda>p.
     bindr (expect_some (i64_checked (1 + p))) (\<lambda>p1.
     bindr (funding_stream_address_period start_height net) (\<lambda>q.
     bindr (expect_some (i64_checked (p1 - q))) (\<lambda>n.
     if n < 0 then Panic else Ok (nat n))))))"

definition funding_stream_address ::
  "height \<Rightarrow> network \<Rightarrow> funding_stream_receiver \<Rightarrow> ('e, address option) res" where
  "funding_stream_address h net receiver =
     bindr (funding_stream_address_index h net receiver) (\<lambda>i. Ok (
       case i of None \<Rightarrow> None
       | Some index \<Rightarrow>
           (case funding_streams_at net h of
              None \<Rightarrow> None
            | Some streams \<Rightarrow>
                (case recipient streams receiver of
                   None \<Rightarrow> None
                 | Some rcp \<Rightarrow>
                     if index < length (addresses rcp) then Some (addresses rcp ! index) else None))))"

section \<open>Founders and miners\<close>

definition founders_reward :: "network \<Rightarrow> height \<Rightarrow> ('e, amount) res" where
  "founders_reward net h =
     bindr (halving h net) (\<lambda>k.
     if k < 1 then
       bindr (current net h) (\<lambda>upgrade.
       if upgrade < Canopy then
         bindr (expect_ok (halving_block_subsidy h net)) (\<lambda>subsidy. div_exact subsidy 5)
       else Ok 0)
     else Ok 0)"

text \<open>\<open>parse\<close> decodes a transparent address.\<close>

definition founders_reward_address ::
  "(string \<Rightarrow> 'a option) \<Rightarrow> network \<Rightarrow> height \<Rightarrow> ('e, 'a option) res" where
  "founders_reward_address parse net h =
     (let founders_address_list = founder_address_list net;
          num_founder_addresses = length founders_address_list
      in case u32_try_from (pre_blossom_halving_interval net) of
           None \<Rightarrow> Ok None
         | Some interval \<Rightarrow>
             (case u32_checked (slow_start_shift net + interval) of
                None \<Rightarrow> Ok None
              | Some founders_period \<Rightarrow>
                  let change_interval = div_ceil founders_period num_founder_addresses in
                  bindr (current net h) (\<lambda>upgrade.
                  let adjusted =
                    (if upgrade < Blossom then Some h
                     else Option.bind (activation_height Blossom net) (\<lambda>b.
                          Option.bind (u_checked_sub h b) (\<lambda>d.
                          u32_checked (b + d div BLOSSOM_POW_TARGET_SPACING_RATIO))))
                  in case adjusted of
                       None \<Rightarrow> Ok None
                     | Some adjusted_height \<Rightarrow>
                         if change_interval = 0 then Panic
                         else
                           let index = adjusted_height div change_interval in
                           Ok (if index < num_founder_addresses then parse (founders_address_list ! index)
                               else None))))"

definition miner_subsidy :: "height \<Rightarrow> network \<Rightarrow> amount \<Rightarrow> amount amount_res" where
  "miner_subsidy h net expected_block_subsidy =
     bindr (founders_reward net h) (\<lambda>founders.
     bindr (funding_stream_values h net expected_block_subsidy) (\<lambda>vs.
     bindr (amount_sum NonNegative (map snd vs)) (\<lambda>funding_streams_sum.
     res_sub NonNegative (amount_sub NonNegative expected_block_subsidy founders) funding_streams_sum)))"

definition miner_fee_share :: "height \<Rightarrow> network \<Rightarrow> amount \<Rightarrow> ('e, amount) res" where
  "miner_fee_share h net transaction_fees =
     bindr (current net h) (\<lambda>upgrade.
     if upgrade < Nu7 then Ok transaction_fees
     else
       bindr (expect_some (i128_checked (transaction_fees * 6))) (\<lambda>scaled.
       bindr (expect_ok (amount_try_from_i128 NonNegative (scaled sdiv 10))) (\<lambda>nsm_contribution.
       expect_ok (amount_sub NonNegative transaction_fees nsm_contribution))))"

section \<open>Address periods in closed form\<close>

text \<open>
  The funding clock counts in units of the NU7 block spacing: three per block before NU7, one per
  block from NU7 on. Address periods are equal stretches of this clock.
\<close>

definition funding_clock :: "network \<Rightarrow> height \<Rightarrow> int" where
  "funding_clock net h = 3 * int (era_start net Nu7 h) + (int h - int (era_start net Nu7 h))"

definition clock_period :: "network \<Rightarrow> height \<Rightarrow> int \<Rightarrow> int" where
  "clock_period net first_halving clock =
     (clock + 3 * (post_blossom_halving_interval net - int first_halving)) div
       (3 * (post_blossom_halving_interval net div 48))"

lemma funding_clock_mono: "h \<le> k \<Longrightarrow> funding_clock net h \<le> funding_clock net k"
  by (auto simp: funding_clock_def era_start_def split: option.splits)

lemma funding_clock_adjusted:
  assumes "nu7_adjusted_funding_stream_height h (nu7_activation_height net) = Some k"
  shows "funding_clock net k = 3 * int h" "k \<le> MAX_HEIGHT \<or> k = h"
  using assms
  by (auto simp: funding_clock_def era_start_def nu7_adjusted_funding_stream_height_def
      nu7_activation_height_def spacing_constants split: option.splits if_splits)

lemma int_div_between:
  assumes "0 < (b :: int)" shows "min a 0 \<le> a div b" "a div b \<le> max a 0"
  using assms
  by (smt (verit) int_div_less div_by_1 zdiv_mono2 pos_imp_zdiv_neg_iff zdiv_mono2_neg)+

lemma i64_div_euclid_eq:
  assumes "0 \<le> b" "in_i64 a"
  shows "i64_div_euclid a b = (if 0 < b then Ok (a div b) else Panic)"
proof (cases "0 < b")
  case True
  have "in_i64 (a div b)" using int_div_between [OF True, of a] assms(2) by (auto simp: in_i64_def)
  then show ?thesis using True by (simp add: i64_div_euclid_def i64_op_Ok)
qed (use assms in \<open>simp add: i64_div_euclid_def\<close>)

context valid_net
begin

lemma interval_bounds:
  "0 \<le> post_blossom_halving_interval net" "3 * post_blossom_halving_interval net < 2 ^ 62"
  using pre_blossom_interval_pos pre_blossom_interval_i64
  by (auto simp: post_blossom_interval_eq in_i64_def)

lemma clock_period_mono:
  assumes "48 \<le> post_blossom_halving_interval net" "c \<le> d"
  shows "clock_period net f c \<le> clock_period net f d"
  unfolding clock_period_def using assms by (intro zdiv_mono1) simp_all

lemma first_halving_any_error:
  assumes "height_for_first_halving net = (Ok f :: ('a, _) res)"
  shows "height_for_first_halving net = (Ok f :: ('b, _) res)" "f \<le> MAX_HEIGHT"
proof -
  show "height_for_first_halving net = (Ok f :: ('b, _) res)"
    using assms unfolding height_for_first_halving_def height_for_halving_eq
    by (auto split: network.splits if_splits)
  show "f \<le> MAX_HEIGHT"
  proof (cases net)
    case Mainnet
    then show ?thesis using assms activation_height_le_MAX by (auto simp: height_for_first_halving_def)
  next
    case (Testnet ps)
    have "height_for_halving 1 net = (Ok (Some f) :: ('a, _) res) \<or> f = TESTNET_FIRST_HALVING"
      using assms Testnet by (auto simp: height_for_first_halving_def bindr_eq_Ok split: if_splits)
    then show ?thesis
    proof
      assume "height_for_halving 1 net = (Ok (Some f) :: ('a, _) res)"
      then show ?thesis using halving_height(2) [of 1] by (auto simp: height_for_halving_eq not_less split: if_splits)
    qed (simp add: TESTNET_FIRST_HALVING_def MAX_HEIGHT_def)
  qed
qed

lemma period_offset_eq:
  assumes "height_for_first_halving net = (Ok f :: (unit, _) res)" "h \<le> MAX_HEIGHT"
  shows "period_offset h net = Ok (int h - int f + post_blossom_halving_interval net)"
proof -
  have "in_i64 (int h - int f + post_blossom_halving_interval net)"
    using interval_bounds first_halving_any_error(2) [OF assms(1)] assms(2)
    by (simp add: in_i64_def MAX_HEIGHT_def)
  then show ?thesis
    by (simp add: period_offset_def first_halving_any_error(1) [OF assms(1)] height_sub_def i64_op_Ok)
qed

lemma address_period_eq:
  assumes f: "height_for_first_halving net = (Ok f :: (unit, _) res)" and h: "h \<le> MAX_HEIGHT"
  shows "(funding_stream_address_period h net :: ('e, _) res) =
    (if 48 \<le> post_blossom_halving_interval net then Ok (clock_period net f (funding_clock net h))
     else Panic)"
proof -
  define i where "i = post_blossom_halving_interval net"
  define c where "c = i div 48"
  have i: "0 \<le> i" "3 * i < 2 ^ 62" using interval_bounds by (simp_all add: i_def)
  have fm: "f \<le> MAX_HEIGHT" by (rule first_halving_any_error(2) [OF f])
  have c: "funding_stream_address_change_interval net = c" "0 \<le> c" "c \<le> i" "0 < c \<longleftrightarrow> 48 \<le> i"
    using i(1) by (auto simp: funding_stream_address_change_interval_def c_def sdiv_nonneg
      pos_imp_zdiv_pos_iff simp flip: i_def)
  show ?thesis
  proof (cases "case nu7_activation_height net of None \<Rightarrow> False | Some a \<Rightarrow> a \<le> h")
    case True
    then obtain a where a: "nu7_activation_height net = Some a" "a \<le> h" by (auto split: option.splits)
    define n where "n = 3 * (int a - int f + i) + (int h - int a)"
    have b: "in_i64 (3 * (int a - int f + i))" "in_i64 n" "in_i64 (3 * c)"
      using h a(2) fm i c(2,3) by (simp_all add: in_i64_def MAX_HEIGHT_def n_def)
    have "funding_stream_address_period h net = (i64_div_euclid n (3 * c) :: ('e, _) res)"
      using a b h
      by (simp add: funding_stream_address_period_def period_offset_eq [OF f] i64_op_Ok height_sub_def
          spacing_constants c(1) n_def flip: i_def)
    moreover have "clock_period net f (funding_clock net h) = n div (3 * c)"
    proof -
      have "funding_clock net h + 3 * (i - int f) = n"
        using a by (simp add: funding_clock_def era_start_def nu7_activation_height_def n_def)
      then show ?thesis by (simp only: clock_period_def i_def c_def)
    qed
    ultimately show ?thesis
      using c(2,4) b(2) unfolding i_def [symmetric] by (simp add: i64_div_euclid_eq)
  next
    case False
    have b: "in_i64 (int h - int f + i)"
      using h fm i by (simp add: in_i64_def MAX_HEIGHT_def)
    have "funding_stream_address_period h net = (i64_div_euclid (int h - int f + i) c :: ('e, _) res)"
      using False h
      by (auto simp: funding_stream_address_period_def period_offset_eq [OF f] c(1) simp flip: i_def
          split: option.splits)
    moreover have k: "funding_clock net h + 3 * (i - int f) = 3 * (int h - int f + i)"
      using False by (auto simp: funding_clock_def era_start_def nu7_activation_height_def split: option.splits)
    moreover have "clock_period net f (funding_clock net h) = (int h - int f + i) div c"
      unfolding clock_period_def i_def [symmetric] c_def [symmetric] k by (rule div_mult_mult1) simp
    ultimately show ?thesis
      using c(2,4) b unfolding i_def [symmetric] by (simp add: i64_div_euclid_eq)
  qed
qed

lemma clock_period_bounds:
  assumes "48 \<le> post_blossom_halving_interval net" "f \<le> MAX_HEIGHT" "h \<le> MAX_HEIGHT"
  shows "- (2 ^ 33) \<le> clock_period net f (funding_clock net h)"
    "clock_period net f (funding_clock net h) \<le> 2 ^ 62 + 2 ^ 33"
proof -
  define d where "d = 3 * (post_blossom_halving_interval net div 48)"
  have d: "0 < d" using assms(1) by (simp add: d_def pos_imp_zdiv_pos_iff)
  define n where "n = funding_clock net h + 3 * (post_blossom_halving_interval net - int f)"
  have "0 \<le> funding_clock net h" "funding_clock net h \<le> 3 * int h"
    by (auto simp: funding_clock_def era_start_def split: option.splits)
  then have "- (2 ^ 33) \<le> n" "n \<le> 2 ^ 62 + 2 ^ 33"
    using assms interval_bounds by (simp_all add: n_def MAX_HEIGHT_def)
  moreover have "clock_period net f (funding_clock net h) = n div d"
    by (simp only: clock_period_def n_def d_def)
  ultimately show "- (2 ^ 33) \<le> clock_period net f (funding_clock net h)"
    "clock_period net f (funding_clock net h) \<le> 2 ^ 62 + 2 ^ 33"
    using int_div_between [OF d, of n] by auto
qed

lemma addresses_required_eq:
  assumes f: "height_for_first_halving net = (Ok f :: (unit, _) res)"
    and i: "48 \<le> post_blossom_halving_interval net"
    and r: "start_height < end_height" "end_height \<le> Suc MAX_HEIGHT"
  shows "num_funding_stream_addresses_required start_height end_height net =
    Ok (nat (1 + clock_period net f (funding_clock net (end_height - 1))
               - clock_period net f (funding_clock net start_height)))"
proof -
  let ?p = "clock_period net f (funding_clock net (end_height - 1))"
  let ?q = "clock_period net f (funding_clock net start_height)"
  have fm: "f \<le> MAX_HEIGHT" by (rule first_halving_any_error(2) [OF f])
  have m: "end_height - 1 \<le> MAX_HEIGHT" "start_height \<le> MAX_HEIGHT" using r by simp_all
  have "?q \<le> ?p" using r by (intro clock_period_mono [OF i] funding_clock_mono) simp
  moreover have "in_i64 (1 + ?p)" "in_i64 (1 + ?p - ?q)"
    using clock_period_bounds [OF i fm m(1)] clock_period_bounds [OF i fm m(2)]
    by (simp_all add: in_i64_def)
  moreover have "expect_ok (height_previous end_height) = Ok (end_height - 1)"
    using r by (simp add: height_previous_Ok)
  ultimately show ?thesis
    using m i by (simp add: num_funding_stream_addresses_required_def address_period_eq [OF f] i64_checked_def)
qed

lemma address_index_eq:
  assumes f: "height_for_first_halving net = (Ok f :: (unit, _) res)"
    and i: "48 \<le> post_blossom_halving_interval net"
    and fs: "funding_streams_at net h = Some fs" "recipient fs receiver = Some rcp" "receiver \<noteq> Deferred"
    and e: "range_end fs \<le> Suc MAX_HEIGHT"
    and n: "num_funding_stream_addresses_required (range_start fs) (range_end fs) net = (Ok n :: (unit, _) res)"
      "n \<le> length (addresses rcp)"
  shows "funding_stream_address_index h net receiver =
      Ok (Some (nat (clock_period net f (funding_clock net h) - clock_period net f (funding_clock net (range_start fs)))))"
    "nat (clock_period net f (funding_clock net h) - clock_period net f (funding_clock net (range_start fs)))
      < length (addresses rcp)"
proof -
  let ?p = "clock_period net f (funding_clock net h)"
  let ?q = "clock_period net f (funding_clock net (range_start fs))"
  let ?r = "clock_period net f (funding_clock net (range_end fs - 1))"
  have fm: "f \<le> MAX_HEIGHT" by (rule first_halving_any_error(2) [OF f])
  have h: "range_start fs \<le> h" "h < range_end fs"
    using fs(1) by (auto simp: funding_streams_at_def height_range_contains_def find_Some_iff)
  have m: "h \<le> MAX_HEIGHT" "range_start fs \<le> MAX_HEIGHT" using h e by simp_all
  have order: "?q \<le> ?p" "?p \<le> ?r" using h by (auto intro!: clock_period_mono [OF i] funding_clock_mono)
  have len: "nat (1 + ?r - ?q) \<le> length (addresses rcp)"
    using n addresses_required_eq [OF f i, of "range_start fs" "range_end fs", where ?'a = unit] h e by simp
  show lt: "nat (?p - ?q) < length (addresses rcp)" using len order by linarith
  have "in_i64 (1 + ?p)" "in_i64 (1 + ?p - ?q)"
    using clock_period_bounds [OF i fm m(1)] clock_period_bounds [OF i fm m(2)]
    by (simp_all add: in_i64_def)
  moreover have "nat (1 + ?p - ?q) - 1 = nat (?p - ?q)" "nat (1 + ?p - ?q) \<le> length (addresses rcp)"
    using order len by linarith+
  ultimately show "funding_stream_address_index h net receiver = Ok (Some (nat (?p - ?q)))"
    using fs m i order
    by (simp add: funding_stream_address_index_def address_period_eq [OF f] i64_checked_def)
qed

end

section \<open>The streams of the public networks\<close>

definition streams_covered :: "network \<Rightarrow> bool" where
  "streams_covered net \<longleftrightarrow>
     list_all (\<lambda>fs.
       case (num_funding_stream_addresses_required (range_start fs) (range_end fs) net :: (unit, nat) res) of
         Ok n \<Rightarrow> list_all (\<lambda>x. fst x \<noteq> Deferred \<longrightarrow> n \<le> length (addresses (snd x))) (recipients fs)
       | _ \<Rightarrow> False)
     (all_funding_streams net)"

lemma mainnet_heights:
  "activation_height Nu7 Mainnet = Some 3543405" "activation_height Canopy Mainnet = Some 1046400"
  using mainnet_activation_valid
  by (simp_all add: mainnet.activation_height_find activation_map_def MAINNET_ACTIVATION_HEIGHTS_def nu_order)

lemma testnet_heights:
  "activation_height Nu7 new_default_testnet = Some 4465026"
  by (simp add: new_default_testnet_def activation_height_def activation_map_def default_parameters_fields
      testnet_map_nu7)

lemma public_first_halving:
  "height_for_first_halving Mainnet = Ok 1046400"
  "height_for_first_halving new_default_testnet = Ok 1116000"
  by (simp_all add: height_for_first_halving_def mainnet_heights new_default_testnet_def
      params_is_default_testnet_def TESTNET_FIRST_HALVING_def)

lemma public_interval:
  "post_blossom_halving_interval Mainnet = 1680000"
  "post_blossom_halving_interval new_default_testnet = 1680000"
  by (simp_all add: post_blossom_halving_interval_def new_default_testnet_def default_parameters_fields
      POST_BLOSSOM_HALVING_INTERVAL_def PRE_BLOSSOM_HALVING_INTERVAL_def BLOSSOM_POW_TARGET_SPACING_RATIO_def)

lemma public_clock:
  "funding_clock Mainnet h = (if h < 3543405 then 3 * int h else int h + 7086810)"
  "funding_clock new_default_testnet h = (if h < 4465026 then 3 * int h else int h + 8930052)"
  by (auto simp: funding_clock_def era_start_def mainnet_heights testnet_heights)

lemma public_required:
  assumes "start_height < end_height" "end_height \<le> Suc MAX_HEIGHT"
  shows "num_funding_stream_addresses_required start_height end_height Mainnet =
      Ok (nat (1 + clock_period Mainnet 1046400 (funding_clock Mainnet (end_height - 1))
                 - clock_period Mainnet 1046400 (funding_clock Mainnet start_height)))"
    "num_funding_stream_addresses_required start_height end_height new_default_testnet =
      Ok (nat (1 + clock_period new_default_testnet 1116000 (funding_clock new_default_testnet (end_height - 1))
                 - clock_period new_default_testnet 1116000 (funding_clock new_default_testnet start_height)))"
  by (rule mainnet.addresses_required_eq testnet.addresses_required_eq;
      simp add: assms public_first_halving public_interval)+

lemma nu7_fpf_addresses_mainnet:
  "nu7_fpf_addresses (Some 3543405) =
     Ok (replicate 12 ''t3cFfPt1Bcvgez9ZbMBFWeZsskxTkPzGCow'' @ replicate 24 NU7_FPF_ADDRESS)"
  by (simp add: nu7_fpf_addresses_def height_previous_eq public_interval MAX_HEIGHT_def
      mainnet.address_period_eq [OF public_first_halving(1)] clock_period_def public_clock
      i64_op_Ok in_i64_def MAINNET_POST_NU6_1_FUNDING_STREAM_FPF_ADDRESSES_def)

text \<open>
  The streams of Mainnet: the Revision 2 stream ends at the third halving, moved by NU7 to
  6,132,390, and pays the NU7 address from its thirteenth period on.
\<close>

lemma mainnet_funding_streams_eq:
  "MAINNET_FUNDING_STREAMS =
    [\<lparr>range_start = 1046400, range_end = 2726400,
      recipients =
        [(Ecc, \<lparr>numerator = 7, addresses = MAINNET_FUNDING_STREAM_ECC_ADDRESSES\<rparr>),
         (ZcashFoundation, \<lparr>numerator = 5, addresses = MAINNET_FUNDING_STREAM_ZF_ADDRESSES\<rparr>),
         (MajorGrants, \<lparr>numerator = 8, addresses = MAINNET_FUNDING_STREAM_MG_ADDRESSES\<rparr>)]\<rparr>,
     \<lparr>range_start = 2726400, range_end = 3146400,
      recipients =
        [(Deferred, \<lparr>numerator = 12, addresses = []\<rparr>),
         (MajorGrants, \<lparr>numerator = 8, addresses = MAINNET_POST_NU6_FUNDING_STREAM_FPF_ADDRESSES\<rparr>)]\<rparr>,
     \<lparr>range_start = 3146400, range_end = 6132390,
      recipients =
        [(Deferred, \<lparr>numerator = 12, addresses = []\<rparr>),
         (MajorGrants, \<lparr>numerator = 8,
           addresses = replicate 12 ''t3cFfPt1Bcvgez9ZbMBFWeZsskxTkPzGCow'' @ replicate 24 NU7_FPF_ADDRESS\<rparr>)]\<rparr>]"
  unfolding MAINNET_FUNDING_STREAMS_def mainnet_funding_streams_def mainnet_heights Let_def
    nu7_fpf_addresses_mainnet
  by (simp add: with_nu7_adjusted_end_height_def nu7_adjusted_funding_stream_height_def
      u32_checked_def in_u32_def MAX_HEIGHT_def spacing_constants POST_NU6_FUNDING_STREAM_NUM_BLOCKS_def)

lemma testnet_funding_streams_eq:
  "all_funding_streams new_default_testnet =
    [TESTNET_FUNDING_STREAMS ! 0, TESTNET_FUNDING_STREAMS ! 1,
     (TESTNET_FUNDING_STREAMS ! 2)\<lparr>range_end := 4497948\<rparr>]"
  by (simp add: all_funding_streams_def new_default_testnet_def default_parameters_fields
      TESTNET_FUNDING_STREAMS_def)

lemma length_ecc_addresses:
  "length MAINNET_FUNDING_STREAM_ECC_ADDRESSES = 48" "length TESTNET_FUNDING_STREAM_ECC_ADDRESSES = 51"
  by (simp_all add: MAINNET_FUNDING_STREAM_ECC_ADDRESSES_def TESTNET_FUNDING_STREAM_ECC_ADDRESSES_def)

lemma mainnet_covered: "streams_covered Mainnet"
  by (simp add: streams_covered_def all_funding_streams_def mainnet_funding_streams_eq public_required
      public_clock clock_period_def public_interval MAX_HEIGHT_def length_ecc_addresses
      MAINNET_FUNDING_STREAM_ZF_ADDRESSES_def MAINNET_FUNDING_STREAM_MG_ADDRESSES_def
      MAINNET_POST_NU6_FUNDING_STREAM_FPF_ADDRESSES_def)

lemma testnet_covered: "streams_covered new_default_testnet"
  by (simp add: streams_covered_def testnet_funding_streams_eq TESTNET_FUNDING_STREAMS_def public_required
      public_clock clock_period_def public_interval MAX_HEIGHT_def length_ecc_addresses
      TESTNET_FUNDING_STREAM_ZF_ADDRESSES_def TESTNET_FUNDING_STREAM_MG_ADDRESSES_def
      TESTNET_POST_NU6_FUNDING_STREAM_FPF_ADDRESSES_def POST_NU6_FUNDING_STREAM_NUM_BLOCKS_def
      TESTNET_POST_NU6_1_FUNDING_STREAM_FPF_ADDRESSES_def)

context valid_net
begin

lemma addresses_required_Ok:
  assumes "num_funding_stream_addresses_required start_height end_height net = (Ok n :: (unit, _) res)"
  obtains f where "height_for_first_halving net = (Ok f :: (unit, _) res)"
    "48 \<le> post_blossom_halving_interval net" "end_height \<le> Suc MAX_HEIGHT"
proof -
  from assms obtain k p where k: "height_previous end_height = Ok k"
    and p: "funding_stream_address_period k net = (Ok p :: (unit, _) res)"
    by (auto simp: num_funding_stream_addresses_required_def bindr_eq_Ok)
  have m: "end_height = Suc k" "k \<le> MAX_HEIGHT" using k by (simp_all add: height_previous_Ok)
  from p obtain f where f: "height_for_first_halving net = (Ok f :: (unit, _) res)"
    by (auto simp: funding_stream_address_period_def period_offset_def bindr_eq_Ok Let_def
        split: option.splits if_splits)
  then show thesis using that p m by (simp add: address_period_eq [OF f m(2)] split: if_splits)
qed

lemma address_found:
  assumes c: "streams_covered net"
    and fs: "funding_streams_at net h = Some fs" "recipient fs receiver = Some rcp" "receiver \<noteq> Deferred"
  shows "\<exists>a \<in> set (addresses rcp). funding_stream_address h net receiver = Ok (Some a)"
proof -
  have m: "fs \<in> set (all_funding_streams net)"
    using fs(1) by (auto simp: funding_streams_at_def find_Some_iff)
  obtain n where
    n: "num_funding_stream_addresses_required (range_start fs) (range_end fs) net = (Ok n :: (unit, _) res)"
      "list_all (\<lambda>x. fst x \<noteq> Deferred \<longrightarrow> n \<le> length (addresses (snd x))) (recipients fs)"
    using c [unfolded streams_covered_def list_all_iff [where xs = "all_funding_streams net"], THEN bspec, OF m]
    by (cases "num_funding_stream_addresses_required (range_start fs) (range_end fs) net :: (unit, nat) res")
      auto
  obtain f where f: "height_for_first_halving net = (Ok f :: (unit, _) res)"
    and i: "48 \<le> post_blossom_halving_interval net" and e: "range_end fs \<le> Suc MAX_HEIGHT"
    by (rule addresses_required_Ok [OF n(1)])
  have "(receiver, rcp) \<in> set (recipients fs)" using fs(2) by (auto simp: recipient_def dest: map_of_SomeD)
  then have l: "n \<le> length (addresses rcp)" using n(2) fs(3) by (auto simp: list_all_iff)
  note index = address_index_eq [OF f i fs e n(1) l]
  show ?thesis
    using index(2) fs(1,2) by (auto simp: funding_stream_address_def index(1))
qed

end

section \<open>Shares of a block's value\<close>

definition total_numerator :: "funding_streams \<Rightarrow> nat" where
  "total_numerator fs = sum_list (map (\<lambda>x. numerator (snd x)) (recipients fs))"

lemma stream_values_eq:
  assumes "0 \<le> s" "\<forall>x \<in> set xs. s * int (numerator (snd x)) \<le> MAX_MONEY"
  shows "stream_values s xs = Ok (map (\<lambda>x. (fst x, s * int (numerator (snd x)) div 100)) xs)"
  using assms(2)
proof (induction xs)
  case (Cons x xs)
  let ?n = "s * int (numerator (snd x))"
  have n: "valid_amount NonNegative ?n" using assms(1) Cons.prems by (simp add: valid_NonNegative)
  have "?n div 100 \<le> ?n" "0 \<le> ?n div 100"
    using assms(1) by (auto intro: zdiv_mono2 [of ?n 1 100, simplified] simp: pos_imp_zdiv_nonneg_iff)
  then have d: "valid_amount NonNegative (?n div 100)" using n by (simp add: valid_NonNegative)
  have "in_i128 ?n" "in_i64 ?n" "in_i64 (?n div 100)"
    using amt.amount_in_i64 [OF n] amt.amount_in_i64 [OF d] by (auto simp: in_i64_def in_i128_def)
  then show ?case
    using Cons n d assms(1)
    by (simp add: amount_mul_def amount_div_def i128_checked_def amount_try_from_i128_def
        FUNDING_STREAM_RECEIVER_DENOMINATOR_def sdiv_nonneg amt.validate_valid)
qed simp

lemma stream_values_sum:
  assumes "0 \<le> (s :: int)"
  shows "0 \<le> (\<Sum>x\<leftarrow>xs. s * int (n x) div 100)"
    "100 * (\<Sum>x\<leftarrow>xs. s * int (n x) div 100) \<le> s * int (\<Sum>x\<leftarrow>xs. n x)"
proof (induction xs)
  case (Cons x xs)
  have "0 \<le> s * int (n x) div 100" using assms by (simp add: pos_imp_zdiv_nonneg_iff)
  moreover have "100 * (s * int (n x) div 100) \<le> s * int (n x)" by simp
  ultimately show "0 \<le> (\<Sum>x\<leftarrow>x # xs. s * int (n x) div 100)"
    "100 * (\<Sum>x\<leftarrow>x # xs. s * int (n x) div 100) \<le> s * int (\<Sum>x\<leftarrow>x # xs. n x)"
    using Cons.IH by (simp_all add: algebra_simps)
qed simp_all

lemma amount_sum_nonneg:
  assumes "\<forall>x \<in> set xs. 0 \<le> x" "sum_list xs \<le> MAX_MONEY"
  shows "amount_sum NonNegative xs = Ok (sum_list xs)"
proof -
  have nonneg: "0 \<le> sum_list ys" if "set ys \<subseteq> set xs" for ys
    using assms(1) that by (induction ys) auto
  have part: "valid_amount NonNegative (sum_list (take n xs))" for n
  proof -
    have "sum_list xs = sum_list (take n xs) + sum_list (drop n xs)"
      by (metis append_take_drop_id sum_list_append)
    then show ?thesis
      using nonneg [of "take n xs"] nonneg [of "drop n xs"] assms(2) set_take_subset [of n xs]
        set_drop_subset [of n xs] by (simp add: valid_NonNegative)
  qed
  have el: "\<forall>x \<in> set xs. valid_amount NonNegative x"
  proof
    fix x assume x: "x \<in> set xs"
    obtain ys zs where "xs = ys @ x # zs" using x by (meson split_list)
    then have "sum_list xs = sum_list ys + x + sum_list zs" "0 \<le> sum_list ys" "0 \<le> sum_list zs"
      using nonneg [of ys] nonneg [of zs] by auto
    then show "valid_amount NonNegative x" using assms x by (simp add: valid_NonNegative)
  qed
  have "find (\<lambda>n. \<not> valid_amount NonNegative (sum_list (take n xs))) [1..<Suc (length xs)] = None"
    unfolding find_None_iff using part by blast
  then show ?thesis by (simp only: amount_sum_cases [OF el] option.case)
qed

definition founders_share :: "network \<Rightarrow> height \<Rightarrow> int" where
  "founders_share net h =
     (if halving_index net h = 0 \<and> upgrade_at net h < Canopy then int (scheduled_subsidy net h) div 5 else 0)"

definition stream_shares :: "network \<Rightarrow> height \<Rightarrow> int \<Rightarrow> (funding_stream_receiver \<times> int) list" where
  "stream_shares net h s =
     (if s = 0 \<or> upgrade_at net h < Canopy then []
      else case funding_streams_at net h of
             None \<Rightarrow> []
           | Some fs \<Rightarrow> map (\<lambda>x. (fst x, s * int (numerator (snd x)) div 100)) (recipients fs))"

context valid_net
begin

lemma founders_reward_eq:
  assumes "h \<le> MAX_HEIGHT"
  shows "founders_reward net h =
    (if halving_index net h = 0 \<and> upgrade_at net h < Canopy \<and> \<not> 5 dvd scheduled_subsidy net h
     then Panic else Ok (founders_share net h))"
proof -
  have "scheduled_subsidy net h \<le> 1250000000" using scheduled_subsidy_le [of h] by simp
  then have "in_i64 (int (scheduled_subsidy net h) div 5)"
    using int_div_between [of 5 "int (scheduled_subsidy net h)"] by (simp add: in_i64_def)
  moreover have "int (scheduled_subsidy net h) smod 5 = int (scheduled_subsidy net h mod 5)"
    by (cases "scheduled_subsidy net h = 0") (simp_all add: signed_modulo_int_def zmod_int)
  ultimately show ?thesis
    using assms
    by (auto simp: founders_reward_def halving_eq_le current_eq halving_block_subsidy_eq_le div_exact_def
        founders_share_def sdiv_nonneg dvd_eq_mod_eq_0)
qed

lemma funding_stream_values_eq:
  assumes "0 \<le> s" "100 * s \<le> MAX_MONEY"
    and "\<forall>fs. funding_streams_at net h = Some fs \<longrightarrow> total_numerator fs \<le> 100"
  shows "funding_stream_values h net s = Ok (stream_shares net h s)"
proof -
  have "s * int (numerator (snd x)) \<le> MAX_MONEY"
    if "funding_streams_at net h = Some fs" "x \<in> set (recipients fs)" for fs x
  proof -
    have "numerator (snd x) \<le> total_numerator fs"
      unfolding total_numerator_def using that(2) by (intro member_le_sum_list) auto
    then have "int (numerator (snd x)) \<le> 100" using assms(3) that(1) by fastforce
    then have "s * int (numerator (snd x)) \<le> s * 100" using assms(1) by (intro mult_left_mono) auto
    then show ?thesis using assms(2) by simp
  qed
  then show ?thesis
    using assms(1)
    by (auto simp: funding_stream_values_def stream_shares_def amount_is_zero_def current_eq not_less
        stream_values_eq split: option.split)
qed

end

lemma stream_shares_sum:
  assumes "0 \<le> s" and "\<forall>fs. funding_streams_at net h = Some fs \<longrightarrow> total_numerator fs \<le> m"
  shows "0 \<le> sum_list (map snd (stream_shares net h s))"
    "100 * sum_list (map snd (stream_shares net h s)) \<le> s * int m"
    "\<forall>x \<in> set (map snd (stream_shares net h s)). 0 \<le> x"
proof -
  show nonneg: "\<forall>x \<in> set (map snd (stream_shares net h s)). 0 \<le> x"
    using assms(1) by (auto simp: stream_shares_def pos_imp_zdiv_nonneg_iff split: option.split)
  then show "0 \<le> sum_list (map snd (stream_shares net h s))" by (simp only: sum_list_nonneg)
  show "100 * sum_list (map snd (stream_shares net h s)) \<le> s * int m"
  proof (cases "stream_shares net h s = []")
    case False
    then obtain fs where fs: "funding_streams_at net h = Some fs"
      and sh: "map snd (stream_shares net h s) = map (\<lambda>x. s * int (numerator (snd x)) div 100) (recipients fs)"
      by (auto simp: stream_shares_def split: if_splits option.splits)
    have "100 * sum_list (map snd (stream_shares net h s)) \<le> s * int (total_numerator fs)"
      unfolding sh total_numerator_def by (rule stream_values_sum(2) [OF assms(1)])
    also have "\<dots> \<le> s * int m" using assms fs by (intro mult_left_mono) auto
    finally show ?thesis .
  qed (use assms(1) in simp)
qed

lemma founders_share_bounds:
  "0 \<le> founders_share net h" "5 * founders_share net h \<le> int (scheduled_subsidy net h)"
  "founders_share net h = 0 \<or> stream_shares net h s = []"
  by (auto simp: founders_share_def stream_shares_def)

context valid_net
begin

lemma miner_subsidy_eq:
  assumes h: "h \<le> MAX_HEIGHT" and s: "int (scheduled_subsidy net h) \<le> s" "100 * s \<le> MAX_MONEY"
    and n: "\<forall>fs. funding_streams_at net h = Some fs \<longrightarrow> total_numerator fs \<le> 100"
    and f: "founders_reward net h \<noteq> (Panic :: (unit, _) res)"
  shows "miner_subsidy h net s =
      Ok (s - founders_share net h - sum_list (map snd (stream_shares net h s)))"
    "founders_share net h + sum_list (map snd (stream_shares net h s)) \<le> s"
proof -
  have s0: "0 \<le> s" "s \<le> MAX_MONEY" using s MAX_MONEY_pos by linarith+
  note sum = stream_shares_sum [OF s0(1) n]
  show le: "founders_share net h + sum_list (map snd (stream_shares net h s)) \<le> s"
    using sum(1,2) founders_share_bounds(1,2) [of net h] founders_share_bounds(3) [of net h s] s by auto
  have "founders_reward net h = (Ok (founders_share net h) :: (amount_error, _) res)"
    using f by (auto simp: founders_reward_eq [OF h] split: if_splits)
  moreover have "amount_sum NonNegative (map snd (stream_shares net h s)) =
      Ok (sum_list (map snd (stream_shares net h s)))"
    using sum s0 by (intro amount_sum_nonneg) auto
  ultimately show "miner_subsidy h net s =
      Ok (s - founders_share net h - sum_list (map snd (stream_shares net h s)))"
    using le sum(1) s0 founders_share_bounds(1,2) [of net h] funding_stream_values_eq [OF s0(1) s(2) n]
    by (simp add: miner_subsidy_def res_sub_def amt.sub_eq validate_eq valid_NonNegative)
qed

lemma block_subsidy_bounds:
  assumes "h \<le> MAX_HEIGHT" "block_subsidy h net b = Ok s" "\<forall>x. b = Some x \<longrightarrow> valid_amount NonNegative x"
  shows "int (scheduled_subsidy net h) \<le> s" "100 * s \<le> MAX_MONEY"
proof -
  have "reissuance_ceil (nat x) \<le> 288750000" if "b = Some x" for x
    using assms(3) that by (intro reissuance_ceil_le) (auto simp: valid_NonNegative)
  then have "int (scheduled_subsidy net h) \<le> s \<and> s \<le> int (scheduled_subsidy net h) + 288750000"
    using assms(2) unfolding block_subsidy_eq [OF assms(1,3)] by (auto split: if_splits option.splits)
  moreover have "scheduled_subsidy net h \<le> 1250000000" using scheduled_subsidy_le [of h] by simp
  ultimately show "int (scheduled_subsidy net h) \<le> s" "100 * s \<le> MAX_MONEY"
    by (simp_all add: MAX_MONEY_def COIN_def)
qed

lemma miner_fee_share_eq:
  assumes "valid_amount NonNegative t"
  shows "miner_fee_share h net t = Ok (if upgrade_at net h < Nu7 then t else t - 6 * t div 10)"
proof -
  have t: "0 \<le> t" "t \<le> MAX_MONEY" using assms by (simp_all add: valid_NonNegative)
  then have d: "0 \<le> 6 * t div 10" "6 * t div 10 \<le> t" by simp_all
  then have "valid_amount NonNegative (6 * t div 10)" "valid_amount NonNegative (t - 6 * t div 10)"
    using t by (simp_all add: valid_NonNegative)
  moreover have "in_i128 (t * 6)" "in_i64 (6 * t div 10)"
    using t d by (simp_all add: in_i128_def in_i64_def MAX_MONEY_def COIN_def)
  ultimately show ?thesis
    using assms t
    by (simp add: miner_fee_share_def current_eq i128_checked_def amount_try_from_i128_def sdiv_nonneg
        amt.validate_valid amt.sub_eq mult.commute)
qed

end

lemma public_numerators:
  assumes "net = Mainnet \<or> net = new_default_testnet"
  shows "\<forall>fs. funding_streams_at net h = Some fs \<longrightarrow> total_numerator fs \<le> 20"
proof -
  have "list_all (\<lambda>fs. total_numerator fs \<le> 20) (all_funding_streams net)"
    using assms
    by (auto simp: testnet_funding_streams_eq TESTNET_FUNDING_STREAMS_def all_funding_streams_def [of Mainnet]
        mainnet_funding_streams_eq total_numerator_def)
  then show ?thesis by (auto simp: funding_streams_at_def list_all_iff find_Some_iff)
qed

lemma public_valid: "net = Mainnet \<or> net = new_default_testnet \<Longrightarrow> valid_net net"
  using mainnet.valid_net_axioms testnet.valid_net_axioms by auto

lemma public_founders_exact:
  assumes net: "net = Mainnet \<or> net = new_default_testnet"
    and k: "halving_index net h = 0" and u: "upgrade_at net h < Canopy"
  shows "5 dvd scheduled_subsidy net h"
proof -
  have s: "slow_start_interval net = 20000"
    using net by (auto simp: slow_start_interval_def new_default_testnet_def default_parameters_fields
        SLOW_START_INTERVAL_def)
  have "target_spacing (upgrade_at net h) = 75 \<or> target_spacing (upgrade_at net h) = 150"
    using u by (cases "upgrade_at net h") (auto simp: target_spacing_def spacing_constants nu_order)
  then have "5 dvd MAX_BLOCK_SUBSIDY * nat (target_spacing (upgrade_at net h)) div 150" by auto
  moreover have "MAX_BLOCK_SUBSIDY div slow_start_interval net = 62500" by (simp add: s)
  ultimately show ?thesis by (simp add: scheduled_subsidy_def k Let_def)
qed

section \<open>Properties\<close>

text \<open>
  C25. On Mainnet and on the default Testnet every block of a funding stream has a recipient
  address: for each height in the range of a stream and each of its receivers except the deferred
  pool, the address lookup returns one of the addresses listed for that receiver. The assertion on
  the address index never fires, also after NU7 has moved the end of the streams.
\<close>

theorem funding_address_always_found:
  assumes "net = Mainnet \<or> net = new_default_testnet"
    and "funding_streams_at net h = Some fs" "recipient fs receiver = Some rcp" "receiver \<noteq> Deferred"
  shows "\<exists>a \<in> set (addresses rcp). funding_stream_address h net receiver = Ok (Some a)"
proof -
  have c: "streams_covered net" using assms(1) mainnet_covered testnet_covered by auto
  show ?thesis by (rule valid_net.address_found [OF public_valid [OF assms(1)] c assms(2-4)])
qed

theorem funding_address_always_found_witness:
  "\<exists>a \<in> set (addresses (snd (recipients (MAINNET_FUNDING_STREAMS ! 2) ! 1))).
     funding_stream_address 6132389 Mainnet MajorGrants = Ok (Some a)"
proof -
  have "funding_streams_at Mainnet 6132389 = Some (MAINNET_FUNDING_STREAMS ! 2)"
    by (simp add: funding_streams_at_def all_funding_streams_def mainnet_funding_streams_eq
        height_range_contains_def)
  moreover have "recipient (MAINNET_FUNDING_STREAMS ! 2) MajorGrants =
      Some (snd (recipients (MAINNET_FUNDING_STREAMS ! 2) ! 1))"
    by (simp add: mainnet_funding_streams_eq recipient_def)
  ultimately show ?thesis
    by (intro funding_address_always_found [of Mainnet]) simp_all
qed

text \<open>
  A funding stream boundary keeps its address period when NU7 moves it. For a network whose
  first halving is at a supported height and for a supported boundary height, the address period of
  the height that \<open>nu7_adjusted_funding_stream_height\<close> moves it to is the period of the protocol
  specification computed from the original height, and earlier heights never have a later period.
  The period exists if and only if the halving interval is at least 48 blocks: a shorter interval
  makes the change interval zero and the division panics.
\<close>

theorem address_period_survives_nu7:
  assumes "valid_network net" "height_for_first_halving net = (Ok f :: (unit, _) res)"
    and "h \<le> MAX_HEIGHT" "k \<le> h'"
    and "nu7_adjusted_funding_stream_height h (nu7_activation_height net) = Some h'"
  shows "if 48 \<le> post_blossom_halving_interval net then
      funding_stream_address_period h' net =
        (Ok ((int h + post_blossom_halving_interval net - int f) div (post_blossom_halving_interval net div 48))
           :: (unit, int) res) \<and>
      (\<exists>p. funding_stream_address_period k net = (Ok p :: (unit, int) res) \<and>
         p \<le> (int h + post_blossom_halving_interval net - int f) div (post_blossom_halving_interval net div 48))
    else funding_stream_address_period h' net = (Panic :: (unit, int) res)"
proof -
  have v: "valid_net net" using assms(1) by (rule valid_net.intro)
  note eq = valid_net.address_period_eq [OF v assms(2)]
  note clock = funding_clock_adjusted [OF assms(5)]
  have m: "h' \<le> MAX_HEIGHT" "k \<le> MAX_HEIGHT" using clock(2) assms(3,4) by auto
  define i where "i = post_blossom_halving_interval net"
  have "clock_period net f (funding_clock net h') = (3 * (int h + i - int f)) div (3 * (i div 48))"
    by (simp add: clock_period_def clock(1) algebra_simps flip: i_def)
  then have p: "clock_period net f (funding_clock net h') = (int h + i - int f) div (i div 48)"
    by (simp only: div_mult_mult1 zero_neq_numeral not_False_eq_True)
  have "clock_period net f (funding_clock net k) \<le> clock_period net f (funding_clock net h')" if "48 \<le> i"
    using that assms(4) by (intro valid_net.clock_period_mono [OF v] funding_clock_mono) (simp_all add: i_def)
  then show ?thesis unfolding eq [OF m(1)] eq [OF m(2)] p i_def by simp
qed

theorem address_period_survives_nu7_witness:
  "funding_stream_address_period 6132390 Mainnet = (Ok 144 :: (unit, int) res) \<and>
   (\<exists>p. funding_stream_address_period 6132389 Mainnet = (Ok p :: (unit, int) res) \<and> p \<le> 144)"
proof -
  have "nu7_adjusted_funding_stream_height 4406400 (nu7_activation_height Mainnet) = Some 6132390"
    by (simp add: nu7_adjusted_funding_stream_height_def nu7_activation_height_def mainnet_heights
        u32_checked_def in_u32_def MAX_HEIGHT_def spacing_constants)
  then show ?thesis
    using address_period_survives_nu7 [of Mainnet 1046400 4406400 6132389 6132390] public_first_halving(1)
    by (simp add: valid_network_def MAX_HEIGHT_def public_interval)
qed

text \<open>
  C8. On Mainnet and on the default Testnet the whole subsidy of every block is distributed and
  nothing more: the founders' reward is defined (its exact division by five never panics), the
  funding stream values are defined, the miner's subsidy is what is left, at least four fifths of
  the subsidy when the subsidy is the scheduled one, and founders and funding streams never share a
  block.
\<close>

theorem block_value_is_conserved:
  assumes "net = Mainnet \<or> net = new_default_testnet" "h \<le> MAX_HEIGHT"
    and "block_subsidy h net b = Ok s" "\<forall>x. b = Some x \<longrightarrow> valid_amount NonNegative x"
  shows "\<exists>m f vs. founders_reward net h = (Ok f :: (unit, _) res) \<and>
      funding_stream_values h net s = Ok vs \<and> miner_subsidy h net s = Ok m \<and>
      m + f + sum_list (map snd vs) = s \<and> 0 \<le> f \<and> (\<forall>v \<in> set vs. 0 \<le> snd v) \<and>
      4 * s \<le> 5 * m \<and> (f = 0 \<or> vs = [])"
proof -
  have v: "valid_net net" by (rule public_valid [OF assms(1)])
  have s: "int (scheduled_subsidy net h) \<le> s" "100 * s \<le> MAX_MONEY"
    using valid_net.block_subsidy_bounds [OF v assms(2-4)] by auto
  have s0: "0 \<le> s" using s(1) by linarith
  note n = public_numerators [OF assms(1), of h]
  then have n': "\<forall>fs. funding_streams_at net h = Some fs \<longrightarrow> total_numerator fs \<le> 100" by fastforce
  have f: "founders_reward net h = (Ok (founders_share net h) :: (unit, _) res)"
    using public_founders_exact [OF assms(1), of h] by (auto simp: valid_net.founders_reward_eq [OF v assms(2)])
  then have "founders_reward net h \<noteq> (Panic :: (unit, _) res)" by simp
  note miner = valid_net.miner_subsidy_eq(1) [OF v assms(2) s n' this]
  note shares = stream_shares_sum [OF s0 n]
  note bounds = founders_share_bounds(1,2) [of net h] founders_share_bounds(3) [of net h s]
  have "5 * (founders_share net h + sum_list (map snd (stream_shares net h s))) \<le> s"
    using shares(1,2) bounds s(1) by auto
  then show ?thesis
    using f miner valid_net.funding_stream_values_eq [OF v s0 s(2) n'] shares(3) bounds(1,3)
    by (intro exI [of _ "s - founders_share net h - sum_list (map snd (stream_shares net h s))"]
        exI [of _ "founders_share net h"] exI [of _ "stream_shares net h s"]) auto
qed

theorem block_value_is_conserved_witness:
  "\<exists>m f vs. founders_reward Mainnet 1 = (Ok f :: (unit, _) res) \<and>
     funding_stream_values 1 Mainnet 62500 = Ok vs \<and> miner_subsidy 1 Mainnet 62500 = Ok m \<and>
     m + f + sum_list (map snd vs) = 62500 \<and> 0 \<le> f \<and> (\<forall>v \<in> set vs. 0 \<le> snd v) \<and>
     4 * 62500 \<le> 5 * m \<and> (f = 0 \<or> vs = [])"
proof -
  have "scheduled_subsidy Mainnet 1 = 62500"
    by (simp add: scheduled_subsidy_def halving_index_def slow_start_shift_def slow_start_interval_def
        SLOW_START_INTERVAL_def)
  then have "block_subsidy 1 Mainnet (Some 0) = Ok 62500"
    by (subst mainnet.block_subsidy_eq)
      (simp_all add: MAX_HEIGHT_def valid_NonNegative reissuance_ceil_def div_ceil_def order_less_imp_le)
  then show ?thesis
    by (intro block_value_is_conserved [of Mainnet 1 "Some 0" 62500])
      (simp_all add: MAX_HEIGHT_def valid_NonNegative order_less_imp_le)
qed

text \<open>
  C37. The miner's share of a block's fees is total and exact: before NU7 it is all of the fees, and
  from NU7 on the fees less the floor of six tenths of them. The two parts add up to the fees, the
  rounding is in the miner's favour, and the miner's part is never below four tenths.
\<close>

theorem miner_fee_share_exact:
  assumes "valid_network net" "valid_amount NonNegative fees"
  shows "\<exists>share nsm. miner_fee_share h net fees = (Ok share :: (unit, _) res) \<and> share + nsm = fees \<and>
      (if upgrade_at net h < Nu7 then nsm = 0 else nsm = 6 * fees div 10) \<and>
      valid_amount NonNegative share \<and> valid_amount NonNegative nsm \<and> 4 * fees \<le> 10 * share"
proof -
  have "valid_net net" using assms(1) by (rule valid_net.intro)
  note eq = valid_net.miner_fee_share_eq [OF this assms(2)]
  define nsm where "nsm = (if upgrade_at net h < Nu7 then 0 else 6 * fees div 10)"
  have fees: "0 \<le> fees" "fees \<le> MAX_MONEY" using assms(2) by (simp_all add: valid_NonNegative)
  then have "0 \<le> nsm" "10 * nsm \<le> 6 * fees" by (auto simp: nsm_def)
  then show ?thesis
    using fees by (intro exI [of _ "fees - nsm"] exI [of _ nsm]) (auto simp: eq nsm_def valid_NonNegative)
qed

theorem miner_fee_share_exact_witness:
  "\<exists>share nsm. miner_fee_share 3600000 Mainnet 15 = (Ok share :: (unit, _) res) \<and> share + nsm = 15 \<and>
     (if upgrade_at Mainnet 3600000 < Nu7 then nsm = 0 else nsm = 6 * 15 div 10) \<and>
     valid_amount NonNegative share \<and> valid_amount NonNegative nsm \<and> 4 * 15 \<le> 10 * share"
  by (rule miner_fee_share_exact) (simp_all add: valid_network_def valid_NonNegative MAX_MONEY_def COIN_def)

end
