(* ===== verification/Checkpoints.thy ===== *)
theory Checkpoints
  imports Network
begin

text \<open>
  Checkpoint lists (\<open>zakura-chain/src/parameters/checkpoint/list.rs\<close>): parsing, the checks of
  \<open>CheckpointList::from_list\<close>, and the lookups by height. A checkpoint list is a \<open>BTreeMap\<close> from
  heights to hashes; a hash is its hexadecimal string, and \<open>parse_hash\<close>, the decoder of the
  \<open>hex\<close> crate behind \<open>block::Hash::from_str\<close>, is a parameter.
\<close>

section \<open>Parsing\<close>

type_synonym checkpoints = "(height \<times> string) list"

datatype checkpoint_error =
    InvalidCheckpointFormat nat string
  | InvalidCheckpointHeight height_parse_error
  | InvalidCheckpointHash
  | CheckpointsMustStartAtGenesis
  | NoCheckpoints
  | CheckpointHeightsNotUnique
  | CheckpointHashesNotUnique
  | NullCheckpointHash
  | CheckpointHeightAboveMax

text \<open>\<open>str::split\<close> on a character, and \<open>str::lines\<close>.\<close>

fun split_char :: "char \<Rightarrow> string \<Rightarrow> string list" where
  "split_char c [] = [[]]"
| "split_char c (x # xs) =
     (if x = c then [] # split_char c xs
      else case split_char c xs of [] \<Rightarrow> [[x]] | y # ys \<Rightarrow> (x # y) # ys)"

definition strip_cr :: "string \<Rightarrow> string" where
  "strip_cr s = (if s \<noteq> [] \<and> List.last s = CHR 13 then butlast s else s)"

definition str_lines :: "string \<Rightarrow> string list" where
  "str_lines s =
     (let parts = split_char (CHR 10) s in
      map strip_cr (butlast parts) @ (if List.last parts = [] then [] else [List.last parts]))"

definition checkpoint_height_and_hash ::
  "(string \<Rightarrow> string option) \<Rightarrow> string \<Rightarrow> (checkpoint_error, height \<times> string) res" where
  "checkpoint_height_and_hash parse_hash checkpoint =
     (case split_char (CHR '' '') checkpoint of
        [h, hash] \<Rightarrow>
          bindr (map_err InvalidCheckpointHeight (height_from_str h)) (\<lambda>height.
          bindr (ok_or InvalidCheckpointHash (parse_hash hash)) (\<lambda>block_hash.
          Ok (height, block_hash)))
      | parts \<Rightarrow> Err (InvalidCheckpointFormat (length parts) checkpoint))"

section \<open>Construction and lookups\<close>

definition NULL_HASH :: string where
  "NULL_HASH = replicate 64 (CHR ''0'')"

definition max_height_in_range :: "(height \<Rightarrow> bool) \<Rightarrow> checkpoints \<Rightarrow> height option" where
  "max_height_in_range in_range cs =
     (let inside = filter (\<lambda>x. in_range (fst x)) cs in
      if inside = [] then None else Some (fst (List.last inside)))"

definition min_height_in_range :: "(height \<Rightarrow> bool) \<Rightarrow> checkpoints \<Rightarrow> height option" where
  "min_height_in_range in_range cs = map_option fst (find (\<lambda>x. in_range (fst x)) cs)"

definition max_height :: "checkpoints \<Rightarrow> ('e, height) res" where
  "max_height cs = expect_some (max_height_in_range (\<lambda>_. True) cs)"

definition checkpoint_from_list :: "checkpoints \<Rightarrow> (checkpoint_error, checkpoints) res" where
  "checkpoint_from_list original_checkpoints =
     (let original_len = length original_checkpoints;
          checkpoints = bt_of_list original_checkpoints;
          block_hashes = set (map snd checkpoints)
      in case checkpoints of
           [] \<Rightarrow> Err NoCheckpoints
         | (h, _) # _ \<Rightarrow>
             if h \<noteq> 0 then Err CheckpointsMustStartAtGenesis
             else if length checkpoints \<noteq> original_len then Err CheckpointHeightsNotUnique
             else if card block_hashes \<noteq> original_len then Err CheckpointHashesNotUnique
             else if NULL_HASH \<in> block_hashes then Err NullCheckpointHash
             else bindr (max_height checkpoints) (\<lambda>top_height.
                  if MAX_HEIGHT < top_height then Err CheckpointHeightAboveMax else Ok checkpoints))"

definition checkpoint_from_str ::
  "(string \<Rightarrow> string option) \<Rightarrow> string \<Rightarrow> (checkpoint_error, checkpoints) res" where
  "checkpoint_from_str parse_hash s =
     bindr (try_fold (\<lambda>acc checkpoint.
              bindr (checkpoint_height_and_hash parse_hash checkpoint) (\<lambda>x. Ok (acc @ [x])))
            [] (str_lines s))
       checkpoint_from_list"

definition checkpoint_contains :: "checkpoints \<Rightarrow> height \<Rightarrow> bool" where
  "checkpoint_contains cs h \<longleftrightarrow> map_of cs h \<noteq> None"

definition checkpoint_hash :: "checkpoints \<Rightarrow> height \<Rightarrow> string option" where
  "checkpoint_hash cs h = map_of cs h"

definition checkpoint_at_or_before :: "checkpoints \<Rightarrow> height \<Rightarrow> (height \<times> string) option" where
  "checkpoint_at_or_before cs h =
     (let below = filter (\<lambda>x. fst x \<le> h) cs in if below = [] then None else Some (List.last below))"

definition checkpoint_after :: "checkpoints \<Rightarrow> height \<Rightarrow> (height \<times> string) option" where
  "checkpoint_after cs h = find (\<lambda>x. h < fst x) cs"

text \<open>\<open>rposition\<close>: the last index whose key is at or below the height.\<close>

definition prev_checkpoint_index :: "checkpoints \<Rightarrow> height \<Rightarrow> ('e, nat) res" where
  "prev_checkpoint_index cs h =
     expect_some (find (\<lambda>i. fst (cs ! i) \<le> h) (rev [0..<length cs]))"

definition checkpoint_len :: "checkpoints \<Rightarrow> nat" where
  "checkpoint_len cs = length cs"

text \<open>
  The list of a network; \<open>mainnet\<close> and \<open>testnet\<close> stand for the two generated files of built-in
  checkpoints.
\<close>

definition checkpoint_entries :: "checkpoints \<Rightarrow> checkpoint_list \<Rightarrow> checkpoints" where
  "checkpoint_entries testnet cl =
     (case cl of Testnet_Checkpoint_List \<Rightarrow> testnet | Checkpoint_List cs \<Rightarrow> cs)"

definition network_checkpoint_list :: "checkpoints \<Rightarrow> checkpoints \<Rightarrow> network \<Rightarrow> checkpoints" where
  "network_checkpoint_list mainnet testnet net =
     (case net of
        Mainnet \<Rightarrow> mainnet
      | Testnet params \<Rightarrow> checkpoint_entries testnet (p_checkpoints params))"

definition network_genesis_hash :: "network \<Rightarrow> string" where
  "network_genesis_hash net =
     (case net of
        Mainnet \<Rightarrow> ''00040fe8ec8471911baa1db1266ea15dd06b4a8a5c453883c000b031973dce08''
      | Testnet params \<Rightarrow> p_genesis_hash params)"

text \<open>What \<open>from_list\<close> guarantees of its result.\<close>

definition valid_checkpoints :: "checkpoints \<Rightarrow> bool" where
  "valid_checkpoints cs \<longleftrightarrow>
     bt_sorted cs \<and> distinct (map snd cs) \<and> cs \<noteq> [] \<and> fst (hd cs) = 0 \<and>
     NULL_HASH \<notin> set (map snd cs) \<and> list_all (\<lambda>x. fst x \<le> MAX_HEIGHT) cs"

section \<open>Lemmas\<close>

lemma NULL_HASH_neq: "length s \<noteq> 64 \<Longrightarrow> NULL_HASH \<noteq> s"
  by (auto simp: NULL_HASH_def)

lemma bt_of_list_snoc: "bt_of_list (xs @ [x]) = bt_insert (fst x) (snd x) (bt_of_list xs)"
  by (simp add: bt_of_list_def case_prod_beta)

lemma map_of_bt_of_list: "map_of (bt_of_list xs) = map_of (rev xs)"
proof (induction xs rule: rev_induct)
  case (snoc x xs)
  show ?case
    unfolding bt_of_list_snoc map_of_bt_insert [OF bt_sorted_of_list] snoc by (cases x) simp
qed (simp add: bt_of_list_def)

lemma keys_bt_of_list: "fst ` set (bt_of_list xs) = fst ` set xs"
proof (induction xs rule: rev_induct)
  case (snoc x xs)
  then show ?case by (simp add: bt_of_list_snoc fst_bt_insert)
qed (simp add: bt_of_list_def)

lemma bt_sorted_distinct: "bt_sorted m \<Longrightarrow> distinct (map fst m)"
  using strict_sorted_iff [of "map fst m"] by blast

lemma length_bt_of_list: "length (bt_of_list xs) = card (fst ` set xs)"
  using bt_sorted_distinct [OF bt_sorted_of_list, of xs]
  by (metis distinct_card keys_bt_of_list length_map list.set_map)

lemma length_bt_of_list_eq: "length (bt_of_list xs) = length xs \<longleftrightarrow> distinct (map fst xs)"
  by (metis card_distinct distinct_card length_bt_of_list length_map list.set_map)

lemma set_map_of: "distinct (map fst m) \<Longrightarrow> set m = {x. map_of m (fst x) = Some (snd x)}"
  by (auto simp: map_of_eq_Some_iff)

lemma set_bt_of_list:
  assumes "distinct (map fst xs)" shows "set (bt_of_list xs) = set xs"
proof -
  have "distinct (map fst (rev xs))" using assms by (simp flip: rev_map)
  from set_map_of [OF this] set_map_of [OF bt_sorted_distinct [OF bt_sorted_of_list, of xs]]
  show ?thesis by (simp add: map_of_bt_of_list)
qed

lemma bt_sorted_last: "bt_sorted m \<Longrightarrow> x \<in> set m \<Longrightarrow> fst x \<le> fst (List.last m)"
  by (induction m) (auto simp: order.order_iff_strict)

lemma max_height_eq: "m \<noteq> [] \<Longrightarrow> max_height m = Ok (fst (List.last m))"
  by (simp add: max_height_def max_height_in_range_def)

lemma distinct_card_iff: "card (set ys) = length ys \<longleftrightarrow> distinct ys"
  using card_distinct distinct_card by auto

lemma checkpoint_from_list_eq:
  "checkpoint_from_list xs =
     (if xs = [] then Err NoCheckpoints
      else if 0 \<notin> set (map fst xs) then Err CheckpointsMustStartAtGenesis
      else if \<not> distinct (map fst xs) then Err CheckpointHeightsNotUnique
      else if \<not> distinct (map snd xs) then Err CheckpointHashesNotUnique
      else if NULL_HASH \<in> set (map snd xs) then Err NullCheckpointHash
      else if \<exists>h \<in> set (map fst xs). MAX_HEIGHT < h then Err CheckpointHeightAboveMax
      else Ok (bt_of_list xs))"
proof (cases "bt_of_list xs")
  case Nil
  then have "xs = []" using keys_bt_of_list [of xs] by auto
  with Nil show ?thesis by (simp add: checkpoint_from_list_def)
next
  case (Cons e m)
  let ?b = "bt_of_list xs"
  have ne: "xs \<noteq> []" using Cons by (auto simp: bt_of_list_def)
  have "0 \<in> fst ` set ?b \<longleftrightarrow> fst e = 0" using bt_sorted_of_list [of xs] by (auto simp: Cons)
  then have start: "0 \<in> set (map fst xs) \<longleftrightarrow> fst e = 0" by (simp add: keys_bt_of_list)
  show ?thesis
  proof (cases "fst e = 0 \<and> distinct (map fst xs)")
    case False
    have "length (e # m) = length xs \<longleftrightarrow> distinct (map fst xs)"
      using length_bt_of_list_eq [of xs] Cons by simp
    then show ?thesis
      using False ne unfolding start checkpoint_from_list_def Cons Let_def
      by (cases e; cases "fst e = 0") (simp_all del: list.map set_simps list.size)
  next
    case True
    have set: "set ?b = set xs" and len: "length ?b = length xs"
      using True by (simp_all add: set_bt_of_list length_bt_of_list_eq)
    have hashes: "set (map snd ?b) = set (map snd xs)" using set by simp
    have uniq: "card (set (map snd xs)) = length xs \<longleftrightarrow> distinct (map snd xs)"
      using distinct_card_iff [of "map snd xs"] by simp
    have "List.last ?b \<in> set ?b" using Cons by simp
    then have above: "MAX_HEIGHT < fst (List.last ?b) \<longleftrightarrow> (\<exists>h \<in> set (map fst xs). MAX_HEIGHT < h)"
      using bt_sorted_last [OF bt_sorted_of_list, of _ xs] set by fastforce
    have "length (e # m) = length xs" using len Cons by simp
    then have "checkpoint_from_list xs =
        (if card (set (map snd ?b)) \<noteq> length xs then Err CheckpointHashesNotUnique
         else if NULL_HASH \<in> set (map snd ?b) then Err NullCheckpointHash
         else if MAX_HEIGHT < fst (List.last ?b) then Err CheckpointHeightAboveMax else Ok ?b)"
      using True unfolding checkpoint_from_list_def Cons Let_def
      by (cases e) (simp add: max_height_eq del: list.map set_simps)
    then show ?thesis using True ne start unfolding hashes uniq above by simp
  qed
qed

lemma checkpoint_from_list_valid:
  assumes "checkpoint_from_list xs = Ok cs" shows "valid_checkpoints cs" "set cs = set xs"
proof -
  have c: "cs = bt_of_list xs" "xs \<noteq> []" "0 \<in> set (map fst xs)" "distinct (map fst xs)" "distinct (map snd xs)"
      "NULL_HASH \<notin> set (map snd xs)" "\<forall>h \<in> set (map fst xs). h \<le> MAX_HEIGHT"
    using assms by (auto simp: checkpoint_from_list_eq not_less split: if_splits)
  show set: "set cs = set xs" using c by (simp add: set_bt_of_list)
  have len: "length cs = length xs" using c by (simp add: length_bt_of_list_eq)
  have "distinct (map snd cs)"
    using c(5) set len distinct_card_iff [of "map snd cs"] distinct_card_iff [of "map snd xs"] by simp
  moreover have sorted: "bt_sorted cs" using c(1) bt_sorted_of_list by simp
  moreover have ne: "cs \<noteq> []" using c(2) set by auto
  moreover have "fst (hd cs) = 0"
  proof -
    have "0 \<in> fst ` set cs" using c(3) set by simp
    with ne sorted show ?thesis by (cases cs) auto
  qed
  ultimately show "valid_checkpoints cs"
    using c(6,7) set by (simp add: valid_checkpoints_def list_all_iff)
qed

definition checkpoints_upto :: "checkpoints \<Rightarrow> height \<Rightarrow> nat" where
  "checkpoints_upto cs h = length (filter (\<lambda>x. fst x \<le> h) cs)"

lemma checkpoints_cut:
  assumes "bt_sorted cs"
  shows "filter (\<lambda>x. fst x \<le> h) cs = take (checkpoints_upto cs h) cs"
    "i < length cs \<Longrightarrow> fst (cs ! i) \<le> h \<longleftrightarrow> i < checkpoints_upto cs h"
  using assms
proof (induction cs arbitrary: i)
  case (Cons x cs)
  {
    case 1
    have "filter (\<lambda>x. fst x \<le> h) cs = []" if "\<not> fst x \<le> h"
      using that 1 by (auto simp: filter_empty_conv)
    then show ?case using 1 Cons.IH(1) by (cases "fst x \<le> h") (simp_all add: checkpoints_upto_def)
  next
    case 2
    show ?case
    proof (cases i)
      case 0
      have "checkpoints_upto (x # cs) h = 0" if "\<not> fst x \<le> h"
        using that 2(2) by (auto simp: checkpoints_upto_def filter_empty_conv)
      with 0 show ?thesis by (auto simp: checkpoints_upto_def)
    next
      case (Suc j)
      have "fst x < fst (cs ! j)" using 2 Suc by auto
      then have "fst x \<le> h" if "fst (cs ! j) \<le> h" using that by linarith
      then show ?thesis using 2 Suc Cons.IH(2) [of j] by (auto simp: checkpoints_upto_def)
    qed
  }
qed (simp_all add: checkpoints_upto_def)

lemma find_rev_upt:
  "0 < n \<Longrightarrow> n \<le> m \<Longrightarrow> (\<forall>i < m. P i \<longleftrightarrow> i < n) \<Longrightarrow> find P (rev [0..<m]) = Some (n - 1)"
proof (induction m)
  case (Suc m)
  then show ?case by (cases "n = Suc m") auto
qed simp

lemma find_first_index:
  "(\<forall>i < length xs. P (xs ! i) \<longleftrightarrow> n \<le> i) \<Longrightarrow> find P xs = (if n < length xs then Some (xs ! n) else None)"
  by (auto simp: find_Some_iff find_None_iff in_set_conv_nth)

text \<open>The three lookups in terms of the number of checkpoints at or below the height.\<close>

lemma checkpoint_lookups:
  assumes "valid_checkpoints cs"
  defines "n \<equiv> checkpoints_upto cs"
  shows "0 < n h" "n h \<le> length cs"
    "checkpoint_at_or_before cs h = Some (cs ! (n h - 1))"
    "checkpoint_after cs h = (if n h < length cs then Some (cs ! n h) else None)"
    "prev_checkpoint_index cs h = Ok (n h - 1)"
proof -
  have v: "bt_sorted cs" "cs \<noteq> []" "fst (hd cs) = 0" using assms(1) by (simp_all add: valid_checkpoints_def)
  note cut = checkpoints_cut [OF v(1)]
  show n0: "0 < n h" using cut(2) [of 0 h] v(2,3) by (simp add: n_def hd_conv_nth)
  show nl: "n h \<le> length cs" by (simp add: n_def checkpoints_upto_def)
  show "checkpoint_at_or_before cs h = Some (cs ! (n h - 1))"
    using n0 nl v(2)
    by (auto simp: checkpoint_at_or_before_def cut(1) last_conv_nth n_def Let_def min_def)
  show "checkpoint_after cs h = (if n h < length cs then Some (cs ! n h) else None)"
    unfolding checkpoint_after_def using cut(2) [of _ h] by (intro find_first_index) (auto simp: n_def not_le not_less [symmetric])
  have "find (\<lambda>i. fst (cs ! i) \<le> h) (rev [0..<length cs]) = Some (n h - 1)"
    using n0 nl cut(2) by (intro find_rev_upt) (auto simp: n_def)
  then show "prev_checkpoint_index cs h = Ok (n h - 1)" by (simp add: prev_checkpoint_index_def)
qed

section \<open>Properties\<close>

text \<open>
  C30. Building a checkpoint list accepts exactly the lists with unique heights, unique hashes, a
  genesis checkpoint, no null hash and no height above the maximum, and reports the first check that
  fails otherwise. An accepted list keeps precisely the given checkpoints, in height order.
\<close>

theorem checkpoint_from_list_exact:
  "checkpoint_from_list xs =
     (if xs = [] then Err NoCheckpoints
      else if 0 \<notin> set (map fst xs) then Err CheckpointsMustStartAtGenesis
      else if \<not> distinct (map fst xs) then Err CheckpointHeightsNotUnique
      else if \<not> distinct (map snd xs) then Err CheckpointHashesNotUnique
      else if NULL_HASH \<in> set (map snd xs) then Err NullCheckpointHash
      else if Max (set (map fst xs)) > MAX_HEIGHT then Err CheckpointHeightAboveMax
      else Ok (bt_of_list xs))
   \<and> (\<forall>cs. checkpoint_from_list xs = Ok cs \<longrightarrow> valid_checkpoints cs \<and> set cs = set xs)"
proof (rule conjI)
  have m: "(\<exists>h \<in> set (map fst xs). MAX_HEIGHT < h) \<longleftrightarrow> Max (set (map fst xs)) > MAX_HEIGHT" if "xs \<noteq> []"
    using that by (subst Max_gr_iff) auto
  show "checkpoint_from_list xs =
     (if xs = [] then Err NoCheckpoints
      else if 0 \<notin> set (map fst xs) then Err CheckpointsMustStartAtGenesis
      else if \<not> distinct (map fst xs) then Err CheckpointHeightsNotUnique
      else if \<not> distinct (map snd xs) then Err CheckpointHashesNotUnique
      else if NULL_HASH \<in> set (map snd xs) then Err NullCheckpointHash
      else if Max (set (map fst xs)) > MAX_HEIGHT then Err CheckpointHeightAboveMax
      else Ok (bt_of_list xs))"
    unfolding checkpoint_from_list_eq by (intro if_cong refl) (rule m)
qed (use checkpoint_from_list_valid in blast)

theorem checkpoint_from_list_exact_witness:
  "checkpoint_from_list [(400, ''ab''), (0, ''cd'')] = Ok [(0, ''cd''), (400, ''ab'')] \<and>
   valid_checkpoints [(0, ''cd''), (400, ''ab'')]"
proof -
  have "checkpoint_from_list [(400, ''ab''), (0, ''cd'')] = Ok [(0, ''cd''), (400, ''ab'')]"
    by (simp add: checkpoint_from_list_eq NULL_HASH_neq MAX_HEIGHT_def bt_of_list_def)
  then show ?thesis using checkpoint_from_list_exact [of "[(400, ''ab''), (0, ''cd'')]"] by blast
qed

text \<open>
  C31. On a valid checkpoint list the lookups by height agree: the previous checkpoint index never
  panics and points at the greatest checkpoint at or below the height, which is what
  \<open>checkpoint_at_or_before\<close> returns, and the entry after it is what \<open>checkpoint_after\<close> returns, the
  least checkpoint above the height; there is none exactly when the index is the last one.
\<close>

theorem checkpoint_lookups_agree:
  assumes "valid_checkpoints cs"
  shows "\<exists>i. prev_checkpoint_index cs h = (Ok i :: (unit, _) res) \<and> i < length cs \<and>
      checkpoint_at_or_before cs h = Some (cs ! i) \<and> fst (cs ! i) \<le> h \<and>
      checkpoint_after cs h = (if Suc i < length cs then Some (cs ! Suc i) else None) \<and>
      (\<forall>x \<in> set cs. fst x \<le> fst (cs ! i) \<or> (h < fst x \<and> Suc i < length cs \<and> fst (cs ! Suc i) \<le> fst x))"
proof -
  define n where "n = checkpoints_upto cs h"
  note l = checkpoint_lookups [OF assms, of h, folded n_def]
  have v: "bt_sorted cs" using assms by (simp add: valid_checkpoints_def)
  have le: "fst (cs ! i) \<le> fst (cs ! j)" if "i \<le> j" "j < length cs" for i j
    using sorted_wrt_nth_less [OF v, of i j] that by (cases "i = j") auto
  have "fst x \<le> fst (cs ! (n - 1)) \<or> (h < fst x \<and> n < length cs \<and> fst (cs ! n) \<le> fst x)" if x: "x \<in> set cs" for x
  proof -
    obtain j where j: "j < length cs" "x = cs ! j" using x by (metis in_set_conv_nth)
    show ?thesis
    proof (cases "j < n")
      case True then show ?thesis using le [of j "n - 1"] j l(1,2) by auto
    next
      case False then show ?thesis using le [of n j] j checkpoints_cut(2) [OF v j(1), of h] by (auto simp: n_def)
    qed
  qed
  moreover have "fst (cs ! (n - 1)) \<le> h" using checkpoints_cut(2) [OF v, of "n - 1" h] l(1,2) by (simp add: n_def)
  ultimately show ?thesis using l by (intro exI [of _ "n - 1"]) auto
qed

theorem checkpoint_lookups_agree_witness:
  "\<exists>i. prev_checkpoint_index [(0, ''cd''), (400, ''ab'')] 399 = (Ok i :: (unit, _) res) \<and> i < 2 \<and>
     checkpoint_after [(0, ''cd''), (400, ''ab'')] 399 = Some (400, ''ab'')"
proof -
  have "valid_checkpoints [(0, ''cd''), (400, ''ab'')]"
    by (simp add: valid_checkpoints_def NULL_HASH_neq MAX_HEIGHT_def)
  from checkpoint_lookups_agree [OF this, of 399] show ?thesis
    by (auto simp: checkpoint_after_def)
qed

end
