(* ===== verification/Testnet_Builder.thy ===== *)
theory Testnet_Builder
  imports "HOL-Library.AList" Funding_Streams Checkpoints
begin

text \<open>
  Configured test networks: the configuration types, the setters and checks of
  \<open>ParametersBuilder\<close>, Regtest, and the network kind
  (\<open>zakura-chain/src/parameters/network/testnet.rs\<close>, \<open>network.rs\<close>, \<open>network/error.rs\<close>).

  The record \<open>codec\<close> holds what the builder uses of code outside the repository and of the
  file system: the base58 decoding of transparent addresses, the decoding of hexadecimal block
  hashes, the generated Testnet checkpoint file, and the reading of a checkpoint file. An address
  is its string. Network names are ASCII strings. Test-only fields are left out.
\<close>

section \<open>Configuration types and errors\<close>

record codec =
  address_parses :: "address \<Rightarrow> bool"
  is_script_hash :: "address \<Rightarrow> bool"
  address_network_kind :: "address \<Rightarrow> network_kind"
  parse_block_hash :: "string \<Rightarrow> string option"
  testnet_checkpoints :: checkpoints
  read_to_string :: "string \<Rightarrow> string option"

datatype parameters_builder_error =
    ReservedNetworkName string
  | NetworkNameTooLong string nat
  | InvalidCharacter
  | ReservedNetworkMagic
  | InvalidGenesisHash
  | LockFundingStreams
  | InvalidActivationHeight
  | InvalidHeightZero
  | OutOfOrderUpgrades
  | InvaildDifficultyLimits
  | HalvingIntervalAfterFundingStreams
  | InvalidHalvingInterval
  | InvalidDerivedNsmSeedSchedule height subsidy_error
  | DerivedNsmSeedExceedsMaxMoney height nat
  | FailedToParseDefaultCheckpoint
  | FailedToReadCheckpointFile string
  | FailedToParseCheckpointFile string checkpoint_error
  | InvalidCustomCheckpoints
  | CheckpointGenesisMismatch
  | InsufficientCheckpointCoverage
  | FundingStreamAddressNotP2SH funding_stream_receiver address
  | OverlappingFundingStreams nat "height \<times> height" nat "height \<times> height"
  | IndivisibleFoundersReward height
  | InvalidLockboxDisbursementAddress address
  | LockboxDisbursementAddressNotP2SH address
  | InvalidLockboxDisbursementTotal

type_synonym 'a builder_res = "(parameters_builder_error, 'a) res"

definition RESERVED_NETWORK_NAMES :: "string list" where
  "RESERVED_NETWORK_NAMES =
     [''Mainnet'', ''Testnet'', ''Regtest'', ''MainnetKind'', ''TestnetKind'', ''RegtestKind'']"

definition MAX_NETWORK_NAME_LENGTH :: nat where
  "MAX_NETWORK_NAME_LENGTH = 30"

definition REGTEST_GENESIS_HASH :: string where
  "REGTEST_GENESIS_HASH = ''029f11d80ef9765602235e1bc9727e3eb6ba20839319f761fee920d63401e327''"

definition PRE_BLOSSOM_REGTEST_HALVING_INTERVAL :: height_diff where
  "PRE_BLOSSOM_REGTEST_HALVING_INTERVAL = 144"

record configured_recipient =
  cr_receiver :: funding_stream_receiver
  cr_numerator :: nat
  cr_addresses :: "address list option"

record configured_funding_streams =
  cfs_height_range :: "(height \<times> height) option"
  cfs_recipients :: "configured_recipient list option"

record configured_lockbox_disbursement =
  cld_address :: address
  cld_amount :: amount

record configured_activation_heights =
  before_overwinter :: "nat option"
  overwinter :: "nat option"
  sapling :: "nat option"
  blossom :: "nat option"
  heartwood :: "nat option"
  canopy :: "nat option"
  nu5 :: "nat option"
  nu6 :: "nat option"
  nu6_1 :: "nat option"
  nu6_2 :: "nat option"
  nu6_3 :: "nat option"
  nu7 :: "nat option"

datatype configured_checkpoints =
    DefaultCheckpoints bool
  | CheckpointPath string
  | HeightsAndHashes checkpoints

section \<open>Configured funding streams\<close>

definition new_for :: "funding_stream_receiver \<Rightarrow> configured_recipient" where
  "new_for receiver =
     (case receiver of
        Ecc \<Rightarrow> \<lparr>cr_receiver = Ecc, cr_numerator = 7, cr_addresses = Some TESTNET_FUNDING_STREAM_ECC_ADDRESSES\<rparr>
      | ZcashFoundation \<Rightarrow>
          \<lparr>cr_receiver = ZcashFoundation, cr_numerator = 5, cr_addresses = Some TESTNET_FUNDING_STREAM_ZF_ADDRESSES\<rparr>
      | MajorGrants \<Rightarrow>
          \<lparr>cr_receiver = MajorGrants, cr_numerator = 8, cr_addresses = Some TESTNET_FUNDING_STREAM_MG_ADDRESSES\<rparr>
      | Deferred \<Rightarrow> \<lparr>cr_receiver = receiver, cr_numerator = 0, cr_addresses = None\<rparr>)"

definition recipient_new :: "codec \<Rightarrow> nat \<Rightarrow> address list \<Rightarrow> ('e, funding_stream_recipient) res" where
  "recipient_new cd n as =
     bindr (assertr (list_all (address_parses cd) as)) (\<lambda>_. Ok \<lparr>numerator = n, addresses = as\<rparr>)"

definition into_recipient ::
  "codec \<Rightarrow> configured_recipient \<Rightarrow> ('e, funding_stream_receiver \<times> funding_stream_recipient) res" where
  "into_recipient cd c =
     bindr (recipient_new cd (cr_numerator c) (case cr_addresses c of Some as \<Rightarrow> as | None \<Rightarrow> []))
       (\<lambda>r. Ok (cr_receiver c, r))"

definition from_funding_streams :: "funding_streams \<Rightarrow> configured_funding_streams" where
  "from_funding_streams fs =
     \<lparr>cfs_height_range = Some (range_start fs, range_end fs),
      cfs_recipients =
        Some (map (\<lambda>x. \<lparr>cr_receiver = fst x, cr_numerator = numerator (snd x),
                       cr_addresses = Some (addresses (snd x))\<rparr>) (recipients fs))\<rparr>"

definition convert_with_default ::
  "codec \<Rightarrow> configured_funding_streams \<Rightarrow> funding_streams option \<Rightarrow> ('e, funding_streams) res" where
  "convert_with_default cd c default_funding_streams =
     bindr (case cfs_height_range c of
              Some r \<Rightarrow> Ok r
            | None \<Rightarrow> mapr (\<lambda>fs. (range_start fs, range_end fs)) (expect_some default_funding_streams))
       (\<lambda>height_range.
     bindr (case cfs_recipients c of
              Some rs \<Rightarrow>
                bindr (assertr (distinct (map cr_receiver rs))) (\<lambda>_. collect_res (into_recipient cd) rs)
            | None \<Rightarrow> mapr recipients (expect_some default_funding_streams))
       (\<lambda>rs.
     bindr (assertr (fst height_range \<le> snd height_range)) (\<lambda>_.
     bindr (expect_ok (try_fold (\<lambda>acc x. ok_or () (u64_checked (acc + numerator (snd x)))) 0 rs))
       (\<lambda>sum_numerators.
     bindr (assertr (sum_numerators \<le> FUNDING_STREAM_RECEIVER_DENOMINATOR)) (\<lambda>_.
     Ok \<lparr>range_start = fst height_range, range_end = snd height_range, recipients = rs\<rparr>)))))"

definition into_funding_streams_unchecked ::
  "codec \<Rightarrow> configured_funding_streams \<Rightarrow> ('e, funding_streams) res" where
  "into_funding_streams_unchecked cd c =
     bindr (expect_some (cfs_height_range c)) (\<lambda>r.
     bindr (collect_res (into_recipient cd) (case cfs_recipients c of Some rs \<Rightarrow> rs | None \<Rightarrow> [])) (\<lambda>rs.
     Ok \<lparr>range_start = fst r, range_end = snd r,
         recipients = AList.clearjunk (rev rs)\<rparr>))"

section \<open>Configured activation heights\<close>

definition no_activation_heights :: configured_activation_heights where
  "no_activation_heights =
     \<lparr>before_overwinter = None, overwinter = None, sapling = None, blossom = None, heartwood = None,
      canopy = None, nu5 = None, nu6 = None, nu6_1 = None, nu6_2 = None, nu6_3 = None, nu7 = None\<rparr>"

primrec set_activation_height ::
  "network_upgrade \<Rightarrow> nat \<Rightarrow> configured_activation_heights \<Rightarrow> configured_activation_heights" where
  "set_activation_height Genesis h c = c"
| "set_activation_height BeforeOverwinter h c = c\<lparr>before_overwinter := Some h\<rparr>"
| "set_activation_height Overwinter h c = c\<lparr>overwinter := Some h\<rparr>"
| "set_activation_height Sapling h c = c\<lparr>sapling := Some h\<rparr>"
| "set_activation_height Blossom h c = c\<lparr>blossom := Some h\<rparr>"
| "set_activation_height Heartwood h c = c\<lparr>heartwood := Some h\<rparr>"
| "set_activation_height Canopy h c = c\<lparr>canopy := Some h\<rparr>"
| "set_activation_height Nu5 h c = c\<lparr>nu5 := Some h\<rparr>"
| "set_activation_height Nu6 h c = c\<lparr>nu6 := Some h\<rparr>"
| "set_activation_height Nu6_1 h c = c\<lparr>nu6_1 := Some h\<rparr>"
| "set_activation_height Nu6_2 h c = c\<lparr>nu6_2 := Some h\<rparr>"
| "set_activation_height Nu6_3 h c = c\<lparr>nu6_3 := Some h\<rparr>"
| "set_activation_height Nu7 h c = c\<lparr>nu7 := Some h\<rparr>"

definition from_activation_map :: "activation_map \<Rightarrow> configured_activation_heights" where
  "from_activation_map m =
     foldl (\<lambda>c x. set_activation_height (snd x) (fst x) c) no_activation_heights m"

text \<open>\<open>Option::or\<close>.\<close>

definition opt_or :: "'a option \<Rightarrow> 'a option \<Rightarrow> 'a option" where
  "opt_or a b = (case a of Some x \<Rightarrow> Some x | None \<Rightarrow> b)"

definition for_regtest :: "configured_activation_heights \<Rightarrow> configured_activation_heights" where
  "for_regtest c =
     (let overwinter' = opt_or (opt_or (overwinter c) (before_overwinter c)) (Some 1);
          sapling' = opt_or (sapling c) overwinter';
          blossom' = opt_or (blossom c) sapling';
          heartwood' = opt_or (heartwood c) blossom';
          canopy' = opt_or (canopy c) heartwood'
      in c\<lparr>overwinter := overwinter', sapling := sapling', blossom := blossom',
           heartwood := heartwood', canopy := canopy'\<rparr>)"

text \<open>The configured upgrades in upgrade order.\<close>

definition configured_upgrades :: "configured_activation_heights \<Rightarrow> (nat \<times> network_upgrade) list" where
  "configured_upgrades c =
     List.map_filter (\<lambda>(h, nu). map_option (\<lambda>k. (k, nu)) h)
       [(before_overwinter c, BeforeOverwinter), (overwinter c, Overwinter), (sapling c, Sapling),
        (blossom c, Blossom), (heartwood c, Heartwood), (canopy c, Canopy), (nu5 c, Nu5), (nu6 c, Nu6),
        (nu6_1 c, Nu6_1), (nu6_2 c, Nu6_2), (nu6_3 c, Nu6_3), (nu7 c, Nu7)]"

definition configured_heights :: "configured_activation_heights \<Rightarrow> nat list" where
  "configured_heights c = map fst (configured_upgrades c)"

definition activation_heights_or ::
  "configured_activation_heights \<Rightarrow> configured_activation_heights \<Rightarrow> configured_activation_heights" where
  "activation_heights_or c base =
     \<lparr>before_overwinter = opt_or (before_overwinter c) (before_overwinter base),
      overwinter = opt_or (overwinter c) (overwinter base),
      sapling = opt_or (sapling c) (sapling base),
      blossom = opt_or (blossom c) (blossom base),
      heartwood = opt_or (heartwood c) (heartwood base),
      canopy = opt_or (canopy c) (canopy base),
      nu5 = opt_or (nu5 c) (nu5 base),
      nu6 = opt_or (nu6 c) (nu6 base),
      nu6_1 = opt_or (nu6_1 c) (nu6_1 base),
      nu6_2 = opt_or (nu6_2 c) (nu6_2 base),
      nu6_3 = opt_or (nu6_3 c) (nu6_3 base),
      nu7 = opt_or (nu7 c) (nu7 base)\<rparr>"

section \<open>Setters of the builder\<close>

definition ascii_alphanumeric :: "char \<Rightarrow> bool" where
  "ascii_alphanumeric c =
     (let n = of_char c :: nat in
      48 \<le> n \<and> n \<le> 57 \<or> 65 \<le> n \<and> n \<le> 90 \<or> 97 \<le> n \<and> n \<le> 122)"

definition with_network_name :: "string \<Rightarrow> parameters_builder \<Rightarrow> parameters_builder builder_res" where
  "with_network_name name b =
     (if name \<in> set RESERVED_NETWORK_NAMES then Err (ReservedNetworkName name)
      else if MAX_NETWORK_NAME_LENGTH < length name then Err (NetworkNameTooLong name MAX_NETWORK_NAME_LENGTH)
      else if \<not> list_all (\<lambda>x. ascii_alphanumeric x \<or> x = CHR ''_'') name then Err InvalidCharacter
      else Ok (b\<lparr>b_network_name := name\<rparr>))"

definition with_network_magic :: "magic \<Rightarrow> parameters_builder \<Rightarrow> parameters_builder builder_res" where
  "with_network_magic m b =
     (if m \<in> set [MAGIC_MAINNET, MAGIC_REGTEST] then Err ReservedNetworkMagic
      else Ok (b\<lparr>b_network_magic := m\<rparr>))"

definition with_genesis_hash :: "codec \<Rightarrow> string \<Rightarrow> parameters_builder \<Rightarrow> parameters_builder builder_res" where
  "with_genesis_hash cd genesis_hash b =
     bindr (ok_or InvalidGenesisHash (parse_block_hash cd genesis_hash)) (\<lambda>h.
     Ok (b\<lparr>b_genesis_hash := h\<rparr>))"

text \<open>
  The order check walks the upgrade list and the activation map side by side: \<open>upgrades\<close> are the
  upgrades of the whole map, \<open>rest\<close> the entries the iterator still holds.
\<close>

primrec check_upgrade_order ::
  "network_upgrade list \<Rightarrow> network_upgrade list \<Rightarrow> activation_map \<Rightarrow> unit builder_res" where
  "check_upgrade_order upgrades [] rest = Ok ()"
| "check_upgrade_order upgrades (expected # es) rest =
     (if expected \<notin> set upgrades then check_upgrade_order upgrades es rest
      else case rest of
             [] \<Rightarrow> check_upgrade_order upgrades es []
           | (height, network_upgrade) # rest' \<Rightarrow>
               if height = 0 then Err InvalidHeightZero
               else if network_upgrade \<noteq> expected then Err OutOfOrderUpgrades
               else check_upgrade_order upgrades es rest')"

definition with_activation_heights ::
  "configured_activation_heights \<Rightarrow> parameters_builder \<Rightarrow> parameters_builder builder_res" where
  "with_activation_heights c b =
     (if b_should_lock_funding_stream_address_period b then Err LockFundingStreams
      else
        bindr (collect_res
                 (\<lambda>(h, nu). bindr (ok_or InvalidActivationHeight (height_try_from_u32 h)) (\<lambda>k. Ok (k, nu)))
                 (configured_upgrades c)) (\<lambda>entries.
        let activation_heights = bt_of_list entries in
        bindr (check_upgrade_order (map snd activation_heights) NETWORK_UPGRADES activation_heights) (\<lambda>_.
        Ok (b\<lparr>b_activation_heights :=
               foldl (\<lambda>m (h, nu). bt_insert h nu m)
                 (filter (\<lambda>x. fst x < 1) (b_activation_heights b)) activation_heights\<rparr>))))"

definition with_activation_height_overlay ::
  "configured_activation_heights \<Rightarrow> parameters_builder \<Rightarrow> parameters_builder builder_res" where
  "with_activation_height_overlay overlay b =
     (let combined = activation_heights_or overlay (from_activation_map (b_activation_heights b));
          heights = configured_heights combined
      in if card (set heights) \<noteq> length heights then Err InvalidActivationHeight
         else with_activation_heights combined b)"

definition with_slow_start_interval :: "height \<Rightarrow> parameters_builder \<Rightarrow> parameters_builder" where
  "with_slow_start_interval h b = b\<lparr>b_slow_start_interval := h\<rparr>"

definition with_funding_streams ::
  "codec \<Rightarrow> configured_funding_streams list \<Rightarrow> parameters_builder \<Rightarrow> ('e, parameters_builder) res" where
  "with_funding_streams cd cs b =
     bindr (collect_res
              (\<lambda>(idx, streams).
                 bindr (convert_with_default cd streams
                          (if idx < length TESTNET_FUNDING_STREAMS then Some (TESTNET_FUNDING_STREAMS ! idx)
                           else None))
                   (\<lambda>fs. Ok (fs, cfs_height_range streams = None)))
              (List.enumerate 0 cs)) (\<lambda>ps.
     Ok (b\<lparr>b_funding_streams := map fst ps, b_inherited_funding_stream_ranges := map snd ps,
           b_should_lock_funding_stream_address_period := True\<rparr>))"

definition clear_funding_streams :: "parameters_builder \<Rightarrow> parameters_builder" where
  "clear_funding_streams b = b\<lparr>b_funding_streams := [], b_inherited_funding_stream_ranges := []\<rparr>"

definition to_network_unchecked :: "parameters_builder \<Rightarrow> ('e, network) res" where
  "to_network_unchecked b = mapr Testnet (finish b)"

definition extend_funding_streams :: "parameters_builder \<Rightarrow> ('e, parameters_builder) res" where
  "extend_funding_streams b =
     bindr (to_network_unchecked b) (\<lambda>net.
     bindr (collect_res
              (\<lambda>(fs, net_fs).
                 bindr (num_funding_stream_addresses_required (range_start net_fs) (range_end net_fs) net)
                   (\<lambda>n. extend_recipient_addresses n fs))
              (zip (b_funding_streams b) (all_funding_streams net))) (\<lambda>fss.
     Ok (b\<lparr>b_funding_streams := fss @ drop (length fss) (b_funding_streams b)\<rparr>)))"

definition with_target_difficulty_limit ::
  "expanded_difficulty \<Rightarrow> parameters_builder \<Rightarrow> parameters_builder builder_res" where
  "with_target_difficulty_limit v b =
     bindr (to_compact v) (\<lambda>c.
     bindr (to_expanded c) (\<lambda>e.
     bindr (ok_or InvaildDifficultyLimits e) (\<lambda>limit.
     Ok (b\<lparr>b_target_difficulty_limit := limit\<rparr>))))"

definition with_disable_pow :: "bool \<Rightarrow> parameters_builder \<Rightarrow> parameters_builder" where
  "with_disable_pow d b = b\<lparr>b_disable_pow := d\<rparr>"

definition with_max_block_time_start_height :: "height \<Rightarrow> parameters_builder \<Rightarrow> parameters_builder" where
  "with_max_block_time_start_height h b = b\<lparr>b_max_block_time_start_height := Some h\<rparr>"

definition with_unshielded_coinbase_spends :: "bool \<Rightarrow> parameters_builder \<Rightarrow> parameters_builder" where
  "with_unshielded_coinbase_spends v b = b\<lparr>b_should_allow_unshielded_coinbase_spends := v\<rparr>"

definition with_halving_interval :: "height_diff \<Rightarrow> parameters_builder \<Rightarrow> parameters_builder builder_res" where
  "with_halving_interval pre b =
     (if b_should_lock_funding_stream_address_period b then Err HalvingIntervalAfterFundingStreams
      else
        bindr (ok_or InvalidHalvingInterval
                 (case i64_checked (pre * target_spacing Genesis) of
                    Some seconds \<Rightarrow> if 0 < seconds then Some seconds else None
                  | None \<Rightarrow> None)) (\<lambda>_.
        bindr (ok_or InvalidHalvingInterval (i64_checked (pre * int BLOSSOM_POW_TARGET_SPACING_RATIO))) (\<lambda>post.
        Ok (b\<lparr>b_pre_blossom_halving_interval := pre, b_post_blossom_halving_interval := post\<rparr>))))"

definition with_lockbox_disbursements ::
  "configured_lockbox_disbursement list \<Rightarrow> parameters_builder \<Rightarrow> parameters_builder" where
  "with_lockbox_disbursements ds b =
     b\<lparr>b_lockbox_disbursements := map (\<lambda>d. (cld_address d, cld_amount d)) ds\<rparr>"

definition with_checkpoints ::
  "codec \<Rightarrow> configured_checkpoints \<Rightarrow> parameters_builder \<Rightarrow> parameters_builder builder_res" where
  "with_checkpoints cd c b =
     bindr (case c of
              DefaultCheckpoints True \<Rightarrow> Ok Testnet_Checkpoint_List
            | DefaultCheckpoints False \<Rightarrow>
                map_err (\<lambda>_. FailedToParseDefaultCheckpoint)
                  (mapr Checkpoint_List (checkpoint_from_list [(0, b_genesis_hash b)]))
            | CheckpointPath path_buf \<Rightarrow>
                (case read_to_string cd path_buf of
                   None \<Rightarrow> Err (FailedToReadCheckpointFile path_buf)
                 | Some raw \<Rightarrow>
                     map_err (FailedToParseCheckpointFile path_buf)
                       (mapr Checkpoint_List (checkpoint_from_str (parse_block_hash cd) raw)))
            | HeightsAndHashes items \<Rightarrow>
                map_err (\<lambda>_. InvalidCustomCheckpoints) (mapr Checkpoint_List (checkpoint_from_list items)))
       (\<lambda>cs. Ok (b\<lparr>b_checkpoints := cs\<rparr>))"

definition clear_checkpoints :: "codec \<Rightarrow> parameters_builder \<Rightarrow> parameters_builder builder_res" where
  "clear_checkpoints cd b = with_checkpoints cd (DefaultCheckpoints False) b"

definition with_temporary_orchard_disabling_soft_fork_height ::
  "height \<Rightarrow> parameters_builder \<Rightarrow> parameters_builder" where
  "with_temporary_orchard_disabling_soft_fork_height h b =
     b\<lparr>b_temporary_orchard_disabling_soft_fork_height := Some h\<rparr>"

definition disable_temporary_orchard_disabling_soft_fork :: "parameters_builder \<Rightarrow> parameters_builder" where
  "disable_temporary_orchard_disabling_soft_fork b =
     b\<lparr>b_temporary_orchard_disabling_soft_fork_height := None\<rparr>"

definition with_initial_nsm_value_balance :: "amount \<Rightarrow> parameters_builder \<Rightarrow> parameters_builder" where
  "with_initial_nsm_value_balance balance b = b\<lparr>b_initial_nsm_value_balance := Some balance\<rparr>"

section \<open>Checks of a built network\<close>

definition check_funding_stream_ranges_do_not_overlap :: "funding_streams list \<Rightarrow> unit builder_res" where
  "check_funding_stream_ranges_do_not_overlap fss =
     for_each (\<lambda>(i, j).
       let first = fss ! i; second = fss ! j in
       if range_start first < range_end second \<and> range_start second < range_end first
       then Err (OverlappingFundingStreams i (range_start first, range_end first)
                   j (range_start second, range_end second))
       else Ok ())
     (concat (map (\<lambda>i. map (Pair i) [Suc i..<length fss]) [0..<length fss]))"

definition check_funding_stream_address_period ::
  "codec \<Rightarrow> funding_streams \<Rightarrow> network \<Rightarrow> ('e, unit) res" where
  "check_funding_stream_address_period cd fs net =
     bindr (num_funding_stream_addresses_required (range_start fs) (range_end fs) net)
       (\<lambda>expected_min_num_addresses.
     for_each (\<lambda>x.
       if fst x = Deferred then Ok ()
       else
         bindr (assertr (expected_min_num_addresses \<le> length (addresses (snd x)))) (\<lambda>_.
         for_each (\<lambda>a. assertr (address_network_kind cd a = TestnetKind)) (addresses (snd x))))
     (recipients fs))"

definition check_funding_stream_address_types :: "codec \<Rightarrow> funding_streams \<Rightarrow> unit builder_res" where
  "check_funding_stream_address_types cd fs =
     for_each (\<lambda>x.
       if fst x = Deferred then Ok ()
       else for_each (\<lambda>a. if \<not> is_script_hash cd a then Err (FundingStreamAddressNotP2SH (fst x) a) else Ok ())
              (addresses (snd x)))
     (recipients fs)"

definition check_lockbox_disbursements :: "codec \<Rightarrow> (address \<times> amount) list \<Rightarrow> unit builder_res" where
  "check_lockbox_disbursements cd ds =
     bindr (try_fold (\<lambda>acc x.
              if \<not> address_parses cd (fst x) then Err (InvalidLockboxDisbursementAddress (fst x))
              else if \<not> is_script_hash cd (fst x) then Err (LockboxDisbursementAddressNotP2SH (fst x))
              else map_err (\<lambda>_. InvalidLockboxDisbursementTotal) (amount_add NonNegative acc (snd x)))
            0 ds) (\<lambda>_. Ok ())"

definition check_derived_nsm_seed_schedule :: "network \<Rightarrow> unit builder_res" where
  "check_derived_nsm_seed_schedule net =
     (case net of
        Mainnet \<Rightarrow> Ok ()
      | Testnet params \<Rightarrow>
          if p_initial_nsm_value_balance params \<noteq> None then Ok ()
          else
            bindr (case activation_height Nu7 net of
                     None \<Rightarrow> Ok None
                   | Some activation \<Rightarrow> res_ok (height_previous activation)) (\<lambda>h.
            case h of
              None \<Rightarrow> Ok ()
            | Some seed_height \<Rightarrow>
                bindr (map_err (InvalidDerivedNsmSeedSchedule seed_height)
                         (scheduled_issuance_zatoshis seed_height net)) (\<lambda>scheduled_issuance.
                if nat \<bar>MAX_MONEY\<bar> < scheduled_issuance
                then Err (DerivedNsmSeedExceedsMaxMoney seed_height scheduled_issuance)
                else Ok ())))"

definition FOUNDERS_REWARD_DIVISOR :: nat where
  "FOUNDERS_REWARD_DIVISOR = 5"

definition check_founders_reward_is_exact :: "network \<Rightarrow> unit builder_res" where
  "check_founders_reward_is_exact net =
     (let interval = slow_start_interval net;
          canopy_height = (case activation_height Canopy net of Some h \<Rightarrow> h | None \<Rightarrow> MAX_HEIGHT)
      in if interval \<le> 1 \<or> canopy_height \<le> 1 then Ok ()
         else if activation_height Blossom net = None then Ok ()
         else
           bindr (height_for_first_halving net) (\<lambda>first_halving.
           if first_halving \<le> 1 then Ok ()
           else
             let slow_start_rate = MAX_BLOCK_SUBSIDY div interval in
             if \<not> FOUNDERS_REWARD_DIVISOR dvd slow_start_rate
             then Err (IndivisibleFoundersReward interval) else Ok ()))"

definition check_checkpoint_coverage :: "codec \<Rightarrow> parameters \<Rightarrow> unit builder_res" where
  "check_checkpoint_coverage cd params =
     (let cs = checkpoint_entries (testnet_checkpoints cd) (p_checkpoints params) in
      if checkpoint_hash cs 0 \<noteq> Some (p_genesis_hash params) then Err CheckpointGenesisMismatch
      else
        bindr (max_height cs) (\<lambda>top_height.
        bindr (mandatory_checkpoint_height (Testnet params)) (\<lambda>mandatory.
        if top_height < mandatory then Err InsufficientCheckpointCoverage else Ok ())))"

definition to_network :: "codec \<Rightarrow> parameters_builder \<Rightarrow> network builder_res" where
  "to_network cd b =
     bindr (finish b) (\<lambda>params.
     let net = Testnet params in
     bindr (check_funding_stream_ranges_do_not_overlap (all_funding_streams net)) (\<lambda>_.
     bindr (for_each (\<lambda>fs.
              bindr (check_funding_stream_address_period cd fs net) (\<lambda>_.
              check_funding_stream_address_types cd fs))
            (all_funding_streams net)) (\<lambda>_.
     bindr (check_founders_reward_is_exact net) (\<lambda>_.
     bindr (check_lockbox_disbursements cd (b_lockbox_disbursements b)) (\<lambda>_.
     bindr (check_derived_nsm_seed_schedule net) (\<lambda>_.
     bindr (check_checkpoint_coverage cd params) (\<lambda>_.
     Ok net)))))))"

definition is_compatible_with_default_parameters :: "parameters_builder \<Rightarrow> ('e, bool) res" where
  "is_compatible_with_default_parameters b =
     bindr (finish b) (\<lambda>ps.
     bindr (finish default_builder) (\<lambda>ds. Ok (
       b_activation_heights b = b_activation_heights default_builder \<and>
       b_network_magic b = b_network_magic default_builder \<and>
       b_genesis_hash b = b_genesis_hash default_builder \<and>
       b_slow_start_interval b = b_slow_start_interval default_builder \<and>
       p_funding_streams ps = p_funding_streams ds \<and>
       b_target_difficulty_limit b = b_target_difficulty_limit default_builder \<and>
       b_disable_pow b = b_disable_pow default_builder \<and>
       (case b_max_block_time_start_height b of Some h \<Rightarrow> h | None \<Rightarrow> TESTNET_MAX_TIME_START_HEIGHT) =
         TESTNET_MAX_TIME_START_HEIGHT \<and>
       b_should_allow_unshielded_coinbase_spends b = b_should_allow_unshielded_coinbase_spends default_builder \<and>
       b_pre_blossom_halving_interval b = b_pre_blossom_halving_interval default_builder \<and>
       b_post_blossom_halving_interval b = b_post_blossom_halving_interval default_builder \<and>
       b_lockbox_disbursements b = b_lockbox_disbursements default_builder \<and>
       b_initial_nsm_value_balance b = Some TESTNET_INITIAL_NSM_VALUE_BALANCE)))"

section \<open>Regtest\<close>

record regtest_parameters =
  rt_activation_heights :: configured_activation_heights
  rt_funding_streams :: "configured_funding_streams list option"
  rt_lockbox_disbursements :: "configured_lockbox_disbursement list option"
  rt_checkpoints :: "configured_checkpoints option"
  rt_max_block_time_start_height :: "height option"
  rt_extend_funding_stream_addresses_as_required :: "bool option"
  rt_initial_nsm_value_balance :: "amount option"

definition default_regtest_parameters :: regtest_parameters where
  "default_regtest_parameters =
     \<lparr>rt_activation_heights = no_activation_heights, rt_funding_streams = None,
      rt_lockbox_disbursements = None, rt_checkpoints = None, rt_max_block_time_start_height = None,
      rt_extend_funding_stream_addresses_as_required = None, rt_initial_nsm_value_balance = None\<rparr>"

definition REGTEST_DIFFICULTY_LIMIT :: expanded_difficulty where
  "REGTEST_DIFFICULTY_LIMIT = word_of_nat (le_nat (replicate 32 0x0f))"

definition new_regtest :: "codec \<Rightarrow> regtest_parameters \<Rightarrow> parameters builder_res" where
  "new_regtest cd r =
     bindr (with_genesis_hash cd REGTEST_GENESIS_HASH default_builder) (\<lambda>b.
     bindr (with_target_difficulty_limit REGTEST_DIFFICULTY_LIMIT b) (\<lambda>b.
     let b = disable_temporary_orchard_disabling_soft_fork
               (with_slow_start_interval MIN_HEIGHT
                 (with_unshielded_coinbase_spends True (with_disable_pow True b)))
     in
     bindr (with_activation_heights (for_regtest (rt_activation_heights r)) b) (\<lambda>b.
     bindr (with_halving_interval PRE_BLOSSOM_REGTEST_HALVING_INTERVAL b) (\<lambda>b.
     bindr (with_funding_streams cd (case rt_funding_streams r of Some fs \<Rightarrow> fs | None \<Rightarrow> []) b) (\<lambda>b.
     let b = with_lockbox_disbursements (case rt_lockbox_disbursements r of Some ds \<Rightarrow> ds | None \<Rightarrow> []) b in
     bindr (with_checkpoints cd
              (case rt_checkpoints r of Some c \<Rightarrow> c | None \<Rightarrow> DefaultCheckpoints False) b) (\<lambda>b.
     let b = with_max_block_time_start_height
               (case rt_max_block_time_start_height r of Some h \<Rightarrow> h | None \<Rightarrow> 2) b
     in
     bindr (if rt_extend_funding_stream_addresses_as_required r = Some True
            then extend_funding_streams b else Ok b) (\<lambda>b.
     let b = (case rt_initial_nsm_value_balance r of
                Some balance \<Rightarrow> with_initial_nsm_value_balance balance b | None \<Rightarrow> b)
     in
     bindr (for_each (check_funding_stream_address_types cd) (b_funding_streams b)) (\<lambda>_.
     bindr (check_lockbox_disbursements cd (b_lockbox_disbursements b)) (\<lambda>_.
     bindr (finish b) (\<lambda>ps.
     let params = ps\<lparr>p_network_name := ''Regtest'', p_network_magic := MAGIC_REGTEST\<rparr> in
     bindr (check_derived_nsm_seed_schedule (Testnet params)) (\<lambda>_.
     bindr (check_checkpoint_coverage cd params) (\<lambda>_.
     Ok params))))))))))))"

definition default_regtest :: "codec \<Rightarrow> ('e, parameters) res" where
  "default_regtest cd = expect_ok (new_regtest cd default_regtest_parameters)"

definition is_regtest :: "codec \<Rightarrow> parameters \<Rightarrow> ('e, bool) res" where
  "is_regtest cd ps =
     (if p_network_magic ps \<noteq> MAGIC_REGTEST then Ok False
      else bindr (default_regtest cd) (\<lambda>d. Ok (
        p_network_name ps = p_network_name d \<and>
        p_genesis_hash ps = p_genesis_hash d \<and>
        p_slow_start_interval ps = p_slow_start_interval d \<and>
        p_slow_start_shift ps = p_slow_start_shift d \<and>
        p_target_difficulty_limit ps = p_target_difficulty_limit d \<and>
        p_disable_pow ps = p_disable_pow d \<and>
        p_should_allow_unshielded_coinbase_spends ps = p_should_allow_unshielded_coinbase_spends d \<and>
        p_pre_blossom_halving_interval ps = p_pre_blossom_halving_interval d \<and>
        p_post_blossom_halving_interval ps = p_post_blossom_halving_interval d)))"

definition network_kind_of :: "codec \<Rightarrow> network \<Rightarrow> ('e, network_kind) res" where
  "network_kind_of cd net =
     (case net of
        Mainnet \<Rightarrow> Ok MainnetKind
      | Testnet params \<Rightarrow> mapr (\<lambda>r. if r then RegtestKind else TestnetKind) (is_regtest cd params))"

section \<open>Activation heights\<close>

lemma set_bt_of_list_subset: "set (bt_of_list xs) \<subseteq> set xs"
proof (induction xs rule: rev_induct)
  case (snoc x xs)
  then show ?case using set_bt_insert_subset [of "fst x" "snd x" "bt_of_list xs"] by (auto simp: bt_of_list_snoc)
qed (simp add: bt_of_list_def)

lemma bt_insert_last: "\<forall>x \<in> set m. fst x < k \<Longrightarrow> bt_insert k v m = m @ [(k, v)]"
  by (induction m) auto

lemma foldl_bt_insert: "bt_sorted (acc @ m) \<Longrightarrow> foldl (\<lambda>m (h, nu). bt_insert h nu m) acc m = acc @ m"
proof (induction m arbitrary: acc)
  case (Cons x m)
  have "bt_insert (fst x) (snd x) acc = acc @ [x]"
    using Cons.prems by (subst bt_insert_last) (auto simp: sorted_wrt_append)
  then show ?case using Cons by (simp add: case_prod_beta)
qed simp

lemma NETWORK_UPGRADES_all: "set NETWORK_UPGRADES = UNIV" "sorted_wrt (<) NETWORK_UPGRADES" "distinct NETWORK_UPGRADES"
proof -
  show "set NETWORK_UPGRADES = UNIV"
  proof (rule UNIV_eq_I [symmetric])
    fix x show "x \<in> set NETWORK_UPGRADES" by (cases x) (simp_all add: NETWORK_UPGRADES_def)
  qed
  show "sorted_wrt (<) NETWORK_UPGRADES" by (simp add: NETWORK_UPGRADES_def nu_order)
  show "distinct NETWORK_UPGRADES" by (simp add: NETWORK_UPGRADES_def)
qed

lemma check_upgrade_order_Ok:
  assumes "check_upgrade_order nus es rest = Ok ()" "length (filter (\<lambda>e. e \<in> set nus) es) = length rest"
  shows "map snd rest = filter (\<lambda>e. e \<in> set nus) es \<and> (\<forall>x \<in> set rest. fst x \<noteq> 0)"
  using assms
proof (induction es arbitrary: rest)
  case (Cons e es)
  show ?case
  proof (cases "e \<in> set nus")
    case False
    then show ?thesis using Cons.prems Cons.IH [of rest] by simp
  next
    case True
    then obtain h nu rest' where rest: "rest = (h, nu) # rest'" using Cons.prems(2) by (cases rest) auto
    then show ?thesis using True Cons.prems Cons.IH [of rest'] by (auto split: if_splits)
  qed
qed simp

lemma check_upgrade_order_map:
  assumes "distinct (map snd m)" "check_upgrade_order (map snd m) NETWORK_UPGRADES m = Ok ()"
  shows "sorted_wrt (<) (map snd m)" "\<forall>x \<in> set m. fst x \<noteq> 0"
proof -
  have "card (set (filter (\<lambda>e. e \<in> set (map snd m)) NETWORK_UPGRADES)) = length m"
    using NETWORK_UPGRADES_all(1) distinct_card [OF assms(1)] by (simp add: Collect_mem_eq)
  then have "length (filter (\<lambda>e. e \<in> set (map snd m)) NETWORK_UPGRADES) = length m"
    by (metis NETWORK_UPGRADES_all(3) distinct_card distinct_filter)
  note ok = check_upgrade_order_Ok [OF assms(2) this]
  show "\<forall>x \<in> set m. fst x \<noteq> 0" by (rule ok [THEN conjunct2])
  have eq: "map snd m = filter (\<lambda>e. e \<in> set (map snd m)) NETWORK_UPGRADES" by (rule ok [THEN conjunct1])
  show "sorted_wrt (<) (map snd m)" using sorted_wrt_filter [OF NETWORK_UPGRADES_all(2)] by (subst eq)
qed

lemma set_map_filter_snd:
  "set (map snd (List.map_filter (\<lambda>(h, nu). map_option (\<lambda>k. (k, nu)) h) xs)) \<subseteq> set (map snd xs)"
  by (induction xs) (auto simp: map_filter_simps split: option.splits)

lemma distinct_map_filter_snd:
  "distinct (map snd xs) \<Longrightarrow>
     distinct (map snd (List.map_filter (\<lambda>(h, nu). map_option (\<lambda>k. (k, nu)) h) xs))"
proof (induction xs)
  case (Cons x xs)
  then show ?case using set_map_filter_snd [of xs] by (cases x; cases "fst x") (auto simp: map_filter_simps)
qed (simp add: map_filter_simps)

lemma configured_upgrades_snd:
  "distinct (map snd (configured_upgrades c))" "Genesis \<notin> set (map snd (configured_upgrades c))"
proof -
  show "distinct (map snd (configured_upgrades c))"
    unfolding configured_upgrades_def by (rule distinct_map_filter_snd) simp
  show "Genesis \<notin> set (map snd (configured_upgrades c))"
    unfolding configured_upgrades_def by (rule contra_subsetD [OF set_map_filter_snd]) simp
qed

lemma entries_distinct:
  assumes "distinct (map fst m)" "set m \<subseteq> set xs" "distinct (map snd xs)"
  shows "distinct (map snd m)"
proof -
  have "inj_on snd (set m)"
    using assms(2,3) by (meson distinct_map inj_on_subset)
  then show ?thesis using assms(1) by (simp add: distinct_map)
qed

lemma valid_activation_below_1:
  assumes "valid_activation m" shows "filter (\<lambda>x. fst x < 1) m = [(0, Genesis)]"
proof (cases m)
  case (Cons x xs)
  have v: "bt_sorted m" "(0, Genesis) \<in> set m" using assms by (auto simp: valid_activation_def)
  have "x = (0, Genesis)" using v Cons by auto
  moreover have "\<forall>y \<in> set xs. 0 < fst y" using v Cons calculation by auto
  ultimately show ?thesis using Cons by (auto simp: filter_empty_conv)
qed (use assms in \<open>simp add: valid_activation_def\<close>)

lemma with_activation_heights_valid:
  assumes v: "valid_activation (b_activation_heights b)" and ok: "with_activation_heights c b = Ok b'"
  shows "valid_activation (b_activation_heights b')" "\<exists>m. b' = b\<lparr>b_activation_heights := m\<rparr>"
proof -
  let ?conv = "\<lambda>(h, nu). bindr (ok_or InvalidActivationHeight (height_try_from_u32 h)) (\<lambda>k. Ok (k, nu))"
  from ok obtain entries where e: "collect_res ?conv (configured_upgrades c) = Ok entries"
    and o: "check_upgrade_order (map snd (bt_of_list entries)) NETWORK_UPGRADES (bt_of_list entries) = Ok ()"
    and b': "b' = b\<lparr>b_activation_heights :=
               foldl (\<lambda>m (h, nu). bt_insert h nu m)
                 (filter (\<lambda>x. fst x < 1) (b_activation_heights b)) (bt_of_list entries)\<rparr>"
    by (auto simp: with_activation_heights_def bindr_eq_Ok Let_def split: if_splits)
  let ?m = "bt_of_list entries"
  have all2: "list_all2 (\<lambda>x y. y = x \<and> fst y \<le> MAX_HEIGHT) (configured_upgrades c) entries"
    using e unfolding collect_res_Ok
    by (rule list_all2_mono) (auto simp: bindr_eq_Ok height_try_from_u32_def split: if_splits)
  then have "list_all2 (=) (configured_upgrades c) entries" by (rule list_all2_mono) simp
  then have ent: "entries = configured_upgrades c" by (simp add: list.rel_eq)
  have bound: "\<forall>x \<in> set entries. fst x \<le> MAX_HEIGHT"
  proof
    fix x assume "x \<in> set entries"
    then obtain i where "i < length entries" "x = entries ! i" by (metis in_set_conv_nth)
    then show "fst x \<le> MAX_HEIGHT" using list_all2_nthD2 [OF all2, of i] by metis
  qed
  have sub: "set ?m \<subseteq> set (configured_upgrades c)" using set_bt_of_list_subset [of entries] ent by simp
  have d: "distinct (map snd ?m)"
    by (rule entries_distinct [OF bt_sorted_distinct [OF bt_sorted_of_list] sub configured_upgrades_snd(1)])
  note order = check_upgrade_order_map [OF d o]
  have s: "bt_sorted ([(0, Genesis)] @ ?m)" using bt_sorted_of_list [of entries] order(2) by auto
  then have h: "b_activation_heights b' = (0, Genesis) # ?m"
    using foldl_bt_insert [OF s] valid_activation_below_1 [OF v] by (simp add: b')
  have "Genesis < nu" if "nu \<in> set (map snd ?m)" for nu
  proof -
    have "nu \<in> set (map snd (configured_upgrades c))" using that sub by auto
    then have "nu \<noteq> Genesis" using configured_upgrades_snd(2) [of c] by blast
    then show ?thesis by (cases nu) (simp_all add: nu_order)
  qed
  moreover have "\<forall>x \<in> set ?m. fst x \<le> MAX_HEIGHT" using sub ent bound by blast
  ultimately show "valid_activation (b_activation_heights b')"
    using s order(1) unfolding h valid_activation_def by auto
  show "\<exists>m. b' = b\<lparr>b_activation_heights := m\<rparr>" using b' by blast
qed

section \<open>The invariant of the builder\<close>

definition valid_builder :: "parameters_builder \<Rightarrow> bool" where
  "valid_builder b \<longleftrightarrow>
     valid_activation (b_activation_heights b) \<and> in_u32 (b_slow_start_interval b) \<and>
     0 < b_pre_blossom_halving_interval b \<and> in_i64 (b_pre_blossom_halving_interval b * 150) \<and>
     b_post_blossom_halving_interval b = b_pre_blossom_halving_interval b * 2 \<and>
     list_all (\<lambda>fs. total_numerator fs \<le> 100) (b_funding_streams b)"

text \<open>The builders a caller can reach: the default one, and the result of any setter.\<close>

inductive built :: "codec \<Rightarrow> parameters_builder \<Rightarrow> bool" for cd where
  default_b: "built cd default_builder"
| name: "built cd b \<Longrightarrow> with_network_name s b = Ok b' \<Longrightarrow> built cd b'"
| magic: "built cd b \<Longrightarrow> with_network_magic m b = Ok b' \<Longrightarrow> built cd b'"
| genesis: "built cd b \<Longrightarrow> with_genesis_hash cd s b = Ok b' \<Longrightarrow> built cd b'"
| heights: "built cd b \<Longrightarrow> with_activation_heights c b = Ok b' \<Longrightarrow> built cd b'"
| overlay: "built cd b \<Longrightarrow> with_activation_height_overlay c b = Ok b' \<Longrightarrow> built cd b'"
| slow_start: "built cd b \<Longrightarrow> in_u32 h \<Longrightarrow> built cd (with_slow_start_interval h b)"
| streams: "built cd b \<Longrightarrow> with_funding_streams cd cs b = (Ok b' :: (unit, _) res) \<Longrightarrow> built cd b'"
| clear_streams: "built cd b \<Longrightarrow> built cd (clear_funding_streams b)"
| extend: "built cd b \<Longrightarrow> extend_funding_streams b = (Ok b' :: (unit, _) res) \<Longrightarrow> built cd b'"
| limit: "built cd b \<Longrightarrow> with_target_difficulty_limit v b = Ok b' \<Longrightarrow> built cd b'"
| pow: "built cd b \<Longrightarrow> built cd (with_disable_pow d b)"
| max_time: "built cd b \<Longrightarrow> built cd (with_max_block_time_start_height h b)"
| unshielded: "built cd b \<Longrightarrow> built cd (with_unshielded_coinbase_spends d b)"
| interval: "built cd b \<Longrightarrow> with_halving_interval i b = Ok b' \<Longrightarrow> built cd b'"
| lockbox: "built cd b \<Longrightarrow> built cd (with_lockbox_disbursements ds b)"
| checkpoints: "built cd b \<Longrightarrow> with_checkpoints cd cps b = Ok b' \<Longrightarrow> built cd b'"
| clear_cps: "built cd b \<Longrightarrow> clear_checkpoints cd b = Ok b' \<Longrightarrow> built cd b'"
| soft_fork: "built cd b \<Longrightarrow> built cd (with_temporary_orchard_disabling_soft_fork_height h b)"
| no_soft_fork: "built cd b \<Longrightarrow> built cd (disable_temporary_orchard_disabling_soft_fork b)"
| seed: "built cd b \<Longrightarrow> built cd (with_initial_nsm_value_balance a b)"

lemmas simple_setters =
  with_slow_start_interval_def clear_funding_streams_def with_disable_pow_def
  with_max_block_time_start_height_def with_unshielded_coinbase_spends_def with_lockbox_disbursements_def
  with_temporary_orchard_disabling_soft_fork_height_def disable_temporary_orchard_disabling_soft_fork_def
  with_initial_nsm_value_balance_def

lemmas checked_setters =
  with_network_name_def with_network_magic_def with_genesis_hash_def with_target_difficulty_limit_def
  with_checkpoints_def clear_checkpoints_def

lemma try_fold_numerators:
  "try_fold (\<lambda>acc x. ok_or () (u64_checked (acc + numerator (snd x)))) n rs = Ok t \<Longrightarrow>
     t = n + sum_list (map (\<lambda>x. numerator (snd x)) rs)"
proof (induction rs arbitrary: n)
  case (Cons x rs)
  from Cons.prems obtain m where m: "u64_checked (n + numerator (snd x)) = Some m"
    and t: "try_fold (\<lambda>acc x. ok_or () (u64_checked (acc + numerator (snd x)))) m rs = Ok t"
    by (auto simp: bindr_eq_Ok)
  have "m = n + numerator (snd x)" using m by (simp add: u64_checked_def split: if_splits)
  then show ?case using Cons.IH [OF t] by simp
qed simp

lemma convert_with_default_numerators:
  "convert_with_default cd c d = (Ok fs :: ('e, _) res) \<Longrightarrow> total_numerator fs \<le> 100"
  by (auto simp: convert_with_default_def bindr_eq_Ok total_numerator_def FUNDING_STREAM_RECEIVER_DENOMINATOR_def
      dest!: try_fold_numerators)

lemma with_funding_streams_valid:
  assumes "valid_builder b" "with_funding_streams cd cs b = (Ok b' :: ('e, _) res)"
  shows "valid_builder b'"
proof -
  from assms(2) obtain ps where ps:
    "collect_res (\<lambda>(idx, streams). bindr (convert_with_default cd streams
          (if idx < length TESTNET_FUNDING_STREAMS then Some (TESTNET_FUNDING_STREAMS ! idx) else None))
        (\<lambda>fs. Ok (fs, cfs_height_range streams = None))) (List.enumerate 0 cs) = (Ok ps :: ('e, _) res)"
    and b': "b' = b\<lparr>b_funding_streams := map fst ps, b_inherited_funding_stream_ranges := map snd ps,
           b_should_lock_funding_stream_address_period := True\<rparr>"
    by (auto simp: with_funding_streams_def bindr_eq_Ok)
  have "total_numerator (fst p) \<le> 100" if "p \<in> set ps" for p
  proof -
    from collect_res_in [OF ps that] obtain c d where
      "convert_with_default cd c d = (Ok (fst p) :: ('e, _) res)"
      by (auto simp: bindr_eq_Ok)
    then show ?thesis by (rule convert_with_default_numerators)
  qed
  then show ?thesis using assms(1) by (auto simp: b' valid_builder_def list_all_iff)
qed

lemma extend_recipients_numerators:
  "extend_recipients n rs = (Ok rs' :: ('e, _) res) \<Longrightarrow>
     map (\<lambda>x. numerator (snd x)) rs' = map (\<lambda>x. numerator (snd x)) rs"
  by (induction rs arbitrary: rs') (auto simp: bindr_eq_Ok extend_addresses_def split: if_splits)

lemma extend_funding_streams_valid:
  assumes v: "valid_builder b" and ok: "extend_funding_streams b = (Ok b' :: ('e, _) res)"
  shows "valid_builder b'"
proof -
  from ok obtain net fss where fss:
    "collect_res (\<lambda>(fs, net_fs).
        bindr (num_funding_stream_addresses_required (range_start net_fs) (range_end net_fs) net)
          (\<lambda>n. extend_recipient_addresses n fs)) (zip (b_funding_streams b) (all_funding_streams net))
      = (Ok fss :: ('e, _) res)"
    and b': "b' = b\<lparr>b_funding_streams := fss @ drop (length fss) (b_funding_streams b)\<rparr>"
    by (auto simp: extend_funding_streams_def bindr_eq_Ok)
  have "total_numerator fs \<le> 100" if fs: "fs \<in> set fss" for fs
  proof -
    from collect_res_in [OF fss fs] obtain old n where old: "old \<in> set (b_funding_streams b)"
      and n: "extend_recipient_addresses n old = (Ok fs :: ('e, _) res)"
      by (auto simp: bindr_eq_Ok) (meson set_zip_leftD)
    from n have "total_numerator fs = total_numerator old"
      by (auto simp: extend_recipient_addresses_def bindr_eq_Ok total_numerator_def
          dest!: extend_recipients_numerators)
    then show ?thesis using v old by (simp add: valid_builder_def list_all_iff)
  qed
  then show ?thesis
    using v by (auto simp: b' valid_builder_def list_all_iff dest: in_set_dropD)
qed

lemma with_activation_heights_builder:
  "valid_builder b \<Longrightarrow> with_activation_heights c b = Ok b' \<Longrightarrow> valid_builder b'"
  using with_activation_heights_valid [of b c b'] by (auto simp: valid_builder_def)

lemma built_valid: "built cd b \<Longrightarrow> valid_builder b"
proof (induction rule: built.induct)
  case default_b
  show ?case
    using testnet_activation_valid
    by (simp add: valid_builder_def default_builder_def SLOW_START_INTERVAL_def in_u32_def in_i64_def
        PRE_BLOSSOM_HALVING_INTERVAL_def POST_BLOSSOM_HALVING_INTERVAL_def BLOSSOM_POW_TARGET_SPACING_RATIO_def
        TESTNET_FUNDING_STREAMS_def total_numerator_def)
next
  case (heights b c b')
  then show ?case by (blast intro: with_activation_heights_builder)
next
  case (overlay b c b')
  then show ?case
    by (auto simp: with_activation_height_overlay_def Let_def split: if_splits
        intro: with_activation_heights_builder)
next
  case (streams b cs b')
  then show ?case by (blast intro: with_funding_streams_valid)
next
  case (extend b b')
  then show ?case by (blast intro: extend_funding_streams_valid)
next
  case (interval b i b')
  then show ?case
    by (auto simp: with_halving_interval_def valid_builder_def bindr_eq_Ok target_spacing_def spacing_constants
        BLOSSOM_POW_TARGET_SPACING_RATIO_def zero_less_mult_iff split: if_splits option.splits)
qed (auto simp: simple_setters checked_setters valid_builder_def bindr_eq_Ok split: if_splits)

section \<open>Built networks\<close>

lemma i64_op_eq_Ok: "i64_op x = Ok y \<longleftrightarrow> in_i64 x \<and> y = x"
  by (auto simp: i64_op_def)

lemma i64_div_euclid_eq_Ok:
  "i64_div_euclid a b = Ok y \<longleftrightarrow>
     b \<noteq> 0 \<and> in_i64 (if 0 < b then a div b else - (a div (- b))) \<and> y = (if 0 < b then a div b else - (a div (- b)))"
  by (auto simp: i64_div_euclid_def i64_op_eq_Ok)

lemma i64_op_not_Err: "i64_op x \<noteq> Err e" "i64_div_euclid x y \<noteq> Err e"
  by (auto simp: i64_op_def i64_checked_def i64_div_euclid_def)

lemma expect_some_not_Err [simp]: "expect_some m \<noteq> Err e"
  by (cases m) simp_all

context valid_net
begin

lemma short_interval_panics:
  assumes "post_blossom_halving_interval net < 48"
  shows "funding_stream_address_period h net = (Panic :: ('e, _) res)"
proof -
  have c: "funding_stream_address_change_interval net = 0"
    using assms interval_bounds(1) by (simp add: funding_stream_address_change_interval_def sdiv_nonneg)
  have "height_for_first_halving net \<noteq> (Err e :: ('e, _) res)" for e
    unfolding height_for_first_halving_def height_for_halving_eq
    by (auto split: network.splits)
  then have "funding_stream_address_period h net \<noteq> (Err e :: ('e, _) res)" for e
    by (auto simp: funding_stream_address_period_def period_offset_def Let_def bindr_eq_Err i64_op_not_Err
        split: option.splits if_splits)
  moreover have "funding_stream_address_period h net \<noteq> (Ok p :: ('e, _) res)" for p
    by (auto simp: funding_stream_address_period_def c Let_def bindr_eq_Ok i64_div_euclid_eq_Ok i64_op_eq_Ok
        split: option.splits if_splits)
  ultimately show "funding_stream_address_period h net = (Panic :: ('e, _) res)"
    by (cases "funding_stream_address_period h net :: ('e, _) res") auto
qed

lemma period_any_error:
  assumes "funding_stream_address_period h net = (Ok p :: ('a, _) res)"
  shows "funding_stream_address_period h net = (Ok p :: ('b, _) res)"
proof -
  have off: "period_offset k net = (Ok x :: ('a, _) res) \<Longrightarrow> period_offset k net = (Ok x :: ('b, _) res)" for k x
    by (auto simp: period_offset_def bindr_eq_Ok i64_op_eq_Ok dest: first_halving_any_error(1) [where ?'b = 'b])
  show ?thesis
    using assms
    by (auto simp: funding_stream_address_period_def Let_def bindr_eq_Ok i64_op_eq_Ok i64_div_euclid_eq_Ok
        dest!: off split: option.splits if_splits)
qed

lemma required_any_error:
  assumes "num_funding_stream_addresses_required x y net = (Ok n :: ('a, _) res)"
  shows "num_funding_stream_addresses_required x y net = (Ok n :: ('b, _) res)"
  using assms
  by (auto simp: num_funding_stream_addresses_required_def bindr_eq_Ok
      dest!: period_any_error [where ?'a = 'a and ?'b = 'b] split: if_splits)

lemma spacing_before_canopy:
  "upgrade_at net h < Canopy \<Longrightarrow> 5 dvd MAX_BLOCK_SUBSIDY * nat (target_spacing (upgrade_at net h)) div 150"
  by (cases "upgrade_at net h") (auto simp: target_spacing_def spacing_constants nu_order)

lemma first_halving_least:
  assumes "height_for_first_halving net = (Ok f :: ('e, _) res)" "f \<le> 1" "halving_index net h = 0"
  shows "h < f"
proof (cases net)
  case Mainnet
  then show ?thesis using assms(1,2) by (simp add: public_first_halving)
next
  case (Testnet ps)
  have "height_for_halving 1 net = (Ok (Some f) :: ('e, _) res)"
    using assms(1,2) Testnet
    by (auto simp: height_for_first_halving_def bindr_eq_Ok TESTNET_FIRST_HALVING_def split: if_splits)
  then have "1 \<le> halving_index net MAX_HEIGHT" "f = (LEAST h. 1 \<le> halving_index net h)"
    by (auto simp: height_for_halving_eq split: if_splits)
  then show ?thesis using halving_height(3) [of 1 h] assms(3) by auto
qed

lemma founders_exact:
  assumes ok: "check_founders_reward_is_exact net = Ok ()" and canopy: "activation_height Canopy net = Some c"
    and k: "halving_index net h = 0" and u: "upgrade_at net h < Canopy"
  shows "5 dvd scheduled_subsidy net h"
proof (cases "h < slow_start_interval net")
  case False
  then show ?thesis using spacing_before_canopy [OF u] by (simp add: scheduled_subsidy_def k)
next
  case True
  note slow = True
  have at_genesis: ?thesis if "h = 0"
  proof (cases "slow_start_interval net = 1")
    case False
    then have "0 < slow_start_shift net" using slow that by (simp add: slow_start_shift_eq)
    then show ?thesis using that slow by (simp add: scheduled_subsidy_def k Let_def)
  qed (use that k in \<open>simp add: scheduled_subsidy_def slow_start_shift_eq\<close>)
  have hc: "h < c" using u canopy upgrade_at_ge_iff [of Canopy h] by (auto simp: not_le [symmetric])
  have b: "activation_height Blossom net \<noteq> None"
    using activation_height_mono [of Blossom Canopy c] canopy by (auto simp: nu_order)
  show ?thesis
  proof (cases "slow_start_interval net \<le> 1 \<or> c \<le> 1")
    case True
    then show ?thesis using slow hc by (intro at_genesis) linarith
  next
    case False
    with ok canopy b obtain f where f: "height_for_first_halving net = (Ok f :: (parameters_builder_error, _) res)"
      and r: "f \<le> 1 \<or> 5 dvd MAX_BLOCK_SUBSIDY div slow_start_interval net"
      by (auto simp: check_founders_reward_is_exact_def Let_def bindr_eq_Ok FOUNDERS_REWARD_DIVISOR_def
          split: if_splits)
    show ?thesis
    proof (cases "f \<le> 1")
      case True
      then show ?thesis using first_halving_least [OF f True k] by (intro at_genesis) linarith
    next
      case False
      then have "5 dvd MAX_BLOCK_SUBSIDY div slow_start_interval net" using r by simp
      then show ?thesis using slow by (simp add: scheduled_subsidy_def k Let_def)
    qed
  qed
qed

end

lemma total_numerator_end [simp]: "total_numerator (fs\<lparr>range_end := e\<rparr>) = total_numerator fs"
  by (simp add: total_numerator_def)

lemma finish_valid:
  assumes v: "valid_builder b" and ok: "finish b = (Ok ps :: ('e, _) res)"
  shows "valid_parameters ps" "list_all (\<lambda>fs. total_numerator fs \<le> 100) (p_funding_streams ps)"
proof -
  show "valid_parameters ps"
    using v ok
    by (auto simp: finish_def Let_def valid_builder_def valid_parameters_def bindr_eq_Ok split: if_splits)
  have "p_funding_streams ps = b_funding_streams b \<or>
      (\<exists>e. REVISION_2_FUNDING_STREAMS_INDEX < length (b_funding_streams b) \<and>
        p_funding_streams ps = (b_funding_streams b)[REVISION_2_FUNDING_STREAMS_INDEX :=
          (b_funding_streams b ! REVISION_2_FUNDING_STREAMS_INDEX)\<lparr>range_end := e\<rparr>])"
    using ok
    by (auto simp: finish_def Let_def bindr_eq_Ok with_nu7_adjusted_end_height_def split: if_splits)
  then show "list_all (\<lambda>fs. total_numerator fs \<le> 100) (p_funding_streams ps)"
  proof (elim disjE exE conjE)
    let ?i = REVISION_2_FUNDING_STREAMS_INDEX
    fix e assume i: "?i < length (b_funding_streams b)"
      and ps: "p_funding_streams ps = (b_funding_streams b)[?i := (b_funding_streams b ! ?i)\<lparr>range_end := e\<rparr>]"
    have "\<forall>fs \<in> set (b_funding_streams b). total_numerator fs \<le> 100"
      using v by (simp add: valid_builder_def list_all_iff)
    then show ?thesis
      using i set_update_subset_insert [of "b_funding_streams b" ?i] unfolding ps list_all_iff by fastforce
  qed (use v in \<open>simp add: valid_builder_def\<close>)
qed

lemma finish_default_interval:
  "\<exists>ps. finish (default_builder\<lparr>b_pre_blossom_halving_interval := i, b_post_blossom_halving_interval := j\<rparr>) =
       (Ok ps :: ('e, parameters) res) \<and>
     p_post_blossom_halving_interval ps = j \<and>
     p_funding_streams ps =
       TESTNET_FUNDING_STREAMS[2 := (TESTNET_FUNDING_STREAMS ! 2)\<lparr>range_end := 4497948\<rparr>]"
proof -
  have e: "range_end (TESTNET_FUNDING_STREAMS ! 2) = 4476000"
    by (simp add: TESTNET_FUNDING_STREAMS_def)
  show ?thesis
    unfolding finish_def default_builder_def
    by (simp add: Let_def REVISION_2_FUNDING_STREAMS_INDEX_def activation_height_def activation_map_def
        testnet_map_nu7 with_nu7_adjusted_end_height_def nu7_adjusted_funding_stream_height_def e
        u32_checked_def in_u32_def MAX_HEIGHT_def spacing_constants)
qed

lemma to_network_Ok:
  assumes "to_network cd b = Ok net"
  obtains ps where "net = Testnet ps" "finish b = (Ok ps :: (parameters_builder_error, _) res)"
    "check_funding_stream_ranges_do_not_overlap (all_funding_streams net) = Ok ()"
    "\<forall>fs \<in> set (all_funding_streams net).
       check_funding_stream_address_period cd fs net = (Ok () :: (parameters_builder_error, _) res) \<and>
       check_funding_stream_address_types cd fs = Ok ()"
    "check_founders_reward_is_exact net = Ok ()" "\<exists>c. activation_height Canopy net = Some c"
  using assms
  by (auto simp: to_network_def Let_def bindr_eq_Ok check_checkpoint_coverage_def mandatory_checkpoint_height_def
      split: if_splits)

lemma checked_streams_covered:
  assumes v: "valid_net net"
    and c: "\<forall>fs \<in> set (all_funding_streams net).
       check_funding_stream_address_period cd fs net = (Ok () :: ('e, _) res)"
  shows "streams_covered net"
  unfolding streams_covered_def list_all_iff [where xs = "all_funding_streams net"]
proof
  fix fs assume fs: "fs \<in> set (all_funding_streams net)"
  then obtain n where n: "num_funding_stream_addresses_required (range_start fs) (range_end fs) net = (Ok n :: ('e, _) res)"
    and a: "\<forall>x \<in> set (recipients fs). fst x \<noteq> Deferred \<longrightarrow> n \<le> length (addresses (snd x))"
    using c by (fastforce simp: check_funding_stream_address_period_def bindr_eq_Ok split: if_splits)
  show "case (num_funding_stream_addresses_required (range_start fs) (range_end fs) net :: (unit, nat) res) of
      Ok n \<Rightarrow> list_all (\<lambda>x. fst x \<noteq> Deferred \<longrightarrow> n \<le> length (addresses (snd x))) (recipients fs)
    | _ \<Rightarrow> False"
    using a by (simp add: valid_net.required_any_error [OF v n] list_all_iff)
qed

lemma no_overlap:
  assumes ok: "check_funding_stream_ranges_do_not_overlap fss = Ok ()"
    and ij: "i < j" "j < length fss" and h: "height_range_contains (fss ! i) h" "height_range_contains (fss ! j) h"
  shows False
proof -
  have "(i, j) \<in> set (concat (map (\<lambda>i. map (Pair i) [Suc i..<length fss]) [0..<length fss]))"
    using ij by (auto intro!: bexI [of _ i])
  then have "\<not> (range_start (fss ! i) < range_end (fss ! j) \<and> range_start (fss ! j) < range_end (fss ! i))"
    using ok unfolding check_funding_stream_ranges_do_not_overlap_def for_each_Ok Let_def by fastforce
  then show False using h by (auto simp: height_range_contains_def)
qed

lemma checked_founders:
  assumes "valid_net net" "check_founders_reward_is_exact net = Ok ()" "activation_height Canopy net = Some c"
    and "h \<le> MAX_HEIGHT"
  shows "founders_reward net h = Ok (founders_share net h)"
  using valid_net.founders_exact [OF assms(1-3)] by (auto simp: valid_net.founders_reward_eq [OF assms(1,4)])

lemma stream_shares_recipient:
  assumes "(r, v) \<in> set (stream_shares net h s)"
  obtains fs rcp where "funding_streams_at net h = Some fs" "fs \<in> set (all_funding_streams net)"
    "recipient fs r = Some rcp" "(r, rcp) \<in> set (recipients fs)"
proof -
  from assms obtain fs x where fs: "funding_streams_at net h = Some fs" and x: "x \<in> set (recipients fs)" "fst x = r"
    by (cases "funding_streams_at net h") (auto simp: stream_shares_def split: if_splits)
  have "r \<in> fst ` set (recipients fs)" using x by force
  then obtain rcp where "recipient fs r = Some rcp"
    unfolding recipient_def by (metis map_of_eq_None_iff not_Some_eq)
  moreover from this have "(r, rcp) \<in> set (recipients fs)" by (auto simp: recipient_def dest: map_of_SomeD)
  moreover have "fs \<in> set (all_funding_streams net)" using fs by (auto simp: funding_streams_at_def find_Some_iff)
  ultimately show thesis using that fs by blast
qed

section \<open>Properties\<close>

text \<open>
  C9. The invariant of configured networks: whatever sequence of setters produced a builder, a
  network that \<open>to_network\<close> accepts is valid (its activation heights are in upgrade order and start
  with genesis at height zero, its halving interval is positive and consistent), no height is in two
  of its funding streams, and the numerators of each stream sum to at most the denominator.
\<close>

theorem built_network_is_valid:
  assumes "built cd b" "to_network cd b = Ok net"
  shows "valid_network net \<and>
    (\<forall>i j h. i < j \<and> j < length (all_funding_streams net) \<longrightarrow>
       \<not> (height_range_contains (all_funding_streams net ! i) h \<and>
          height_range_contains (all_funding_streams net ! j) h)) \<and>
    (\<forall>fs \<in> set (all_funding_streams net). total_numerator fs \<le> FUNDING_STREAM_RECEIVER_DENOMINATOR)"
proof -
  obtain ps where ps: "net = Testnet ps" "finish b = (Ok ps :: (parameters_builder_error, _) res)"
    and o: "check_funding_stream_ranges_do_not_overlap (all_funding_streams net) = Ok ()"
    by (rule to_network_Ok [OF assms(2)])
  note f = finish_valid [OF built_valid [OF assms(1)] ps(2)]
  have "valid_network net" using f(1) ps(1) by (simp add: valid_network_def)
  moreover have "\<forall>fs \<in> set (all_funding_streams net). total_numerator fs \<le> FUNDING_STREAM_RECEIVER_DENOMINATOR"
    using f(2) ps(1) by (simp add: all_funding_streams_def list_all_iff FUNDING_STREAM_RECEIVER_DENOMINATOR_def)
  ultimately show ?thesis using no_overlap [OF o] by blast
qed

text \<open>
  C3. Configured networks can pay every block: on a network that \<open>to_network\<close> accepted, for every
  height whose block subsidy is defined, the founders' reward does not panic, the funding stream
  values and the miner's subsidy are defined and add up to the block subsidy, and each funding stream
  output, other than the deferred one, has a P2SH address to pay to.
\<close>

theorem built_network_pays_every_block:
  assumes "built cd b" "to_network cd b = Ok net" "h \<le> MAX_HEIGHT"
    and "block_subsidy h net nsm = Ok s" "\<forall>x. nsm = Some x \<longrightarrow> valid_amount NonNegative x"
  shows "\<exists>m f vs. founders_reward net h = (Ok f :: (unit, _) res) \<and>
      funding_stream_values h net s = Ok vs \<and> miner_subsidy h net s = Ok m \<and>
      m + f + sum_list (map snd vs) = s \<and> 0 \<le> m \<and> 0 \<le> f \<and>
      (\<forall>v \<in> set vs. 0 \<le> snd v \<and> (fst v \<noteq> Deferred \<longrightarrow>
        (\<exists>a. funding_stream_address h net (fst v) = (Ok (Some a) :: (unit, _) res) \<and> is_script_hash cd a)))"
proof -
  obtain ps c where ps: "net = Testnet ps" "finish b = (Ok ps :: (parameters_builder_error, _) res)"
    and checks: "\<forall>fs \<in> set (all_funding_streams net).
       check_funding_stream_address_period cd fs net = (Ok () :: (parameters_builder_error, _) res) \<and>
       check_funding_stream_address_types cd fs = Ok ()"
    and fc: "check_founders_reward_is_exact net = Ok ()" "activation_height Canopy net = Some c"
    by (rule to_network_Ok [OF assms(2)]) blast
  note fin = finish_valid [OF built_valid [OF assms(1)] ps(2)]
  have v: "valid_net net" using fin(1) ps(1) by (intro valid_net.intro) (simp add: valid_network_def)
  have s: "int (scheduled_subsidy net h) \<le> s" "100 * s \<le> MAX_MONEY"
    using valid_net.block_subsidy_bounds [OF v assms(3-5)] by auto
  have s0: "0 \<le> s" using s(1) by linarith
  have n: "\<forall>fs. funding_streams_at net h = Some fs \<longrightarrow> total_numerator fs \<le> 100"
    using fin(2) ps(1) by (auto simp: funding_streams_at_def all_funding_streams_def list_all_iff find_Some_iff)
  have f: "founders_reward net h = (Ok (founders_share net h) :: (unit, _) res)"
    by (rule checked_founders [OF v fc assms(3)])
  then have "founders_reward net h \<noteq> (Panic :: (unit, _) res)" by simp
  note miner = valid_net.miner_subsidy_eq [OF v assms(3) s n this]
  note shares = stream_shares_sum [OF s0 n]
  have cov: "streams_covered net" using checks by (intro checked_streams_covered [OF v]) blast
  have addr: "\<exists>a. funding_stream_address h net (fst x) = (Ok (Some a) :: (unit, _) res) \<and> is_script_hash cd a"
    if x: "x \<in> set (stream_shares net h s)" "fst x \<noteq> Deferred" for x
  proof -
    obtain fs rcp where fs: "funding_streams_at net h = Some fs" "fs \<in> set (all_funding_streams net)"
      "recipient fs (fst x) = Some rcp" "(fst x, rcp) \<in> set (recipients fs)"
      using x(1) by (metis prod.collapse stream_shares_recipient)
    from valid_net.address_found [OF v cov fs(1,3) x(2)] obtain a where
      a: "a \<in> set (addresses rcp)" "funding_stream_address h net (fst x) = (Ok (Some a) :: (unit, _) res)" by blast
    have "is_script_hash cd a"
      using checks fs(2,4) x(2) a(1)
      by (fastforce simp: check_funding_stream_address_types_def split: if_splits)
    with a show ?thesis by blast
  qed
  show ?thesis
    using f miner valid_net.funding_stream_values_eq [OF v s0 s(2) n] shares(3) addr
      founders_share_bounds(1) [of net h]
    by (intro exI [of _ "s - founders_share net h - sum_list (map snd (stream_shares net h s))"]
        exI [of _ "founders_share net h"] exI [of _ "stream_shares net h s"]) auto
qed

definition example_codec :: codec where
  "example_codec =
     \<lparr>address_parses = (\<lambda>_. True), is_script_hash = (\<lambda>_. True), address_network_kind = (\<lambda>_. TestnetKind),
      parse_block_hash = Some, testnet_checkpoints = [(0, TESTNET_GENESIS_HASH), (2000000, ''ab'')],
      read_to_string = (\<lambda>_. None)\<rparr>"

definition example_builder :: parameters_builder where
  "example_builder =
     with_lockbox_disbursements [] (with_initial_nsm_value_balance 0
       (with_slow_start_interval 0 (clear_funding_streams default_builder)))"

lemma example_built: "built example_codec example_builder"
  unfolding example_builder_def
  by (intro built.lockbox built.seed built.slow_start built.clear_streams built.default_b) (simp add: in_u32_def)

lemma example_network: "\<exists>net. to_network example_codec example_builder = Ok net"
proof -
  define ps where "ps = unwrap (finish example_builder)"
  have f: "finish example_builder = (Ok ps :: (parameters_builder_error, _) res)"
    by (simp add: ps_def finish_def example_builder_def default_builder_def simple_setters Let_def)
  have p: "p_funding_streams ps = []" "p_slow_start_interval ps = 0" "p_checkpoints ps = Testnet_Checkpoint_List"
      "p_genesis_hash ps = TESTNET_GENESIS_HASH" "p_activation_heights ps = TESTNET_ACTIVATION_HEIGHTS"
      "p_initial_nsm_value_balance ps = Some 0"
    by (simp_all add: ps_def finish_def example_builder_def default_builder_def simple_setters Let_def)
  have canopy: "activation_height Canopy (Testnet ps) = Some 1028500"
    using testnet_activation_valid
    by (simp add: activation_height_def activation_map_def p valid_activation_def map_activation_height_eq)
      (simp add: TESTNET_ACTIVATION_HEIGHTS_def nu_order)
  have lockbox: "check_lockbox_disbursements example_codec (b_lockbox_disbursements example_builder) = Ok ()"
    by (simp add: check_lockbox_disbursements_def example_builder_def simple_setters)
  have cov: "check_checkpoint_coverage example_codec ps = Ok ()"
    by (simp add: check_checkpoint_coverage_def checkpoint_entries_def p example_codec_def checkpoint_hash_def
        max_height_eq mandatory_checkpoint_height_def canopy height_previous_eq MAX_HEIGHT_def)
  show ?thesis
    by (simp add: to_network_def f Let_def all_funding_streams_def p lockbox cov
        check_funding_stream_ranges_do_not_overlap_def check_founders_reward_is_exact_def slow_start_interval_def
        check_derived_nsm_seed_schedule_def)
qed

theorem built_network_is_valid_witness:
  "\<exists>net. to_network example_codec example_builder = Ok net \<and> valid_network net"
proof -
  obtain net where "to_network example_codec example_builder = Ok net" using example_network by blast
  with built_network_is_valid [OF example_built this] show ?thesis by blast
qed

theorem built_network_pays_every_block_witness:
  "\<exists>net s m f vs. to_network example_codec example_builder = Ok net \<and> block_subsidy 5 net (Some 0) = Ok s \<and>
     founders_reward net 5 = (Ok f :: (unit, _) res) \<and> funding_stream_values 5 net s = Ok vs \<and>
     miner_subsidy 5 net s = Ok m \<and> m + f + sum_list (map snd vs) = s"
proof -
  obtain net where net: "to_network example_codec example_builder = Ok net" using example_network by blast
  obtain ps where ps: "net = Testnet ps" "finish example_builder = (Ok ps :: (parameters_builder_error, _) res)"
    by (rule to_network_Ok [OF net])
  have "valid_net net"
    using finish_valid(1) [OF built_valid [OF example_built] ps(2)] ps(1)
    by (intro valid_net.intro) (simp add: valid_network_def)
  moreover have nsm: "\<forall>x. Some 0 = Some x \<longrightarrow> valid_amount NonNegative x"
    by (simp add: valid_NonNegative order_less_imp_le)
  ultimately have "\<exists>s. block_subsidy 5 net (Some 0) = Ok s"
    by (auto simp: valid_net.block_subsidy_eq MAX_HEIGHT_def)
  then obtain s where s: "block_subsidy 5 net (Some 0) = Ok s" by blast
  have "5 \<le> MAX_HEIGHT" by (simp add: MAX_HEIGHT_def)
  from built_network_pays_every_block [OF example_built net this s nsm] net s show ?thesis by blast
qed



definition example_regtest :: regtest_parameters where
  "example_regtest = default_regtest_parameters\<lparr>rt_funding_streams :=
     Some [\<lparr>cfs_height_range = Some (1, 100),
            cfs_recipients = Some [\<lparr>cr_receiver = MajorGrants, cr_numerator = 8,
              cr_addresses = Some [''t2HifwjUj9uyxr9bknR8LFuQbc98c3vkXtu'']\<rparr>]\<rparr>]\<rparr>"

lemma regtest_heights:
  "with_activation_heights (for_regtest no_activation_heights) b =
     (if b_should_lock_funding_stream_address_period b then Err LockFundingStreams
      else Ok (b\<lparr>b_activation_heights :=
             bt_insert 1 Canopy (filter (\<lambda>x. fst x < 1) (b_activation_heights b))\<rparr>))"
proof -
  have upgrades: "configured_upgrades (for_regtest no_activation_heights) =
      [(1, Overwinter), (1, Sapling), (1, Blossom), (1, Heartwood), (1, Canopy)]"
    by code_simp
  have order: "check_upgrade_order [Canopy] NETWORK_UPGRADES [(1, Canopy)] = Ok ()"
    by code_simp
  have heights: "collect_res
      (\<lambda>(h, nu). bindr (ok_or InvalidActivationHeight (height_try_from_u32 h)) (\<lambda>k. Ok (k, nu)))
      [(1, Overwinter), (1, Sapling), (1, Blossom), (1, Heartwood), (1, Canopy)] =
      Ok [(1, Overwinter), (1, Sapling), (1, Blossom), (1, Heartwood), (1, Canopy)]"
    by (simp add: height_try_from_u32_def MAX_HEIGHT_def)
  have map: "bt_of_list [(1, Overwinter), (1, Sapling), (1, Blossom), (1, Heartwood), (1, Canopy)] =
      [(1 :: nat, Canopy)]"
    by (simp add: bt_of_list_def)
  show ?thesis
    by (simp only: with_activation_heights_def upgrades heights bindr.simps map Let_def list.map snd_conv order
        foldl.simps prod.case)
qed

lemma regtest_limit: "\<exists>c. limit_via_compact REGTEST_DIFFICULTY_LIMIT = Ok c"
proof -
  have half: "replicate 16 x = [x, x, x, x, x, x, x, x, x, x, x, x, x, x, x, x]" for x :: byte
    by (simp add: numeral_eq_Suc)
  have "replicate 32 x = replicate 16 x @ replicate 16 x" for x :: byte by (simp flip: replicate_add)
  then have "REGTEST_DIFFICULTY_LIMIT \<noteq> 0"
    by (simp only: REGTEST_DIFFICULTY_LIMIT_def half) simp
  then show ?thesis using limit_via_compact_eq by blast
qed

lemma with_target_difficulty_limit_eq:
  "limit_via_compact v = (Ok l :: (parameters_builder_error, _) res) \<Longrightarrow>
     with_target_difficulty_limit v b = Ok (b\<lparr>b_target_difficulty_limit := l\<rparr>)"
  by (auto simp: limit_via_compact_def with_target_difficulty_limit_def bindr_eq_Ok)

lemma regtest_map_heights:
  "map_activation_height [(0, Genesis), (1, Canopy)] Nu7 = None"
  "map_activation_height [(0, Genesis), (1, Canopy)] Canopy = Some 1"
  "map_activation_height [(0, Genesis), (1, Canopy)] Blossom = Some 1"
  by code_simp+

lemma example_regtest_parameters:
  "\<exists>ps. new_regtest example_codec example_regtest = Ok ps \<and>
     p_network_name ps = ''Regtest'' \<and> p_activation_heights ps = [(0, Genesis), (1, Canopy)] \<and>
     p_slow_start_interval ps = 0 \<and> p_slow_start_shift ps = 0 \<and>
     p_pre_blossom_halving_interval ps = 144 \<and> p_post_blossom_halving_interval ps = 288 \<and>
     p_funding_streams ps = [\<lparr>range_start = 1, range_end = 100, recipients =
       [(MajorGrants, \<lparr>numerator = 8, addresses = [''t2HifwjUj9uyxr9bknR8LFuQbc98c3vkXtu'']\<rparr>)]\<rparr>]"
proof -
  obtain l where "limit_via_compact REGTEST_DIFFICULTY_LIMIT = (Ok l :: (parameters_builder_error, _) res)"
    using regtest_limit by blast
  note limit = with_target_difficulty_limit_eq [OF this]
  have below: "filter (\<lambda>x. fst x = 0) TESTNET_ACTIVATION_HEIGHTS = [(0, Genesis)]"
    using valid_activation_below_1 [OF testnet_activation_valid] by simp
  have "REGTEST_GENESIS_HASH ! 1 \<noteq> NULL_HASH ! 1" by (simp add: REGTEST_GENESIS_HASH_def NULL_HASH_def)
  then have "REGTEST_GENESIS_HASH \<noteq> NULL_HASH" by metis
  then have genesis: "checkpoint_from_list [(0, REGTEST_GENESIS_HASH)] = Ok [(0, REGTEST_GENESIS_HASH)]"
    by (simp add: checkpoint_from_list_eq bt_of_list_def)
  show ?thesis
    unfolding new_regtest_def
    by (simp add: with_genesis_hash_def example_codec_def limit Let_def example_regtest_def
        default_regtest_parameters_def regtest_heights simple_setters default_builder_def below
        with_halving_interval_def target_spacing_def spacing_constants i64_checked_def in_i64_def
        BLOSSOM_POW_TARGET_SPACING_RATIO_def PRE_BLOSSOM_REGTEST_HALVING_INTERVAL_def with_funding_streams_def
        convert_with_default_def into_recipient_def recipient_new_def u64_checked_def in_u64_def
        FUNDING_STREAM_RECEIVER_DENOMINATOR_def with_checkpoints_def genesis
        check_funding_stream_address_types_def check_lockbox_disbursements_def finish_def
        REVISION_2_FUNDING_STREAMS_INDEX_def check_derived_nsm_seed_schedule_def activation_height_def
        activation_map_def check_checkpoint_coverage_def checkpoint_entries_def
        checkpoint_hash_def max_height_eq mandatory_checkpoint_height_def height_previous_eq MAX_HEIGHT_def
        MIN_HEIGHT_def regtest_map_heights [simplified])
qed

text \<open>On a network without NU7 whose address changes every six blocks, a stream that starts at height 1
needs a second address at height 7.\<close>

context valid_net
begin

lemma second_address_needed:
  assumes "height_for_first_halving net = (Ok f :: (unit, _) res)" "activation_height Nu7 net = None"
    and "post_blossom_halving_interval net = 288"
    and "funding_streams_at net 7 = Some fs" "range_start fs = 1"
    and "recipient fs receiver = Some rcp" "receiver \<noteq> Deferred" "length (addresses rcp) = 1"
  shows "funding_stream_address 7 net receiver = (Panic :: ('e, _) res)"
proof -
  define p where "p = clock_period net f (funding_clock net 1)"
  have one: "funding_stream_address_period 1 net = (Ok p :: ('e, _) res)"
    using address_period_eq [OF assms(1), of 1] by (simp add: assms(3) MAX_HEIGHT_def p_def)
  have "p = (867 - 3 * int f) div 18"
    by (simp add: p_def clock_period_def funding_clock_def era_start_def assms(2,3))
  then have "clock_period net f (funding_clock net 7) = p + 1"
    by (simp add: clock_period_def funding_clock_def era_start_def assms(2,3))
  then have seven: "funding_stream_address_period 7 net = (Ok (p + 1) :: ('e, _) res)"
    using address_period_eq [OF assms(1), of 7] by (simp add: assms(3) MAX_HEIGHT_def)
  have "- (2 ^ 33) \<le> p" "p \<le> 2 ^ 62 + 2 ^ 33"
    using clock_period_bounds [of f 1] first_halving_any_error(2) [OF assms(1)] assms(3)
    by (simp_all add: p_def MAX_HEIGHT_def)
  then show ?thesis
    using assms(4-8)
    by (simp add: funding_stream_address_def funding_stream_address_index_def one [simplified] seven i64_checked_def in_i64_def)
qed

end

text \<open>C40. Regtest can be configured into a network whose blocks the node cannot validate: \<open>new_regtest\<close>
checks the address types of the funding streams but not their number, so it accepts a stream of ninety nine
blocks with a single address, and computing the address of the block at height 7 then panics.\<close>

theorem regtest_accepts_short_address_list:
  "\<exists>ps. new_regtest example_codec example_regtest = Ok ps \<and>
     (\<exists>f. height_for_first_halving (Testnet ps) = (Ok f :: (unit, _) res)) \<and>
     funding_stream_address 7 (Testnet ps) MajorGrants = (Panic :: (unit, _) res)"
proof -
  obtain ps where ps: "new_regtest example_codec example_regtest = Ok ps"
    "p_network_name ps = ''Regtest''" "p_activation_heights ps = [(0, Genesis), (1, Canopy)]"
    "p_slow_start_interval ps = 0" "p_slow_start_shift ps = 0"
    "p_pre_blossom_halving_interval ps = 144" "p_post_blossom_halving_interval ps = 288"
    "p_funding_streams ps = [\<lparr>range_start = 1, range_end = 100, recipients =
       [(MajorGrants, \<lparr>numerator = 8, addresses = [''t2HifwjUj9uyxr9bknR8LFuQbc98c3vkXtu'']\<rparr>)]\<rparr>]"
    using example_regtest_parameters by blast
  let ?net = "Testnet ps"
  have "valid_net ?net"
    by (intro valid_net.intro)
      (simp add: valid_network_def valid_parameters_def ps(3-7) valid_activation_def nu_order MAX_HEIGHT_def
        in_u32_def in_i64_def)
  have act: "activation_height Nu7 ?net = None" "activation_height Blossom ?net = Some 1"
    by (simp_all only: activation_height_def activation_map_def network.case ps(3) regtest_map_heights)
  have "1 \<le> halving_index ?net MAX_HEIGHT"
    by (simp add: halving_index_def slow_start_shift_def ps(5) block_seconds_def era_start_def act
        pre_blossom_halving_interval_def ps(6) MAX_HEIGHT_def)
  moreover have "\<not> params_is_default_testnet ps"
    using ps(2) by (auto simp: params_is_default_testnet_def default_parameters_def)
  ultimately obtain f where f: "height_for_first_halving ?net = (Ok f :: (unit, _) res)"
    by (auto simp: height_for_first_halving_def valid_net.height_for_halving_eq [OF \<open>valid_net ?net\<close>])
  let ?rcp = "\<lparr>numerator = 8, addresses = [''t2HifwjUj9uyxr9bknR8LFuQbc98c3vkXtu'']\<rparr>"
  let ?fs = "\<lparr>range_start = 1, range_end = 100, recipients = [(MajorGrants, ?rcp)]\<rparr>"
  have "funding_stream_address 7 ?net MajorGrants = (Panic :: (unit, _) res)"
    by (rule valid_net.second_address_needed
          [OF \<open>valid_net ?net\<close> f act(1), where fs = ?fs and rcp = ?rcp])
      (simp_all add: post_blossom_halving_interval_def ps(7,8) funding_streams_at_def all_funding_streams_def
        height_range_contains_def recipient_def)
  with ps(1) f show ?thesis by blast
qed

end
