(* ===== verification/Block_Header.thy ===== *)
theory Block_Header
  imports Zcash_Serialization Testnet_Builder
begin

text \<open>
  Block headers (\<open>zakura-chain/src/block/header.rs\<close>, \<open>serialize.rs\<close>, \<open>hash.rs\<close>, \<open>commitment.rs\<close> and
  \<open>work/equihash.rs\<close>): their consensus bytes, their hash, the shape of their Equihash solution and the meaning of
  their commitment field. A header's time is a whole number of seconds since the Unix epoch. The Equihash
  verifier, SHA-256, BLAKE2b and the validity of a Sapling root's bytes are foreign functions and enter as
  parameters.
\<close>

section \<open>Equihash solutions\<close>

definition SOLUTION_SIZE :: nat where
  "SOLUTION_SIZE = 1344"

definition REGTEST_SOLUTION_SIZE :: nat where
  "REGTEST_SOLUTION_SIZE = 36"

datatype solution = Common bytes | Regtest bytes

definition INPUT_LENGTH :: nat where
  "INPUT_LENGTH = 4 + 32 * 3 + 4 * 2"

definition solution_value :: "solution \<Rightarrow> bytes" where
  "solution_value s = (case s of Common bs \<Rightarrow> bs | Regtest bs \<Rightarrow> bs)"

definition solution_from_bytes :: "bytes \<Rightarrow> (serialization_error, solution) res" where
  "solution_from_bytes bs =
     (if length bs = SOLUTION_SIZE then Ok (Common bs)
      else if length bs = REGTEST_SOLUTION_SIZE then Ok (Regtest bs)
      else Err (Parse ''incorrect equihash solution size''))"

definition for_proposal :: solution where
  "for_proposal = Common (replicate SOLUTION_SIZE 0)"

definition solution_serialize :: "solution \<Rightarrow> (io_error, bytes) res" where
  "solution_serialize s =
     (let bs = solution_value s in
      bindr (map_err serialization_to_io (compact_size_message_try_from (length bs))) (\<lambda>n.
      bindr (compact_size_message_serialize n) (\<lambda>prefix.
      Ok (prefix @ bs))))"

definition solution_serialized_size :: "solution \<Rightarrow> nat" where
  "solution_serialized_size s =
     (let n = length (solution_value s) in compact_encoded_len n + n)"

definition solution_deserialize :: "bool \<Rightarrow> solution zreader" where
  "solution_deserialize known =
     rd_bind compact_size_message_deserialize (\<lambda>n.
       if n \<noteq> SOLUTION_SIZE \<and> n \<noteq> REGTEST_SOLUTION_SIZE
       then rd_fail (Parse ''incorrect equihash solution size'')
       else rd_bind (z_read_bytes known n) (\<lambda>bs rest. mapr (\<lambda>s. (s, rest)) (solution_from_bytes bs)))"

section \<open>Headers\<close>

record header =
  hd_version :: nat
  hd_previous_block_hash :: bytes
  hd_merkle_root :: bytes
  hd_commitment_bytes :: bytes
  hd_time :: int
  hd_difficulty_threshold :: compact_difficulty
  hd_nonce :: bytes
  hd_solution :: solution

definition HEADER_BYTES_BEFORE_SOLUTION :: nat where
  "HEADER_BYTES_BEFORE_SOLUTION = INPUT_LENGTH + 32"

definition MAX_SERIALIZED_HEADER_BYTES :: nat where
  "MAX_SERIALIZED_HEADER_BYTES =
     HEADER_BYTES_BEFORE_SOLUTION + compact_encoded_len SOLUTION_SIZE + SOLUTION_SIZE"

definition ZCASH_BLOCK_VERSION :: nat where
  "ZCASH_BLOCK_VERSION = 4"

definition validate_header_version :: "nat \<Rightarrow> (string, unit) res" where
  "validate_header_version version =
     (if version div 2 ^ 31 \<noteq> 0 then Err ''high bit was set in version field''
      else if version < ZCASH_BLOCK_VERSION then Err ''version must be at least 4''
      else Ok ())"

definition header_serialize :: "header \<Rightarrow> (io_error, bytes) res" where
  "header_serialize h =
     bindr (map_err (\<lambda>_. OtherError) (validate_header_version (hd_version h))) (\<lambda>_.
     bindr (expect_some (u32_try_from (hd_time h))) (\<lambda>time.
     bindr (solution_serialize (hd_solution h)) (\<lambda>solution.
     Ok (le_bytes 4 (hd_version h) @ hd_previous_block_hash h @ hd_merkle_root h @ hd_commitment_bytes h @
         le_bytes 4 time @ le_bytes 4 (unat (hd_difficulty_threshold h)) @ hd_nonce h @ solution))))"

definition header_serialized_size :: "header \<Rightarrow> nat" where
  "header_serialized_size h = HEADER_BYTES_BEFORE_SOLUTION + solution_serialized_size (hd_solution h)"

definition header_deserialize :: "bool \<Rightarrow> header zreader" where
  "header_deserialize known =
     rd_bind (z_read_le 4) (\<lambda>version.
     rd_bind (\<lambda>rest. mapr (\<lambda>_. ((), rest)) (map_err Parse (validate_header_version version))) (\<lambda>_.
     rd_bind (z_read_exact 32) (\<lambda>previous_block_hash.
     rd_bind (z_read_exact 32) (\<lambda>merkle_root.
     rd_bind (z_read_exact 32) (\<lambda>commitment_bytes.
     rd_bind (z_read_le 4) (\<lambda>time.
     rd_bind (z_read_le 4) (\<lambda>difficulty_threshold.
     rd_bind (z_read_exact 32) (\<lambda>nonce.
     rd_bind (solution_deserialize known) (\<lambda>solution.
     rd_return
       \<lparr>hd_version = version, hd_previous_block_hash = previous_block_hash, hd_merkle_root = merkle_root,
        hd_commitment_bytes = commitment_bytes, hd_time = int time,
        hd_difficulty_threshold = word_of_nat difficulty_threshold, hd_nonce = nonce,
        hd_solution = solution\<rparr>)))))))))"

definition counted_header_serialize :: "header \<Rightarrow> (io_error, bytes) res" where
  "counted_header_serialize h =
     bindr (header_serialize h) (\<lambda>bs.
     bindr (expect_ok (compact_size_message_try_from 0)) (\<lambda>transaction_count.
     bindr (compact_size_message_serialize transaction_count) (\<lambda>cs.
     Ok (bs @ cs))))"

definition counted_header_deserialize :: "bool \<Rightarrow> header zreader" where
  "counted_header_deserialize known =
     rd_bind (header_deserialize known) (\<lambda>h.
     rd_bind compact_size_message_deserialize (\<lambda>_. rd_return h))"

text \<open>The smallest and largest counts a headers message is checked against.\<close>

definition MAX_HEADERS_PER_MESSAGE :: nat where
  "MAX_HEADERS_PER_MESSAGE = 160"

definition counted_header_min_serialized_size :: nat where
  "counted_header_min_serialized_size =
     HEADER_BYTES_BEFORE_SOLUTION + compact_encoded_len REGTEST_SOLUTION_SIZE + REGTEST_SOLUTION_SIZE + 1"

definition header_hash :: "digest \<Rightarrow> header \<Rightarrow> ('e, bytes) res" where
  "header_hash sha256 h = bindr (expect_ok (header_serialize h)) (\<lambda>bs. Ok (sha256d sha256 bs))"

section \<open>Checking the solution\<close>

datatype equihash_error = InvalidEquihash | InvalidSolutionSize network

definition network_is_regtest :: "codec \<Rightarrow> network \<Rightarrow> ('e, bool) res" where
  "network_is_regtest cd net = (case net of Mainnet \<Rightarrow> Ok False | Testnet params \<Rightarrow> is_regtest cd params)"

definition validate_shape :: "codec \<Rightarrow> network \<Rightarrow> solution \<Rightarrow> (equihash_error, unit) res" where
  "validate_shape cd net s =
     bindr (network_is_regtest cd net) (\<lambda>regtest.
     case (regtest, s) of
       (False, Common _) \<Rightarrow> Ok ()
     | (True, Regtest _) \<Rightarrow> Ok ()
     | _ \<Rightarrow> Err (InvalidSolutionSize net))"

text \<open>\<open>is_valid_solution\<close> takes \<open>n\<close>, \<open>k\<close>, the input, the nonce and the solution.\<close>

type_synonym equihash = "nat \<Rightarrow> nat \<Rightarrow> bytes \<Rightarrow> bytes \<Rightarrow> bytes \<Rightarrow> bool"

definition check_equihash :: "equihash \<Rightarrow> header \<Rightarrow> nat \<Rightarrow> nat \<Rightarrow> solution \<Rightarrow> (equihash_error, unit) res" where
  "check_equihash is_valid_solution h n k s =
     bindr (expect_ok (header_serialize h)) (\<lambda>input.
     bindr (assertr (INPUT_LENGTH \<le> length input)) (\<lambda>_.
     if is_valid_solution n k (take INPUT_LENGTH input) (hd_nonce h) (solution_value s) then Ok ()
     else Err InvalidEquihash))"

definition solution_check :: "equihash \<Rightarrow> codec \<Rightarrow> header \<Rightarrow> network \<Rightarrow> solution \<Rightarrow> (equihash_error, unit) res" where
  "solution_check is_valid_solution cd h net s =
     bindr (validate_shape cd net s) (\<lambda>_.
     bindr (network_is_regtest cd net) (\<lambda>regtest.
     let (n, k) = if regtest then (48, 5) else (200, 9) in
     check_equihash is_valid_solution h n k s))"

definition for_proposal_for_network :: "codec \<Rightarrow> network \<Rightarrow> ('e, solution) res" where
  "for_proposal_for_network cd net =
     bindr (network_is_regtest cd net) (\<lambda>regtest.
     Ok (if regtest then Regtest (replicate REGTEST_SOLUTION_SIZE 0) else for_proposal))"

section \<open>Commitments\<close>

datatype commitment =
    PreSaplingReserved bytes
  | FinalSaplingRoot bytes
  | ChainHistoryActivationReserved
  | ChainHistoryRoot bytes
  | ChainHistoryBlockTxAuthCommitment bytes

text \<open>The variants of \<open>CommitmentError\<close> that the modelled code reports.\<close>

datatype commitment_error =
    InvalidChainHistoryActivationReserved bytes
  | InvalidSapingRootBytes
  | InvalidChainHistoryRoot bytes bytes
  | InvalidChainHistoryBlockTxAuthCommitment bytes bytes

definition CHAIN_HISTORY_ACTIVATION_RESERVED :: bytes where
  "CHAIN_HISTORY_ACTIVATION_RESERVED = replicate 32 0"

definition activation_reserved :: "bytes \<Rightarrow> (commitment_error, commitment) res" where
  "activation_reserved bs =
     (if bs = CHAIN_HISTORY_ACTIVATION_RESERVED then Ok ChainHistoryActivationReserved
      else Err (InvalidChainHistoryActivationReserved bs))"

text \<open>\<open>sapling_root\<close> says which bytes are a Sapling root.\<close>

definition commitment_from_bytes ::
  "(bytes \<Rightarrow> bool) \<Rightarrow> bytes \<Rightarrow> network \<Rightarrow> height \<Rightarrow> (commitment_error, commitment) res" where
  "commitment_from_bytes sapling_root bs net h =
     bindr (current_with_activation_height net h) (\<lambda>(nu, activation).
     if nu \<in> {Genesis, BeforeOverwinter, Overwinter} then Ok (PreSaplingReserved bs)
     else if nu \<in> {Sapling, Blossom} then
       (if sapling_root bs then Ok (FinalSaplingRoot bs) else Err InvalidSapingRootBytes)
     else if nu = Heartwood \<and> h = activation then activation_reserved bs
     else if nu = Canopy \<and> Some h = activation_height Heartwood net then activation_reserved bs
     else if nu \<in> {Heartwood, Canopy} then Ok (ChainHistoryRoot bs)
     else Ok (ChainHistoryBlockTxAuthCommitment bs))"

definition header_commitment ::
  "(bytes \<Rightarrow> bool) \<Rightarrow> header \<Rightarrow> network \<Rightarrow> height \<Rightarrow> (commitment_error, commitment) res" where
  "header_commitment sapling_root hdr net h = commitment_from_bytes sapling_root (hd_commitment_bytes hdr) net h"

section \<open>The bytes of a header\<close>

text \<open>Headers whose fields have their widths.\<close>

definition valid_solution :: "solution \<Rightarrow> bool" where
  "valid_solution s \<longleftrightarrow>
     (case s of Common bs \<Rightarrow> length bs = SOLUTION_SIZE | Regtest bs \<Rightarrow> length bs = REGTEST_SOLUTION_SIZE)"

definition valid_header :: "header \<Rightarrow> bool" where
  "valid_header h \<longleftrightarrow>
     in_u32 (hd_version h) \<and> length (hd_previous_block_hash h) = 32 \<and> length (hd_merkle_root h) = 32 \<and>
     length (hd_commitment_bytes h) = 32 \<and> 0 \<le> hd_time h \<and> hd_time h < 2 ^ 32 \<and>
     length (hd_nonce h) = 32 \<and> valid_solution (hd_solution h)"

lemma solution_sizes: "SOLUTION_SIZE = 1344" "REGTEST_SOLUTION_SIZE = 36" "MAX_PROTOCOL_MESSAGE_LEN = 2097152"
  "MAX_U8_ALLOCATION = 2097147"
  by (simp_all add: SOLUTION_SIZE_def REGTEST_SOLUTION_SIZE_def MAX_PROTOCOL_MESSAGE_LEN_def MAX_U8_ALLOCATION_def)

lemma length_solution: "valid_solution s \<Longrightarrow> length (solution_value s) \<in> {1344, 36}"
  by (auto simp: valid_solution_def solution_value_def solution_sizes split: solution.splits)

lemma solution_serialize_eq:
  assumes "valid_solution s"
  shows "solution_serialize s =
    Ok (compact_size_64_serialize (length (solution_value s)) @ solution_value s)"
proof -
  have "length (solution_value s) \<le> MAX_PROTOCOL_MESSAGE_LEN"
    using length_solution [OF assms] by (auto simp: solution_sizes)
  moreover from this have "compact_size_message_try_from (length (solution_value s)) = Ok (length (solution_value s))"
    by (simp add: compact_size_message_try_from_Ok)
  ultimately show ?thesis
    by (simp add: solution_serialize_def Let_def compact_size_message_serialize_def assertr_def)
qed

lemma solution_from_bytes_Ok: "solution_from_bytes bs = Ok s \<longleftrightarrow> valid_solution s \<and> bs = solution_value s"
  by (cases s) (auto simp: solution_from_bytes_def valid_solution_def solution_value_def solution_sizes)

lemma solution_accepts [accepts]:
  "solution_deserialize known inp = Ok (s, rest) \<longleftrightarrow>
     valid_solution s \<and> inp = compact_size_64_serialize (length (solution_value s)) @ solution_value s @ rest"
  (is "?L \<longleftrightarrow> ?R")
proof
  assume ?L
  then show ?R
    by (auto simp: solution_deserialize_def accepts mapr_eq_Ok solution_from_bytes_Ok split: if_splits)
next
  assume r: ?R
  then have n: "length (solution_value s) \<in> {SOLUTION_SIZE, REGTEST_SOLUTION_SIZE}"
    "length (solution_value s) \<le> MAX_PROTOCOL_MESSAGE_LEN" "length (solution_value s) \<le> MAX_U8_ALLOCATION"
    using length_solution [of s] by (auto simp: solution_sizes)
  show ?L
    unfolding solution_deserialize_def rd_bind_accepts
    by (intro exI [of _ "length (solution_value s)"] exI [of _ "solution_value s @ rest"])
      (use r n in \<open>auto simp: accepts mapr_eq_Ok solution_from_bytes_Ok\<close>)
qed

lemma solution_no_panic [no_panic]: "solution_deserialize known inp \<noteq> Panic"
  unfolding solution_deserialize_def
  by (intro no_panic allI) (auto simp: solution_from_bytes_def no_panic intro!: no_panic)

lemma unat_compact_lt: "unat (w :: compact_difficulty) < 256 ^ 4"
  using unsigned_less [of w] by simp

lemma header_serialize_eq:
  assumes "valid_header h" "validate_header_version (hd_version h) = Ok ()"
  shows "header_serialize h =
    Ok (le_bytes 4 (hd_version h) @ hd_previous_block_hash h @ hd_merkle_root h @ hd_commitment_bytes h @
        le_bytes 4 (nat (hd_time h)) @ le_bytes 4 (unat (hd_difficulty_threshold h)) @ hd_nonce h @
        compact_size_64_serialize (length (solution_value (hd_solution h))) @ solution_value (hd_solution h))"
  using assms by (simp add: header_serialize_def valid_header_def u32_try_from_def solution_serialize_eq)

lemma z_read_back:
  "x < 256 ^ n \<Longrightarrow> z_read_le n (le_bytes n x @ rest) = Ok (x, rest)"
  "length bs = n \<Longrightarrow> z_read_exact n (bs @ rest) = Ok (bs, rest)"
  by (simp_all add: accepts)

lemma header_accepts [accepts]:
  "header_deserialize known inp = Ok (h, rest) \<longleftrightarrow>
     valid_header h \<and> (\<exists>bs. header_serialize h = Ok bs \<and> inp = bs @ rest)"
  (is "?L \<longleftrightarrow> ?R")
proof
  assume ?L
  then obtain v p m c t d n s where
    acc: "v < 256 ^ 4" "validate_header_version v = Ok ()" "length p = 32" "length m = 32" "length c = 32"
      "t < 256 ^ 4" "d < 256 ^ 4" "length n = 32" "valid_solution s" and
    h: "h = \<lparr>hd_version = v, hd_previous_block_hash = p, hd_merkle_root = m, hd_commitment_bytes = c,
      hd_time = int t, hd_difficulty_threshold = word_of_nat d, hd_nonce = n, hd_solution = s\<rparr>" and
    inp: "inp = le_bytes 4 v @ p @ m @ c @ le_bytes 4 t @ le_bytes 4 d @ n @
      compact_size_64_serialize (length (solution_value s)) @ solution_value s @ rest"
    unfolding header_deserialize_def accepts by (auto simp: mapr_eq_Ok)
  have "unat (word_of_nat d :: compact_difficulty) = d" using acc(7) by (simp add: unat_of_nat)
  moreover have v: "valid_header h" using acc h by (simp add: valid_header_def in_u32_def)
  ultimately show ?R using header_serialize_eq [OF v] acc(2) h inp by simp
next
  assume r: ?R
  then obtain bs where bs: "header_serialize h = Ok bs" "inp = bs @ rest" by blast
  have ver: "validate_header_version (hd_version h) = Ok ()" using bs(1) by (auto simp: header_serialize_def res_eqs)
  have v: "valid_header h" using r by blast
  have f: "hd_version h < 4294967296" "nat (hd_time h) < 4294967296" "length (hd_previous_block_hash h) = 32"
    "length (hd_merkle_root h) = 32" "length (hd_commitment_bytes h) = 32" "length (hd_nonce h) = 32"
    "valid_solution (hd_solution h)" "0 \<le> hd_time h"
    using v by (auto simp: valid_header_def in_u32_def)
  have "solution_deserialize known
      (compact_size_64_serialize (length (solution_value (hd_solution h))) @ solution_value (hd_solution h) @ rest) =
    Ok (hd_solution h, rest)"
    using f(7) by (simp add: solution_accepts)
  note steps = this z_read_back
  show ?L
    unfolding header_deserialize_def bs(2)
    using bs(1) unfolding header_serialize_eq [OF v ver]
    by (auto simp: steps f unat_compact_lt [simplified] ver rd_bind_def rd_return_def)
qed

lemma header_no_panic [no_panic]: "header_deserialize known inp \<noteq> Panic"
  unfolding header_deserialize_def
  by (intro no_panic allI) (simp_all add: validate_header_version_def no_panic)

lemma length_header:
  assumes "valid_header h" "header_serialize h = Ok bs"
  shows "length bs = header_serialized_size h"
proof -
  have "validate_header_version (hd_version h) = Ok ()"
    using assms(2) by (auto simp: header_serialize_def res_eqs)
  then show ?thesis
    using assms header_serialize_eq [OF assms(1)]
    by (auto simp: header_serialized_size_def HEADER_BYTES_BEFORE_SOLUTION_def INPUT_LENGTH_def
        solution_serialized_size_def Let_def valid_header_def length_compact_size)
qed

text \<open>
  C11. The consensus encoding of block headers is canonical: on any input, from a slice or from a stream, the
  decoder never panics, and it accepts exactly the inputs that begin with the serialization of a header whose
  fields have their widths, returning that header and leaving the bytes after it; so decoding inverts encoding,
  and no two encodings give the same header. A header with a version below 4 or with the high bit set cannot be
  serialized, and any other has exactly the size that \<open>zcash_serialized_size\<close> reports.
\<close>

theorem header_encoding_canonical:
  "(header_deserialize known inp = Ok (h, rest) \<longleftrightarrow>
      valid_header h \<and> (\<exists>bs. header_serialize h = Ok bs \<and> inp = bs @ rest)) \<and>
   header_deserialize known inp \<noteq> Panic \<and>
   (valid_header h \<longrightarrow>
      (if 4 \<le> hd_version h \<and> hd_version h < 2 ^ 31
       then mapr length (header_serialize h) = Ok (header_serialized_size h)
       else header_serialize h = Err OtherError))"
proof -
  have "mapr length (header_serialize h) = Ok (header_serialized_size h)"
    if "valid_header h" "4 \<le> hd_version h" "hd_version h < 2 ^ 31"
  proof -
    have "validate_header_version (hd_version h) = Ok ()"
      using that by (simp add: validate_header_version_def ZCASH_BLOCK_VERSION_def)
    with that(1) obtain bs where "header_serialize h = Ok bs" using header_serialize_eq by blast
    with length_header [OF that(1) this] show ?thesis by simp
  qed
  moreover have "header_serialize h = Err OtherError" if "\<not> (4 \<le> hd_version h \<and> hd_version h < 2 ^ 31)"
    using that by (auto simp: header_serialize_def validate_header_version_def ZCASH_BLOCK_VERSION_def)
  ultimately show ?thesis using header_accepts header_no_panic by auto
qed

definition example_header :: header where
  "example_header =
     \<lparr>hd_version = 4, hd_previous_block_hash = replicate 32 1, hd_merkle_root = replicate 32 2,
      hd_commitment_bytes = replicate 32 3, hd_time = 1700000000, hd_difficulty_threshold = 0x1f07ffff,
      hd_nonce = replicate 32 4, hd_solution = Regtest (replicate 36 5)\<rparr>"

theorem header_encoding_canonical_witness:
  "\<exists>bs. header_serialize example_header = Ok bs \<and> length bs = 177 \<and>
     header_deserialize True (bs @ [9]) = Ok (example_header, [9])"
proof -
  have v: "valid_header example_header"
    by (simp add: valid_header_def example_header_def in_u32_def valid_solution_def solution_sizes)
  have sz: "header_serialized_size example_header = 177"
    by (simp add: header_serialized_size_def example_header_def HEADER_BYTES_BEFORE_SOLUTION_def INPUT_LENGTH_def
        solution_serialized_size_def solution_value_def compact_encoded_len_def)
  have ver: "4 \<le> hd_version example_header" "hd_version example_header < 2 ^ 31" by (simp_all add: example_header_def)
  obtain bs where bs: "header_serialize example_header = Ok bs" "length bs = 177"
    using header_encoding_canonical [of True "[]" example_header "[]"] v ver sz by (auto simp: mapr_eq_Ok)
  have "header_deserialize True (bs @ [9]) = Ok (example_header, [9])"
    using header_encoding_canonical [of True "bs @ [9]" example_header "[9]"] v bs(1) by blast
  with bs show ?thesis by blast
qed

end
