(* ===== verification/History_Nodes.thy ===== *)
theory History_Nodes
  imports Byte_Readers
begin

text \<open>
  Nodes of the chain history tree (\<open>zakura-mmr-tree/src/node_data.rs\<close>, \<open>version.rs\<close>, \<open>entry.rs\<close> and the
  types of \<open>lib.rs\<close>): the metadata of the three tree versions, how two nodes are combined, and the byte forms
  of metadata and entries. Unsigned fields are natural numbers with their width in \<open>valid_node_data\<close>; a
  32-byte array is a byte list of that length. The BLAKE2b implementation is a foreign function and enters as
  the parameter \<open>blake2b\<close> (personalization, input, 32-byte digest).
\<close>

section \<open>Node metadata\<close>

definition MAX_NODE_DATA_SIZE :: nat where
  "MAX_NODE_DATA_SIZE =
     32 + 4 + 4 + 4 + 4 + 32 + 32 + 32 + 9 + 9 + 9 + 32 + 32 + 9 + 32 + 32 + 9"

record node_data =
  nd_consensus_branch_id :: nat
  nd_subtree_commitment :: bytes
  nd_start_time :: nat
  nd_end_time :: nat
  nd_start_target :: nat
  nd_end_target :: nat
  nd_start_sapling_root :: bytes
  nd_end_sapling_root :: bytes
  nd_subtree_total_work :: nat
  nd_start_height :: nat
  nd_end_height :: nat
  nd_sapling_tx :: nat

text \<open>The errors of the crate; the operations on metadata only panic.\<close>

datatype entry_link = Stored nat | Generated nat

datatype history_error = ExpectedInMemory entry_link | ExpectedNode "entry_link option"

type_synonym 'a history_res = "(history_error, 'a) res"

definition u256_op :: "nat \<Rightarrow> ('e, nat) res" where
  "u256_op x = (if x < 2 ^ 256 then Ok x else Panic)"

definition node_combine_inner :: "bytes \<Rightarrow> node_data \<Rightarrow> node_data \<Rightarrow> node_data history_res" where
  "node_combine_inner commitment l r =
     bindr (u256_op (nd_subtree_total_work l + nd_subtree_total_work r)) (\<lambda>total_work.
     bindr (u64_op (nd_sapling_tx l + nd_sapling_tx r)) (\<lambda>tx.
     Ok \<lparr>nd_consensus_branch_id = nd_consensus_branch_id l,
         nd_subtree_commitment = commitment,
         nd_start_time = nd_start_time l,
         nd_end_time = nd_end_time r,
         nd_start_target = nd_start_target l,
         nd_end_target = nd_end_target r,
         nd_start_sapling_root = nd_start_sapling_root l,
         nd_end_sapling_root = nd_end_sapling_root r,
         nd_subtree_total_work = total_work,
         nd_start_height = nd_start_height l,
         nd_end_height = nd_end_height r,
         nd_sapling_tx = tx\<rparr>))"

definition write_compact :: "nat \<Rightarrow> bytes" where
  "write_compact c =
     (if c \<le> 0xfc then le_bytes 1 c
      else if c \<le> 0xffff then 0xfd # le_bytes 2 c
      else if c \<le> 0xffffffff then 0xfe # le_bytes 4 c
      else 0xff # le_bytes 8 c)"

definition read_compact :: "nat reader" where
  "read_compact =
     rd_bind (read_le 1) (\<lambda>i.
       if i \<le> 0xfc then rd_return i
       else if i = 0xfd then read_le 2
       else if i = 0xfe then read_le 4
       else read_le 8)"

definition node_write :: "node_data \<Rightarrow> bytes" where
  "node_write d =
     nd_subtree_commitment d @ le_bytes 4 (nd_start_time d) @ le_bytes 4 (nd_end_time d) @
     le_bytes 4 (nd_start_target d) @ le_bytes 4 (nd_end_target d) @
     nd_start_sapling_root d @ nd_end_sapling_root d @ le_bytes 32 (nd_subtree_total_work d) @
     write_compact (nd_start_height d) @ write_compact (nd_end_height d) @ write_compact (nd_sapling_tx d)"

definition node_read :: "nat \<Rightarrow> node_data reader" where
  "node_read branch_id =
     rd_bind (read_exact 32) (\<lambda>commitment.
     rd_bind (read_le 4) (\<lambda>start_time.
     rd_bind (read_le 4) (\<lambda>end_time.
     rd_bind (read_le 4) (\<lambda>start_target.
     rd_bind (read_le 4) (\<lambda>end_target.
     rd_bind (read_exact 32) (\<lambda>start_sapling_root.
     rd_bind (read_exact 32) (\<lambda>end_sapling_root.
     rd_bind (read_exact 32) (\<lambda>work_buf.
     rd_bind read_compact (\<lambda>start_height.
     rd_bind read_compact (\<lambda>end_height.
     rd_bind read_compact (\<lambda>sapling_tx.
     rd_return
       \<lparr>nd_consensus_branch_id = branch_id,
        nd_subtree_commitment = commitment,
        nd_start_time = start_time,
        nd_end_time = end_time,
        nd_start_target = start_target,
        nd_end_target = end_target,
        nd_start_sapling_root = start_sapling_root,
        nd_end_sapling_root = end_sapling_root,
        nd_subtree_total_work = le_nat work_buf,
        nd_start_height = start_height,
        nd_end_height = end_height,
        nd_sapling_tx = sapling_tx\<rparr>)))))))))))"

record node_data_v2 =
  v2_v1 :: node_data
  v2_start_orchard_root :: bytes
  v2_end_orchard_root :: bytes
  v2_orchard_tx :: nat

definition v2_combine_inner :: "bytes \<Rightarrow> node_data_v2 \<Rightarrow> node_data_v2 \<Rightarrow> node_data_v2 history_res" where
  "v2_combine_inner commitment l r =
     bindr (node_combine_inner commitment (v2_v1 l) (v2_v1 r)) (\<lambda>v1.
     bindr (u64_op (v2_orchard_tx l + v2_orchard_tx r)) (\<lambda>tx.
     Ok \<lparr>v2_v1 = v1,
         v2_start_orchard_root = v2_start_orchard_root l,
         v2_end_orchard_root = v2_end_orchard_root r,
         v2_orchard_tx = tx\<rparr>))"

definition v2_write :: "node_data_v2 \<Rightarrow> bytes" where
  "v2_write d =
     node_write (v2_v1 d) @ v2_start_orchard_root d @ v2_end_orchard_root d @ write_compact (v2_orchard_tx d)"

definition v2_read :: "nat \<Rightarrow> node_data_v2 reader" where
  "v2_read branch_id =
     rd_bind (node_read branch_id) (\<lambda>v1.
     rd_bind (read_exact 32) (\<lambda>start_orchard_root.
     rd_bind (read_exact 32) (\<lambda>end_orchard_root.
     rd_bind read_compact (\<lambda>orchard_tx.
     rd_return
       \<lparr>v2_v1 = v1, v2_start_orchard_root = start_orchard_root,
        v2_end_orchard_root = end_orchard_root, v2_orchard_tx = orchard_tx\<rparr>))))"

record node_data_v3 =
  v3_v2 :: node_data_v2
  v3_start_ironwood_root :: bytes
  v3_end_ironwood_root :: bytes
  v3_ironwood_tx :: nat

definition v3_combine_inner :: "bytes \<Rightarrow> node_data_v3 \<Rightarrow> node_data_v3 \<Rightarrow> node_data_v3 history_res" where
  "v3_combine_inner commitment l r =
     bindr (v2_combine_inner commitment (v3_v2 l) (v3_v2 r)) (\<lambda>v2.
     bindr (u64_op (v3_ironwood_tx l + v3_ironwood_tx r)) (\<lambda>tx.
     Ok \<lparr>v3_v2 = v2,
         v3_start_ironwood_root = v3_start_ironwood_root l,
         v3_end_ironwood_root = v3_end_ironwood_root r,
         v3_ironwood_tx = tx\<rparr>))"

definition v3_write :: "node_data_v3 \<Rightarrow> bytes" where
  "v3_write d =
     v2_write (v3_v2 d) @ v3_start_ironwood_root d @ v3_end_ironwood_root d @ write_compact (v3_ironwood_tx d)"

definition v3_read :: "nat \<Rightarrow> node_data_v3 reader" where
  "v3_read branch_id =
     rd_bind (v2_read branch_id) (\<lambda>v2.
     rd_bind (read_exact 32) (\<lambda>start_ironwood_root.
     rd_bind (read_exact 32) (\<lambda>end_ironwood_root.
     rd_bind read_compact (\<lambda>ironwood_tx.
     rd_return
       \<lparr>v3_v2 = v2, v3_start_ironwood_root = start_ironwood_root,
        v3_end_ironwood_root = end_ironwood_root, v3_ironwood_tx = ironwood_tx\<rparr>))))"

section \<open>Tree versions\<close>

text \<open>The trait \<open>Version\<close>: its required functions are fields, its provided functions take the record.\<close>

record 'd version =
  ver_branch_id :: "'d \<Rightarrow> nat"
  ver_start_height :: "'d \<Rightarrow> nat"
  ver_end_height :: "'d \<Rightarrow> nat"
  ver_combine_inner :: "bytes \<Rightarrow> 'd \<Rightarrow> 'd \<Rightarrow> 'd history_res"
  ver_read :: "nat \<Rightarrow> 'd reader"
  ver_write :: "'d \<Rightarrow> bytes"

definition V1 :: "node_data version" where
  "V1 = \<lparr>ver_branch_id = nd_consensus_branch_id, ver_start_height = nd_start_height,
         ver_end_height = nd_end_height, ver_combine_inner = node_combine_inner,
         ver_read = node_read, ver_write = node_write\<rparr>"

definition V2 :: "node_data_v2 version" where
  "V2 = \<lparr>ver_branch_id = \<lambda>d. nd_consensus_branch_id (v2_v1 d),
         ver_start_height = \<lambda>d. nd_start_height (v2_v1 d),
         ver_end_height = \<lambda>d. nd_end_height (v2_v1 d), ver_combine_inner = v2_combine_inner,
         ver_read = v2_read, ver_write = v2_write\<rparr>"

definition V3 :: "node_data_v3 version" where
  "V3 = \<lparr>ver_branch_id = \<lambda>d. nd_consensus_branch_id (v2_v1 (v3_v2 d)),
         ver_start_height = \<lambda>d. nd_start_height (v2_v1 (v3_v2 d)),
         ver_end_height = \<lambda>d. nd_end_height (v2_v1 (v3_v2 d)), ver_combine_inner = v3_combine_inner,
         ver_read = v3_read, ver_write = v3_write\<rparr>"

type_synonym hasher = "bytes \<Rightarrow> bytes \<Rightarrow> bytes"

text \<open>\<open>copy_from_slice\<close> panics unless the digest has 32 bytes.\<close>

definition blake2b_personal :: "hasher \<Rightarrow> bytes \<Rightarrow> bytes \<Rightarrow> ('e, bytes) res" where
  "blake2b_personal blake2b personal input =
     (let hash = blake2b personal input in if length hash = 32 then Ok hash else Panic)"

text \<open>What the code relies on of BLAKE2b with \<open>hash_length(32)\<close>.\<close>

definition digest_32 :: "hasher \<Rightarrow> bool" where
  "digest_32 blake2b \<longleftrightarrow> (\<forall>p x. length (blake2b p x) = 32)"

definition personalization :: "nat \<Rightarrow> bytes" where
  "personalization branch_id = map (\<lambda>c. word_of_nat (of_char c)) ''ZcashHistory'' @ le_bytes 4 branch_id"

text \<open>Writing past the end of a fixed buffer fails, and the callers panic on the failure.\<close>

definition write_to_buf :: "nat \<Rightarrow> bytes \<Rightarrow> ('e, bytes) res" where
  "write_to_buf capacity bs = (if length bs \<le> capacity then Ok bs else Panic)"

definition combine :: "hasher \<Rightarrow> 'd version \<Rightarrow> 'd \<Rightarrow> 'd \<Rightarrow> 'd history_res" where
  "combine blake2b V l r =
     bindr (assertr (ver_branch_id V l = ver_branch_id V r)) (\<lambda>_.
     bindr (write_to_buf (MAX_NODE_DATA_SIZE * 2) (ver_write V l @ ver_write V r)) (\<lambda>hash_buf.
     bindr (blake2b_personal blake2b (personalization (ver_branch_id V l)) hash_buf) (\<lambda>hash.
     ver_combine_inner V hash l r)))"

definition node_to_bytes :: "'d version \<Rightarrow> 'd \<Rightarrow> ('e, bytes) res" where
  "node_to_bytes V d = write_to_buf MAX_NODE_DATA_SIZE (ver_write V d)"

definition node_from_bytes :: "'d version \<Rightarrow> nat \<Rightarrow> bytes \<Rightarrow> (io_error, 'd) res" where
  "node_from_bytes V branch_id buf = mapr fst (ver_read V branch_id buf)"

definition node_hash :: "hasher \<Rightarrow> 'd version \<Rightarrow> 'd \<Rightarrow> ('e, bytes) res" where
  "node_hash blake2b V d =
     bindr (node_to_bytes V d) (\<lambda>bs. blake2b_personal blake2b (personalization (ver_branch_id V d)) bs)"

section \<open>Entries\<close>

definition MAX_ENTRY_SIZE :: nat where
  "MAX_ENTRY_SIZE = MAX_NODE_DATA_SIZE + 9"

datatype entry_kind = LeafEntry | NodeEntry entry_link entry_link

record 'd entry =
  e_kind :: entry_kind
  e_data :: 'd

definition entry_new :: "'d \<Rightarrow> entry_link \<Rightarrow> entry_link \<Rightarrow> 'd entry" where
  "entry_new d l r = \<lparr>e_kind = NodeEntry l r, e_data = d\<rparr>"

definition entry_new_leaf :: "'d \<Rightarrow> 'd entry" where
  "entry_new_leaf d = \<lparr>e_kind = LeafEntry, e_data = d\<rparr>"

definition u64_sub :: "nat \<Rightarrow> nat \<Rightarrow> ('e, nat) res" where
  "u64_sub a b = expect_some (u_checked_sub a b)"

definition leaf_count :: "'d version \<Rightarrow> 'd entry \<Rightarrow> ('e, nat) res" where
  "leaf_count V e =
     bindr (u64_sub (ver_start_height V (e_data e)) 1) (\<lambda>before.
     u64_sub (ver_end_height V (e_data e)) before)"

fun is_power_of_two :: "nat \<Rightarrow> bool" where
  "is_power_of_two n = (if n = 0 then False else n = 1 \<or> even n \<and> is_power_of_two (n div 2))"

declare is_power_of_two.simps [simp del]

definition complete :: "'d version \<Rightarrow> 'd entry \<Rightarrow> ('e, bool) res" where
  "complete V e = mapr is_power_of_two (leaf_count V e)"

definition is_leaf :: "'d entry \<Rightarrow> bool" where
  "is_leaf e \<longleftrightarrow> e_kind e = LeafEntry"

definition entry_left :: "'d entry \<Rightarrow> entry_link history_res" where
  "entry_left e = (case e_kind e of LeafEntry \<Rightarrow> Err (ExpectedNode None) | NodeEntry l _ \<Rightarrow> Ok l)"

definition entry_right :: "'d entry \<Rightarrow> entry_link history_res" where
  "entry_right e = (case e_kind e of LeafEntry \<Rightarrow> Err (ExpectedNode None) | NodeEntry _ r \<Rightarrow> Ok r)"

definition entry_write :: "'d version \<Rightarrow> 'd entry \<Rightarrow> (io_error, bytes) res" where
  "entry_write V e =
     bindr (case e_kind e of
              NodeEntry (Stored l) (Stored r) \<Rightarrow> Ok (0 # le_bytes 4 l @ le_bytes 4 r)
            | LeafEntry \<Rightarrow> Ok [1]
            | _ \<Rightarrow> Err InvalidData) (\<lambda>kind.
     Ok (kind @ ver_write V (e_data e)))"

definition entry_kind_read :: "entry_kind reader" where
  "entry_kind_read =
     rd_bind (read_le 1) (\<lambda>tag.
       if tag = 0 then
         rd_bind (read_le 4) (\<lambda>l. rd_bind (read_le 4) (\<lambda>r. rd_return (NodeEntry (Stored l) (Stored r))))
       else if tag = 1 then rd_return LeafEntry
       else (\<lambda>_. Err InvalidData))"

definition entry_read :: "'d version \<Rightarrow> nat \<Rightarrow> 'd entry reader" where
  "entry_read V branch_id =
     rd_bind entry_kind_read (\<lambda>kind.
     rd_bind (ver_read V branch_id) (\<lambda>d. rd_return \<lparr>e_kind = kind, e_data = d\<rparr>))"

definition entry_from_bytes :: "'d version \<Rightarrow> nat \<Rightarrow> bytes \<Rightarrow> (io_error, 'd entry) res" where
  "entry_from_bytes V branch_id buf = mapr fst (entry_read V branch_id buf)"

section \<open>Compact sizes\<close>

lemma write_compact_byte: "unat b = i \<Longrightarrow> [b] = le_bytes 1 i" for b :: byte
  by (auto simp: unat_of_nat)

lemma reads_compact [exact_readers]:
  assumes "in_u64 c"
  shows "reads read_compact c (write_compact c)"
proof -
  have tagged: "reads read_compact c (b # le_bytes n c)"
    if "unat b = i" "reads (if i \<le> 0xfc then rd_return i else if i = 0xfd then read_le 2
       else if i = 0xfe then read_le 4 else read_le 8) c (le_bytes n c)" for b :: byte and i n
  proof -
    have "i < 256" using that(1) unat_byte_less [of b] by simp
    then have "reads (read_le 1) i [b]"
      using reads_le [of i 1] write_compact_byte [OF that(1)] by simp
    then have "reads read_compact c ([b] @ le_bytes n c)"
      unfolding read_compact_def using that(2) by (rule reads_bind)
    then show ?thesis by simp
  qed
  consider "c \<le> 0xfc" | "0xfc < c" "c \<le> 0xffff" | "0xffff < c" "c \<le> 0xffffffff" | "0xffffffff < c"
    by linarith
  then show ?thesis
  proof cases
    case 1
    then have "reads (read_le 1) c (le_bytes 1 c)" by (intro reads_le) simp
    then have "reads read_compact c (le_bytes 1 c @ [])"
      unfolding read_compact_def by (rule reads_bind) (simp add: 1 reads_return)
    then show ?thesis using 1 by (simp add: write_compact_def)
  next
    case 2
    then show ?thesis using tagged [of 253 253 2] reads_le [of c 2] by (simp add: write_compact_def)
  next
    case 3
    then show ?thesis using tagged [of 254 254 4] reads_le [of c 4] by (simp add: write_compact_def)
  next
    case 4
    then show ?thesis
      using tagged [of 255 255 8] reads_le [of c 8] assms by (simp add: write_compact_def in_u64_def)
  qed
qed

lemma length_write_compact: "length (write_compact c) \<le> 9"
  by (simp add: write_compact_def)

section \<open>Contract of a tree version\<close>

definition valid_node_data :: "node_data \<Rightarrow> bool" where
  "valid_node_data d \<longleftrightarrow>
     length (nd_subtree_commitment d) = 32 \<and> length (nd_start_sapling_root d) = 32 \<and>
     length (nd_end_sapling_root d) = 32 \<and>
     in_u32 (nd_start_time d) \<and> in_u32 (nd_end_time d) \<and>
     in_u32 (nd_start_target d) \<and> in_u32 (nd_end_target d) \<and>
     nd_subtree_total_work d < 2 ^ 256 \<and>
     in_u64 (nd_start_height d) \<and> in_u64 (nd_end_height d) \<and> in_u64 (nd_sapling_tx d)"

definition valid_node_data_v2 :: "node_data_v2 \<Rightarrow> bool" where
  "valid_node_data_v2 d \<longleftrightarrow>
     valid_node_data (v2_v1 d) \<and> length (v2_start_orchard_root d) = 32 \<and>
     length (v2_end_orchard_root d) = 32 \<and> in_u64 (v2_orchard_tx d)"

definition valid_node_data_v3 :: "node_data_v3 \<Rightarrow> bool" where
  "valid_node_data_v3 d \<longleftrightarrow>
     valid_node_data_v2 (v3_v2 d) \<and> length (v3_start_ironwood_root d) = 32 \<and>
     length (v3_end_ironwood_root d) = 32 \<and> in_u64 (v3_ironwood_tx d)"

text \<open>The quantities that add up when nodes are combined: the work and the transaction counts.\<close>

definition total_cap :: "nat \<Rightarrow> nat" where
  "total_cap i = (if i = 0 then 2 ^ 256 else 2 ^ 64)"

definition v1_total :: "nat \<Rightarrow> node_data \<Rightarrow> nat" where
  "v1_total i d = (if i = 0 then nd_subtree_total_work d else if i = 1 then nd_sapling_tx d else 0)"

definition v2_total :: "nat \<Rightarrow> node_data_v2 \<Rightarrow> nat" where
  "v2_total i d = (if i = 2 then v2_orchard_tx d else v1_total i (v2_v1 d))"

definition v3_total :: "nat \<Rightarrow> node_data_v3 \<Rightarrow> nat" where
  "v3_total i d = (if i = 3 then v3_ironwood_tx d else v2_total i (v3_v2 d))"

text \<open>The byte form of metadata is exact: it is written without overrunning the buffer, read back as it was,
and no proper prefix of it is accepted. The same for entries, which can only be written when their children
are stored.\<close>

definition bytes_exact :: "'d version \<Rightarrow> 'd \<Rightarrow> bool" where
  "bytes_exact V d \<longleftrightarrow>
     (\<exists>bs. node_to_bytes V d = (Ok bs :: (unit, _) res) \<and> length bs \<le> MAX_NODE_DATA_SIZE \<and>
        node_from_bytes V (ver_branch_id V d) bs = Ok d \<and>
        (\<forall>n < length bs. node_from_bytes V (ver_branch_id V d) (take n bs) = Err UnexpectedEof))"

definition stored_links :: "entry_kind \<Rightarrow> nat list option" where
  "stored_links k =
     (case k of LeafEntry \<Rightarrow> Some [] | NodeEntry (Stored l) (Stored r) \<Rightarrow> Some [l, r] | _ \<Rightarrow> None)"

definition entry_exact :: "'d version \<Rightarrow> 'd entry \<Rightarrow> bool" where
  "entry_exact V e \<longleftrightarrow>
     (if stored_links (e_kind e) = None then entry_write V e = Err InvalidData
      else \<exists>bs. entry_write V e = Ok bs \<and> length bs \<le> MAX_ENTRY_SIZE \<and>
        entry_from_bytes V (ver_branch_id V (e_data e)) bs = Ok e \<and>
        (\<forall>n < length bs. entry_from_bytes V (ver_branch_id V (e_data e)) (take n bs) = Err UnexpectedEof))"

text \<open>What the tree relies on: combining metadata is total while the totals fit, takes the heights of the
interval, and the byte form is exact and bounded.\<close>

locale history_version =
  fixes V :: "'d version" and valid :: "'d \<Rightarrow> bool" and total :: "nat \<Rightarrow> 'd \<Rightarrow> nat"
  assumes combine_inner_total:
      "valid l \<Longrightarrow> valid r \<Longrightarrow> length c = 32 \<Longrightarrow> (\<And>i. total i l + total i r < total_cap i) \<Longrightarrow>
       \<exists>d. ver_combine_inner V c l r = Ok d \<and> valid d \<and> ver_branch_id V d = ver_branch_id V l \<and>
         ver_start_height V d = ver_start_height V l \<and> ver_end_height V d = ver_end_height V r \<and>
         (\<forall>i. total i d = total i l + total i r)"
    and reads_write: "valid d \<Longrightarrow> reads (ver_read V (ver_branch_id V d)) d (ver_write V d)"
    and write_bound: "valid d \<Longrightarrow> length (ver_write V d) \<le> MAX_NODE_DATA_SIZE"
    and valid_heights: "valid d \<Longrightarrow> in_u64 (ver_start_height V d) \<and> in_u64 (ver_end_height V d)"
    and valid_totals: "valid d \<Longrightarrow> total i d < total_cap i"
begin

lemma combine_total:
  assumes "digest_32 blake2b" "valid l" "valid r" "ver_branch_id V l = ver_branch_id V r"
    and "\<And>i. total i l + total i r < total_cap i"
  obtains d where "combine blake2b V l r = Ok d" "valid d" "ver_branch_id V d = ver_branch_id V l"
    "ver_start_height V d = ver_start_height V l" "ver_end_height V d = ver_end_height V r"
    "\<forall>i. total i d = total i l + total i r"
proof -
  have "length (ver_write V l @ ver_write V r) \<le> MAX_NODE_DATA_SIZE * 2"
    using write_bound [OF assms(2)] write_bound [OF assms(3)] by simp
  then show ?thesis
    using that combine_inner_total [OF assms(2,3) _ assms(5)] assms(1,4)
    by (fastforce simp: combine_def write_to_buf_def blake2b_personal_def Let_def digest_32_def)
qed

lemma valid_bytes_exact: "valid d \<Longrightarrow> bytes_exact V d"
  using reads_write [of d] write_bound [of d]
  by (auto simp: bytes_exact_def node_to_bytes_def write_to_buf_def node_from_bytes_def reads_def
      dest: spec [of _ "[]"])

lemma reads_entry:
  assumes "valid (e_data e)" "entry_write V e = Ok bs"
    and "\<And>l r. e_kind e = NodeEntry (Stored l) (Stored r) \<Longrightarrow> in_u32 l \<and> in_u32 r"
  shows "reads (entry_read V (ver_branch_id V (e_data e))) e bs" "length bs \<le> MAX_ENTRY_SIZE"
proof -
  obtain kb where kb: "bs = kb @ ver_write V (e_data e)" "reads entry_kind_read (e_kind e) kb" "length kb \<le> 9"
  proof (cases "e_kind e")
    case LeafEntry
    have "reads (read_le 1) 1 [1]" using reads_le [of 1 1] by simp
    then have "reads entry_kind_read LeafEntry ([1] @ [])"
      unfolding entry_kind_read_def by (rule reads_bind) (simp add: reads_return)
    then show ?thesis using that [of "[1]"] LeafEntry assms(2) by (simp add: entry_write_def)
  next
    case (NodeEntry a b)
    then obtain l r where lr: "a = Stored l" "b = Stored r"
      using assms(2) by (auto simp: entry_write_def split: entry_link.splits)
    have u: "in_u32 l" "in_u32 r" using assms(3) NodeEntry lr by auto
    have "reads (read_le 4) l (le_bytes 4 l)" "reads (read_le 4) r (le_bytes 4 r)"
      using u by (auto intro!: reads_le simp: in_u32_def)
    then have "reads (rd_bind (read_le 4) (\<lambda>l. rd_bind (read_le 4)
        (\<lambda>r. rd_return (NodeEntry (Stored l) (Stored r))))) (NodeEntry (Stored l) (Stored r))
        (le_bytes 4 l @ le_bytes 4 r @ [])"
      by (intro reads_bind [where x = l] reads_bind [where x = r] reads_return)
    moreover have "reads (read_le 1) 0 [0]" using reads_le [of 0 1] by simp
    ultimately have "reads entry_kind_read (e_kind e) ([0] @ le_bytes 4 l @ le_bytes 4 r @ [])"
      unfolding NodeEntry lr entry_kind_read_def by (intro reads_bind [where x = 0]) simp_all
    then show ?thesis
      using that [of "[0] @ le_bytes 4 l @ le_bytes 4 r"] NodeEntry lr assms(2) by (simp add: entry_write_def)
  qed
  have "reads (rd_bind (ver_read V (ver_branch_id V (e_data e))) (\<lambda>d. rd_return \<lparr>e_kind = e_kind e, e_data = d\<rparr>))
      e (ver_write V (e_data e))"
    using exact_map [OF reads_write [OF assms(1)], of "\<lambda>d. \<lparr>e_kind = e_kind e, e_data = d\<rparr>"] by (cases e) simp
  with kb(2) show "reads (entry_read V (ver_branch_id V (e_data e))) e bs"
    unfolding entry_read_def kb(1) by (rule reads_bind)
  show "length bs \<le> MAX_ENTRY_SIZE"
    using kb write_bound [OF assms(1)] by (simp add: MAX_ENTRY_SIZE_def)
qed

lemma valid_entry_exact:
  assumes "valid (e_data e)" "\<forall>ls. stored_links (e_kind e) = Some ls \<longrightarrow> list_all in_u32 ls"
  shows "entry_exact V e"
proof (cases "stored_links (e_kind e)")
  case None
  then show ?thesis
    by (auto simp: entry_exact_def entry_write_def stored_links_def
        split: entry_kind.splits entry_link.splits)
next
  case (Some ls)
  then obtain bs where bs: "entry_write V e = Ok bs"
    by (auto simp: entry_write_def stored_links_def split: entry_kind.splits entry_link.splits)
  have "in_u32 l \<and> in_u32 r" if "e_kind e = NodeEntry (Stored l) (Stored r)" for l r
    using assms(2) that by (simp add: stored_links_def)
  note r = reads_entry [OF assms(1) bs this]
  show ?thesis
    using r bs Some
    by (auto simp: entry_exact_def entry_from_bytes_def reads_def dest: spec [of _ "[]"])
qed

end

section \<open>The three versions\<close>

lemma reads_node_data: "valid_node_data d \<Longrightarrow> reads (node_read (nd_consensus_branch_id d)) d (node_write d)"
proof -
  assume v: "valid_node_data d"
  have u32: "reads (read_le 4) x (le_bytes 4 x)" if "in_u32 x" for x
    using that by (intro reads_le) (simp add: in_u32_def)
  have work: "reads (read_exact 32) (le_bytes 32 x) (le_bytes 32 x)" for x by (simp add: reads_exact)
  have "nd_subtree_total_work d mod 256 ^ 32 = nd_subtree_total_work d"
    using v by (simp add: valid_node_data_def)
  then have "reads (node_read (nd_consensus_branch_id d)) d (node_write d @ [])"
    unfolding node_read_def node_write_def append_assoc using v
    by (intro reads_bind [where r = "read_exact 32"] reads_bind [where r = "read_le 4"]
        reads_bind [where r = read_compact])
      (auto simp: valid_node_data_def le_nat_le_bytes intro!: u32 work reads_exact reads_compact reads_return_eq)
  then show ?thesis by simp
qed

lemma reads_v2:
  "valid_node_data_v2 d \<Longrightarrow> reads (v2_read (nd_consensus_branch_id (v2_v1 d))) d (v2_write d)"
proof -
  assume v: "valid_node_data_v2 d"
  have "reads (v2_read (nd_consensus_branch_id (v2_v1 d))) d (v2_write d @ [])"
    unfolding v2_read_def v2_write_def append_assoc using v
    by (intro reads_bind [where r = "node_read _"] reads_bind [where r = "read_exact 32"]
        reads_bind [where r = read_compact])
      (auto simp: valid_node_data_v2_def intro!: reads_node_data reads_exact reads_compact reads_return_eq)
  then show ?thesis by simp
qed

lemma reads_v3:
  "valid_node_data_v3 d \<Longrightarrow> reads (v3_read (nd_consensus_branch_id (v2_v1 (v3_v2 d)))) d (v3_write d)"
proof -
  assume v: "valid_node_data_v3 d"
  have "reads (v3_read (nd_consensus_branch_id (v2_v1 (v3_v2 d)))) d (v3_write d @ [])"
    unfolding v3_read_def v3_write_def append_assoc using v
    by (intro reads_bind [where r = "v2_read _"] reads_bind [where r = "read_exact 32"]
        reads_bind [where r = read_compact])
      (auto simp: valid_node_data_v3_def intro!: reads_v2 reads_exact reads_compact reads_return_eq)
  then show ?thesis by simp
qed

lemma length_node_write: "valid_node_data d \<Longrightarrow> length (node_write d) \<le> 171"
  using length_write_compact [of "nd_start_height d"] length_write_compact [of "nd_end_height d"]
    length_write_compact [of "nd_sapling_tx d"]
  by (simp add: node_write_def valid_node_data_def)

lemma length_v2_write: "valid_node_data_v2 d \<Longrightarrow> length (v2_write d) \<le> 244"
  using length_write_compact [of "v2_orchard_tx d"] length_node_write [of "v2_v1 d"]
  by (simp add: v2_write_def valid_node_data_v2_def)

lemma length_v3_write: "valid_node_data_v3 d \<Longrightarrow> length (v3_write d) \<le> 317"
  using length_write_compact [of "v3_ironwood_tx d"] length_v2_write [of "v3_v2 d"]
  by (simp add: v3_write_def valid_node_data_v3_def)

lemma total_cap_simps [simp]: "total_cap 0 = 2 ^ 256" "0 < i \<Longrightarrow> total_cap i = 2 ^ 64"
  by (simp_all add: total_cap_def)

lemma node_combine_inner_total:
  assumes "valid_node_data l" "valid_node_data r" "length c = 32"
    and "\<And>i. v1_total i l + v1_total i r < total_cap i"
  shows "\<exists>d. node_combine_inner c l r = Ok d \<and> valid_node_data d \<and>
    nd_consensus_branch_id d = nd_consensus_branch_id l \<and> nd_start_height d = nd_start_height l \<and>
    nd_end_height d = nd_end_height r \<and> (\<forall>i. v1_total i d = v1_total i l + v1_total i r)"
proof -
  have sums: "nd_subtree_total_work l + nd_subtree_total_work r < 2 ^ 256"
    "in_u64 (nd_sapling_tx l + nd_sapling_tx r)"
    using assms(4) [of 0] assms(4) [of 1] by (simp_all add: v1_total_def in_u64_def)
  then show ?thesis
    using assms(1-3)
    by (simp add: node_combine_inner_def u256_op_def u64_op_Ok valid_node_data_def v1_total_def)
qed

lemma v2_combine_inner_total:
  assumes "valid_node_data_v2 l" "valid_node_data_v2 r" "length c = 32"
    and totals: "\<And>i. v2_total i l + v2_total i r < total_cap i"
  shows "\<exists>d. v2_combine_inner c l r = Ok d \<and> valid_node_data_v2 d \<and>
    nd_consensus_branch_id (v2_v1 d) = nd_consensus_branch_id (v2_v1 l) \<and>
    nd_start_height (v2_v1 d) = nd_start_height (v2_v1 l) \<and>
    nd_end_height (v2_v1 d) = nd_end_height (v2_v1 r) \<and>
    (\<forall>i. v2_total i d = v2_total i l + v2_total i r)"
proof -
  have tx: "in_u64 (v2_orchard_tx l + v2_orchard_tx r)"
    using totals [of 2] by (simp add: v2_total_def in_u64_def)
  have t1: "v1_total i (v2_v1 l) + v1_total i (v2_v1 r) < total_cap i" for i
    using totals [of i] by (cases "i = 2") (simp_all add: v2_total_def v1_total_def)
  have v1: "valid_node_data (v2_v1 l)" "valid_node_data (v2_v1 r)"
    using assms(1,2) by (simp_all add: valid_node_data_v2_def)
  show ?thesis
    using node_combine_inner_total [OF v1 assms(3) t1] assms(1,2)
    by (auto simp: v2_combine_inner_def u64_op_Ok [OF tx] tx valid_node_data_v2_def v2_total_def)
qed

lemma v3_combine_inner_total:
  assumes "valid_node_data_v3 l" "valid_node_data_v3 r" "length c = 32"
    and totals: "\<And>i. v3_total i l + v3_total i r < total_cap i"
  shows "\<exists>d. v3_combine_inner c l r = Ok d \<and> valid_node_data_v3 d \<and>
    nd_consensus_branch_id (v2_v1 (v3_v2 d)) = nd_consensus_branch_id (v2_v1 (v3_v2 l)) \<and>
    nd_start_height (v2_v1 (v3_v2 d)) = nd_start_height (v2_v1 (v3_v2 l)) \<and>
    nd_end_height (v2_v1 (v3_v2 d)) = nd_end_height (v2_v1 (v3_v2 r)) \<and>
    (\<forall>i. v3_total i d = v3_total i l + v3_total i r)"
proof -
  have tx: "in_u64 (v3_ironwood_tx l + v3_ironwood_tx r)"
    using totals [of 3] by (simp add: v3_total_def in_u64_def)
  have t2: "v2_total i (v3_v2 l) + v2_total i (v3_v2 r) < total_cap i" for i
    using totals [of i] by (cases "i = 3") (simp_all add: v3_total_def v2_total_def v1_total_def)
  have v2: "valid_node_data_v2 (v3_v2 l)" "valid_node_data_v2 (v3_v2 r)"
    using assms(1,2) by (simp_all add: valid_node_data_v3_def)
  show ?thesis
    using v2_combine_inner_total [OF v2 assms(3) t2] assms(1,2)
    by (auto simp: v3_combine_inner_def u64_op_Ok [OF tx] tx valid_node_data_v3_def v3_total_def)
qed

lemma v1_total_bound: "valid_node_data d \<Longrightarrow> v1_total i d < total_cap i"
  by (simp add: v1_total_def total_cap_def valid_node_data_def in_u64_def)

lemma v2_total_bound: "valid_node_data_v2 d \<Longrightarrow> v2_total i d < total_cap i"
  using v1_total_bound [of "v2_v1 d" i]
  by (cases "i = 2") (simp_all add: v2_total_def valid_node_data_v2_def in_u64_def)

lemma v3_total_bound: "valid_node_data_v3 d \<Longrightarrow> v3_total i d < total_cap i"
  using v2_total_bound [of "v3_v2 d" i]
  by (cases "i = 3") (simp_all add: v3_total_def valid_node_data_v3_def in_u64_def)

interpretation hist1: history_version V1 valid_node_data v1_total
  by unfold_locales
    (simp_all add: V1_def node_combine_inner_total reads_node_data v1_total_bound MAX_NODE_DATA_SIZE_def
      order_trans [OF length_node_write], simp_all add: valid_node_data_def)

interpretation hist2: history_version V2 valid_node_data_v2 v2_total
  by unfold_locales
    (simp_all add: V2_def v2_combine_inner_total reads_v2 v2_total_bound MAX_NODE_DATA_SIZE_def
      order_trans [OF length_v2_write], simp_all add: valid_node_data_v2_def valid_node_data_def)

interpretation hist3: history_version V3 valid_node_data_v3 v3_total
  by unfold_locales
    (simp_all add: V3_def v3_combine_inner_total reads_v3 v3_total_bound MAX_NODE_DATA_SIZE_def
      order_trans [OF length_v3_write],
     simp_all add: valid_node_data_v3_def valid_node_data_v2_def valid_node_data_def)

text \<open>
  C32. The byte forms of chain history nodes are exact: in each of the three versions, metadata whose fields
  have their widths is written within the fixed buffer, reading the bytes with the same branch id gives the
  metadata back, and every proper prefix of the bytes is rejected as truncated.
\<close>

theorem history_node_bytes_exact:
  assumes "valid_node_data a" "valid_node_data_v2 b" "valid_node_data_v3 c"
  shows "bytes_exact V1 a \<and> bytes_exact V2 b \<and> bytes_exact V3 c"
  using assms hist1.valid_bytes_exact hist2.valid_bytes_exact hist3.valid_bytes_exact by blast

definition example_node :: node_data where
  "example_node =
     \<lparr>nd_consensus_branch_id = 1, nd_subtree_commitment = replicate 32 1, nd_start_time = 2, nd_end_time = 3,
      nd_start_target = 4, nd_end_target = 5, nd_start_sapling_root = replicate 32 6,
      nd_end_sapling_root = replicate 32 7, nd_subtree_total_work = 8, nd_start_height = 70000,
      nd_end_height = 70000, nd_sapling_tx = 9\<rparr>"

definition example_node_v2 :: node_data_v2 where
  "example_node_v2 =
     \<lparr>v2_v1 = example_node, v2_start_orchard_root = replicate 32 10, v2_end_orchard_root = replicate 32 11,
      v2_orchard_tx = 12\<rparr>"

definition example_node_v3 :: node_data_v3 where
  "example_node_v3 =
     \<lparr>v3_v2 = example_node_v2, v3_start_ironwood_root = replicate 32 13, v3_end_ironwood_root = replicate 32 14,
      v3_ironwood_tx = 15\<rparr>"

lemma example_nodes_valid:
  "valid_node_data example_node" "valid_node_data_v2 example_node_v2" "valid_node_data_v3 example_node_v3"
  by (simp_all add: valid_node_data_v3_def valid_node_data_v2_def valid_node_data_def example_node_v3_def
      example_node_v2_def example_node_def in_u32_def in_u64_def)

theorem history_node_bytes_exact_witness:
  "bytes_exact V1 example_node \<and> bytes_exact V2 example_node_v2 \<and> bytes_exact V3 example_node_v3"
  by (rule history_node_bytes_exact [OF example_nodes_valid])

text \<open>
  C33. Entries of the history tree: in every version an entry is written exactly when it is a leaf or has two
  stored children, a generated child is refused with \<open>InvalidData\<close>; what was written fits
  \<open>MAX_ENTRY_SIZE\<close>, is read back as the same entry, and no proper prefix of it is accepted.
\<close>

theorem history_entry_bytes_exact:
  assumes "valid_node_data (e_data a)" "valid_node_data_v2 (e_data b)" "valid_node_data_v3 (e_data c)"
    and "\<forall>k \<in> {e_kind a, e_kind b, e_kind c}. \<forall>ls. stored_links k = Some ls \<longrightarrow> list_all in_u32 ls"
  shows "entry_exact V1 a \<and> entry_exact V2 b \<and> entry_exact V3 c"
  using assms hist1.valid_entry_exact hist2.valid_entry_exact hist3.valid_entry_exact by blast

theorem history_entry_bytes_exact_witness:
  "entry_exact V1 (entry_new_leaf example_node) \<and>
   entry_exact V2 (entry_new example_node_v2 (Stored 0) (Stored 1)) \<and>
   entry_exact V3 (entry_new example_node_v3 (Stored 2) (Generated 0))"
  by (rule history_entry_bytes_exact)
    (simp_all add: entry_new_leaf_def entry_new_def example_nodes_valid stored_links_def in_u32_def)

end
