(* ===== verification/Merkle_Roots.thy ===== *)
theory Merkle_Roots
  imports Zcash_Serialization History_Nodes Network
begin

text \<open>
  The transaction Merkle tree of a block and the tree of its authorizing data
  (\<open>zakura-chain/src/block/merkle.rs\<close>), and the check of a block's Merkle root
  (\<open>zakura-consensus/src/block/check.rs\<close>). A level of the tree is a list of 32-byte hashes; \<open>chunks(2)\<close> is
  recursion on pairs. SHA-256 and BLAKE2b are parameters.
\<close>

section \<open>The transaction tree\<close>

definition merkle_hash :: "digest \<Rightarrow> bytes \<Rightarrow> bytes \<Rightarrow> bytes" where
  "merkle_hash sha256 h1 h2 = sha256d sha256 (h1 @ h2)"

fun merkle_level :: "digest \<Rightarrow> bytes list \<Rightarrow> bytes list" where
  "merkle_level sha256 (h1 # h2 # hs) = merkle_hash sha256 h1 h2 # merkle_level sha256 hs"
| "merkle_level sha256 [h1] = [merkle_hash sha256 h1 h1]"
| "merkle_level sha256 [] = []"

lemma length_merkle_level: "length (merkle_level sha256 hs) = (length hs + 1) div 2"
  by (induction sha256 hs rule: merkle_level.induct) auto

function merkle_reduce :: "digest \<Rightarrow> bytes list \<Rightarrow> bytes list" where
  "merkle_reduce sha256 hs = (if length hs > 1 then merkle_reduce sha256 (merkle_level sha256 hs) else hs)"
  by pat_completeness auto
termination
  by (relation "measure (\<lambda>(_, hs). length hs)") (auto simp: length_merkle_level)

declare merkle_reduce.simps [simp del]

definition merkle_root :: "digest \<Rightarrow> bytes list \<Rightarrow> ('e, bytes) res" where
  "merkle_root sha256 hashes = (case merkle_reduce sha256 hashes of [] \<Rightarrow> Panic | h # _ \<Rightarrow> Ok h)"

section \<open>The tree of authorizing data\<close>

definition AUTH_DIGEST_PLACEHOLDER :: bytes where
  "AUTH_DIGEST_PLACEHOLDER = replicate 32 0xFF"

definition auth_digest_or_placeholder :: "bytes option \<Rightarrow> bytes" where
  "auth_digest_or_placeholder d = (case d of Some x \<Rightarrow> x | None \<Rightarrow> AUTH_DIGEST_PLACEHOLDER)"

definition auth_data_hash :: "hasher \<Rightarrow> bytes \<Rightarrow> bytes \<Rightarrow> (unit, bytes) res" where
  "auth_data_hash blake2b h1 h2 =
     (let d = blake2b (map (\<lambda>c. word_of_nat (of_char c)) ''ZcashAuthDatHash'') (h1 @ h2) in
      if length d = 32 then Ok d else Panic)"

fun auth_data_level :: "hasher \<Rightarrow> bytes list \<Rightarrow> (unit, bytes list) res" where
  "auth_data_level blake2b (h1 # h2 # hs) =
     bindr (auth_data_hash blake2b h1 h2) (\<lambda>h. bindr (auth_data_level blake2b hs) (\<lambda>hs'. Ok (h # hs')))"
| "auth_data_level blake2b [h1] = Panic"
| "auth_data_level blake2b [] = Ok []"

text \<open>\<open>usize::next_power_of_two\<close>.\<close>

function next_power_of_two_from :: "nat \<Rightarrow> nat \<Rightarrow> nat" where
  "next_power_of_two_from p n = (if n \<le> p \<or> p = 0 then p else next_power_of_two_from (2 * p) n)"
  by pat_completeness auto
termination
  by (relation "measure (\<lambda>(p, n). n - p)") auto

declare next_power_of_two_from.simps [simp del]

definition next_power_of_two :: "nat \<Rightarrow> nat" where
  "next_power_of_two n = next_power_of_two_from 1 n"

lemma length_auth_data_level: "auth_data_level blake2b hs = Ok hs' \<Longrightarrow> length hs' = length hs div 2"
  by (induction blake2b hs arbitrary: hs' rule: auth_data_level.induct) (auto simp: bindr_eq_Ok)

function auth_data_reduce :: "hasher \<Rightarrow> bytes list \<Rightarrow> (unit, bytes list) res" where
  "auth_data_reduce blake2b hs =
     (if length hs > 1 then
        (case auth_data_level blake2b hs of
           Ok hs' \<Rightarrow> auth_data_reduce blake2b hs' | Err e \<Rightarrow> Err e | Panic \<Rightarrow> Panic)
      else Ok hs)"
  by pat_completeness auto
termination
  by (relation "measure (\<lambda>(_, hs). length hs)") (auto dest!: length_auth_data_level)

declare auth_data_reduce.simps [simp del]

definition auth_data_root :: "hasher \<Rightarrow> bytes list \<Rightarrow> (unit, bytes) res" where
  "auth_data_root blake2b digests =
     (let hashes = digests @ replicate (next_power_of_two (length digests) - length digests) (replicate 32 0) in
      bindr (assertr (is_power_of_two (length hashes))) (\<lambda>_.
      bindr (auth_data_reduce blake2b hashes) (\<lambda>hs.
      case hs of [] \<Rightarrow> Panic | h # _ \<Rightarrow> Ok h)))"

section \<open>The check of a block's root\<close>

datatype merkle_error = BadMerkleRoot bytes bytes | DuplicateTransaction | WrongTransactionConsensusBranchId

text \<open>The upgrades named by the transactions of a block that name one.\<close>

definition check_transaction_network_upgrade_consistency ::
  "network \<Rightarrow> height option \<Rightarrow> network_upgrade option list \<Rightarrow> (merkle_error, unit) res" where
  "check_transaction_network_upgrade_consistency net coinbase_height tx_upgrades =
     bindr (expect_some coinbase_height) (\<lambda>h.
     bindr (current net h) (\<lambda>block_nu.
     if list_ex (\<lambda>tx_nu. tx_nu \<noteq> block_nu) (List.map_filter id tx_upgrades)
     then Err WrongTransactionConsensusBranchId else Ok ()))"

definition merkle_root_validity ::
  "digest \<Rightarrow> network \<Rightarrow> bytes \<Rightarrow> height option \<Rightarrow> network_upgrade option list \<Rightarrow> bytes list \<Rightarrow>
   (merkle_error, unit) res" where
  "merkle_root_validity sha256 net header_root coinbase_height tx_upgrades transaction_hashes =
     bindr (merkle_root sha256 transaction_hashes) (\<lambda>root.
     if header_root \<noteq> root then Err (BadMerkleRoot root header_root)
     else if length transaction_hashes \<noteq> card (set transaction_hashes) then Err DuplicateTransaction
     else check_transaction_network_upgrade_consistency net coinbase_height tx_upgrades)"

section \<open>Binding\<close>

text \<open>Two different inputs of a node with the same hash.\<close>

definition node_collision :: "(bytes \<Rightarrow> bytes) \<Rightarrow> bool" where
  "node_collision f \<longleftrightarrow> (\<exists>u v. length u = 64 \<and> length v = 64 \<and> u \<noteq> v \<and> f u = f v)"

text \<open>The number of levels above \<open>n\<close> leaves.\<close>

fun merkle_depth :: "nat \<Rightarrow> nat" where
  "merkle_depth n = (if n \<le> 1 then 0 else Suc (merkle_depth ((n + 1) div 2)))"

declare merkle_depth.simps [simp del]

abbreviation hashes_32 :: "bytes list \<Rightarrow> bool" where
  "hashes_32 \<equiv> list_all (\<lambda>h. length h = 32)"

lemma merkle_hash_inj:
  assumes "\<not> node_collision (sha256d sha256)" "merkle_hash sha256 a b = merkle_hash sha256 c d"
    and "length a = 32" "length b = 32" "length c = 32" "length d = 32"
  shows "a = c \<and> b = d"
proof -
  have "length (a @ b) = 64" "length (c @ d) = 64" using assms(3-6) by simp_all
  then have "a @ b = c @ d"
    using assms(1,2) unfolding node_collision_def merkle_hash_def by blast
  then show ?thesis using assms(3,5) by simp
qed

lemma merkle_level_32: "sha256_32 sha256 \<Longrightarrow> hashes_32 hs \<Longrightarrow> hashes_32 (merkle_level sha256 hs)"
  by (induction sha256 hs rule: merkle_level.induct) (auto simp: merkle_hash_def sha256d_def sha256_32_def)

lemma merkle_level_mem:
  "h \<in> set (merkle_level sha256 hs) \<Longrightarrow> \<exists>a b. a \<in> set hs \<and> b \<in> set hs \<and> h = merkle_hash sha256 a b"
  by (induction sha256 hs rule: merkle_level.induct) auto

text \<open>Without collisions a level determines the level below it and has no duplicates, if that level has none.\<close>

lemma merkle_level_distinct:
  assumes "\<not> node_collision (sha256d sha256)" "hashes_32 hs" "distinct hs"
  shows "distinct (merkle_level sha256 hs)"
  using assms(2,3)
proof (induction hs rule: induct_list012)
  case (3 x y zs)
  have "merkle_hash sha256 x y \<notin> set (merkle_level sha256 zs)"
  proof
    assume "merkle_hash sha256 x y \<in> set (merkle_level sha256 zs)"
    then obtain a b where ab: "a \<in> set zs" "b \<in> set zs" "merkle_hash sha256 x y = merkle_hash sha256 a b"
      using merkle_level_mem by blast
    then have "length a = 32" "length b = 32" using "3.prems"(1) by (auto simp: list_all_iff)
    then have "x = a" using merkle_hash_inj [OF assms(1) ab(3)] "3.prems"(1) by simp
    then show False using ab(1) "3.prems"(2) by simp
  qed
  then show ?case using "3.IH"(1) "3.prems" by simp
qed simp_all

lemma merkle_level_inj:
  assumes "\<not> node_collision (sha256d sha256)"
  shows "merkle_level sha256 xs = merkle_level sha256 ys \<Longrightarrow> hashes_32 xs \<Longrightarrow> hashes_32 ys \<Longrightarrow>
    distinct xs \<Longrightarrow> distinct ys \<Longrightarrow> xs = ys"
proof (induction xs arbitrary: ys rule: induct_list012)
  case 1
  then show ?case using length_merkle_level [of sha256 ys] by (cases ys) auto
next
  case (2 x)
  show ?case
  proof (cases ys rule: remdups_adj.cases)
    case (3 y y' zs)
    then have "merkle_hash sha256 x x = merkle_hash sha256 y y'" using "2.prems"(1) by simp
    then have "x = y \<and> x = y'" by (rule merkle_hash_inj [OF assms]) (use "2.prems" 3 in auto)
    then show ?thesis using "2.prems"(5) 3 by auto
  next
    case (2 y)
    then have "merkle_hash sha256 x x = merkle_hash sha256 y y" using "2.prems"(1) by simp
    then have "x = y \<and> x = y" by (rule merkle_hash_inj [OF assms]) (use "2.prems" 2 in auto)
    then show ?thesis using 2 by simp
  qed (use "2.prems" in auto)
next
  case (3 x x' xs)
  note p = "3.prems" and IH = "3.IH"(1)
  show ?case
  proof (cases ys rule: remdups_adj.cases)
    case (3 y y' zs)
    then have "merkle_hash sha256 x x' = merkle_hash sha256 y y'" using p(1) by simp
    then have "x = y \<and> x' = y'" by (rule merkle_hash_inj [OF assms]) (use p 3 in auto)
    then show ?thesis using p IH [of zs] 3 by simp
  next
    case (2 y)
    then have "merkle_hash sha256 x x' = merkle_hash sha256 y y" using p(1) by simp
    then have "x = y \<and> x' = y" by (rule merkle_hash_inj [OF assms]) (use p 2 in auto)
    then show ?thesis using p(4) by auto
  qed (use p in auto)
qed

lemma merkle_reduce_inj:
  assumes "\<not> node_collision (sha256d sha256)" "sha256_32 sha256"
  shows "merkle_reduce sha256 xs = merkle_reduce sha256 ys \<Longrightarrow> merkle_depth (length xs) = merkle_depth (length ys) \<Longrightarrow>
    hashes_32 xs \<Longrightarrow> hashes_32 ys \<Longrightarrow> distinct xs \<Longrightarrow> distinct ys \<Longrightarrow> xs = ys"
proof (induction "length xs" arbitrary: xs ys rule: less_induct)
  case less
  note p = less.prems
  have d: "merkle_depth (length zs) = 0 \<longleftrightarrow> length zs \<le> 1" for zs :: "bytes list"
    by (subst merkle_depth.simps) simp
  show ?case
  proof (cases "length xs > 1")
    case True
    then have y: "length ys > 1" using p(2) d [of xs] d [of ys] by linarith
    have "merkle_depth (length (merkle_level sha256 xs)) = merkle_depth (length (merkle_level sha256 ys))"
      using p(2) True y unfolding length_merkle_level
      by (simp add: merkle_depth.simps [of "length xs"] merkle_depth.simps [of "length ys"])
    moreover have "merkle_reduce sha256 (merkle_level sha256 xs) = merkle_reduce sha256 (merkle_level sha256 ys)"
      using p(1) True y by (simp add: merkle_reduce.simps [of sha256 xs] merkle_reduce.simps [of sha256 ys])
    ultimately have "merkle_level sha256 xs = merkle_level sha256 ys"
      using less.hyps [of "merkle_level sha256 xs" "merkle_level sha256 ys"] True p assms
      by (simp add: length_merkle_level merkle_level_32 merkle_level_distinct)
    then show ?thesis using merkle_level_inj [OF assms(1)] p by blast
  next
    case False
    then have "length ys \<le> 1" using p(2) d [of xs] d [of ys] by linarith
    then show ?thesis using p(1) False by (simp add: merkle_reduce.simps [of sha256 xs] merkle_reduce.simps [of sha256 ys])
  qed
qed

lemma length_merkle_reduce: "hs \<noteq> [] \<Longrightarrow> length (merkle_reduce sha256 hs) = 1"
proof (induction sha256 hs rule: merkle_reduce.induct)
  case (1 sha256 hs)
  show ?case
  proof (cases "length hs > 1")
    case True
    then have "merkle_level sha256 hs \<noteq> []" using length_merkle_level [of sha256 hs] by auto
    then show ?thesis using 1 True by (simp add: merkle_reduce.simps [of sha256 hs])
  next
    case False
    then have "merkle_reduce sha256 hs = hs" by (simp add: merkle_reduce.simps [of sha256 hs])
    then show ?thesis using False 1(2) by (cases hs) auto
  qed
qed

lemma merkle_root_Ok: "merkle_root sha256 hs = Ok r \<longleftrightarrow> merkle_reduce sha256 hs = [r]"
proof (cases "hs = []")
  case True
  then show ?thesis by (simp add: merkle_root_def merkle_reduce.simps [of sha256 "[]"])
next
  case False
  then show ?thesis
    using length_merkle_reduce [of hs sha256] by (auto simp: merkle_root_def length_Suc_conv split: list.splits)
qed

lemma merkle_root_total: "hs \<noteq> [] \<Longrightarrow> \<exists>r. merkle_root sha256 hs = Ok r"
  using length_merkle_reduce [of hs sha256] by (auto simp: merkle_root_Ok length_Suc_conv)

text \<open>The tree does not bind lists with repeated hashes: an odd level is hashed with its last node doubled.\<close>

lemma merkle_level_doubled: "even (length xs) \<Longrightarrow> merkle_level sha256 (xs @ [x, x]) = merkle_level sha256 (xs @ [x])"
  by (induction xs rule: induct_list012) auto

lemma merkle_root_doubled:
  assumes "even (length xs)" "xs \<noteq> []"
  shows "merkle_root sha256 (xs @ [x, x]) = merkle_root sha256 (xs @ [x])"
proof -
  have "1 < length (xs @ [x])" using assms(2) by (cases xs) auto
  then have "merkle_reduce sha256 (xs @ [x, x]) = merkle_reduce sha256 (xs @ [x])"
    by (simp add: merkle_reduce.simps [of sha256 "xs @ [x, x]"] merkle_reduce.simps [of sha256 "xs @ [x]"]
        merkle_level_doubled [OF assms(1)])
  then show ?thesis by (simp add: merkle_root_def)
qed

lemma card_set_eq: "length hs = card (set hs) \<longleftrightarrow> distinct hs"
  using card_distinct [of hs] distinct_card [of hs] by argo

lemma validity_Ok:
  "merkle_root_validity sha256 net root h upgrades hs = Ok u \<longleftrightarrow>
     merkle_reduce sha256 hs = [root] \<and> distinct hs \<and>
     check_transaction_network_upgrade_consistency net h upgrades = Ok u"
  by (auto simp: merkle_root_validity_def bindr_eq_Ok merkle_root_Ok card_set_eq)

lemma validity_duplicate:
  "merkle_root sha256 hs = (Ok root :: (merkle_error, _) res) \<Longrightarrow> \<not> distinct hs \<Longrightarrow>
    merkle_root_validity sha256 net root h upgrades hs = Err DuplicateTransaction"
  by (simp add: merkle_root_validity_def card_set_eq)

section \<open>Authorizing data\<close>

abbreviation auth_node :: "hasher \<Rightarrow> bytes \<Rightarrow> bytes" where
  "auth_node blake2b \<equiv> blake2b (map (\<lambda>c. word_of_nat (of_char c)) ''ZcashAuthDatHash'')"

fun pair_level :: "(bytes \<Rightarrow> bytes) \<Rightarrow> bytes list \<Rightarrow> bytes list" where
  "pair_level f (a # b # hs) = f (a @ b) # pair_level f hs"
| "pair_level f [a] = []"
| "pair_level f [] = []"

lemma length_pair_level: "length (pair_level f hs) = length hs div 2"
  by (induction f hs rule: pair_level.induct) auto

lemma auth_data_level_eq:
  "digest_32 blake2b \<Longrightarrow> even (length hs) \<Longrightarrow> auth_data_level blake2b hs = Ok (pair_level (auth_node blake2b) hs)"
  by (induction hs rule: induct_list012) (auto simp: auth_data_hash_def digest_32_def)

lemma pair_level_32: "\<forall>x. length (f x) = 32 \<Longrightarrow> hashes_32 (pair_level f hs)"
  by (induction f hs rule: pair_level.induct) auto

lemma pair_level_inj:
  assumes "\<not> node_collision f"
  shows "length xs = length ys \<Longrightarrow> even (length xs) \<Longrightarrow> hashes_32 xs \<Longrightarrow> hashes_32 ys \<Longrightarrow>
    pair_level f xs = pair_level f ys \<Longrightarrow> xs = ys"
proof (induction xs arbitrary: ys rule: induct_list012)
  case (3 a b xs)
  then obtain c d zs where ys: "ys = c # d # zs" by (cases ys rule: remdups_adj.cases) auto
  have "length (a @ b) = 64" "length (c @ d) = 64" "f (a @ b) = f (c @ d)" using "3.prems" ys by simp_all
  then have "a @ b = c @ d" using assms unfolding node_collision_def by blast
  then have "a = c" "b = d" using "3.prems" ys by simp_all
  moreover have "xs = zs" using "3.prems" "3.IH"(1) [of zs] ys by simp
  ultimately show ?case using ys by simp
qed auto

lemma auth_data_reduce_power:
  assumes "digest_32 blake2b" "length hs = 2 ^ Suc k"
  shows "auth_data_reduce blake2b hs = auth_data_reduce blake2b (pair_level (auth_node blake2b) hs)"
proof -
  have "length hs > 1" unfolding assms(2) by (rule one_less_power) simp_all
  moreover have "even (length hs)" unfolding assms(2) by simp
  ultimately show ?thesis by (simp add: auth_data_reduce.simps [of blake2b hs] auth_data_level_eq [OF assms(1)])
qed

lemma auth_data_reduce_single: "length hs = 1 \<Longrightarrow> auth_data_reduce blake2b hs = Ok hs"
  by (simp add: auth_data_reduce.simps [of blake2b hs])

lemma auth_data_reduce_total:
  assumes "digest_32 blake2b"
  shows "length hs = 2 ^ k \<Longrightarrow> \<exists>r. auth_data_reduce blake2b hs = Ok [r]"
proof (induction k arbitrary: hs)
  case 0
  then show ?case by (auto simp: auth_data_reduce_single length_Suc_conv)
next
  case (Suc k)
  then show ?case
    using auth_data_reduce_power [OF assms Suc.prems] Suc.IH [of "pair_level (auth_node blake2b) hs"]
    by (simp add: length_pair_level)
qed

lemma auth_data_reduce_inj:
  assumes "digest_32 blake2b" "\<not> node_collision (auth_node blake2b)"
  shows "length xs = 2 ^ k \<Longrightarrow> length ys = 2 ^ k \<Longrightarrow> hashes_32 xs \<Longrightarrow> hashes_32 ys \<Longrightarrow>
    auth_data_reduce blake2b xs = auth_data_reduce blake2b ys \<Longrightarrow> xs = ys"
proof (induction k arbitrary: xs ys)
  case 0
  then show ?case by (simp add: auth_data_reduce_single)
next
  case (Suc k)
  let ?p = "pair_level (auth_node blake2b)"
  have "hashes_32 (?p zs)" for zs using assms(1) by (intro pair_level_32) (simp add: digest_32_def)
  then have "?p xs = ?p ys"
    using Suc.IH [of "?p xs" "?p ys"] Suc.prems auth_data_reduce_power [OF assms(1), of _ k]
    by (simp add: length_pair_level)
  then show ?case using pair_level_inj [OF assms(2), of xs ys] Suc.prems by simp
qed

lemma next_power_of_two_from: "p = 2 ^ j \<Longrightarrow> \<exists>k. next_power_of_two_from p n = 2 ^ k \<and> n \<le> 2 ^ k"
proof (induction p n arbitrary: j rule: next_power_of_two_from.induct)
  case (1 p n)
  show ?case
  proof (cases "n \<le> p")
    case True
    then have "next_power_of_two_from p n = p" by (simp add: next_power_of_two_from.simps [of p n])
    then show ?thesis using True 1(2) by auto
  next
    case False
    moreover have "p \<noteq> 0" using 1(2) by simp
    ultimately have "next_power_of_two_from p n = next_power_of_two_from (2 * p) n"
      by (simp add: next_power_of_two_from.simps [of p n])
    moreover have "2 * p = 2 ^ Suc j" using 1(2) by simp
    ultimately show ?thesis using 1(1) [of "Suc j"] False \<open>p \<noteq> 0\<close> by presburger
  qed
qed

definition auth_padded :: "bytes list \<Rightarrow> bytes list" where
  "auth_padded ds = ds @ replicate (next_power_of_two (length ds) - length ds) (replicate 32 0)"

lemma length_auth_padded: "\<exists>k. length (auth_padded ds) = 2 ^ k"
  using next_power_of_two_from [of 1 0 "length ds"] by (auto simp: auth_padded_def next_power_of_two_def)

lemma is_power_of_two_pow: "is_power_of_two (2 ^ k)"
  by (induction k) (simp_all add: is_power_of_two.simps)

lemma auth_data_root_eq:
  assumes "digest_32 blake2b"
  shows "\<exists>r. auth_data_root blake2b ds = Ok r \<and> auth_data_reduce blake2b (auth_padded ds) = Ok [r]"
proof -
  obtain k where k: "length (auth_padded ds) = 2 ^ k" using length_auth_padded by blast
  obtain r where "auth_data_reduce blake2b (auth_padded ds) = Ok [r]" using auth_data_reduce_total [OF assms k] by blast
  then show ?thesis
    using k is_power_of_two_pow [of k]
    by (simp add: auth_data_root_def auth_padded_def [symmetric] Let_def assertr_def)
qed

lemma auth_data_root_inj:
  assumes "digest_32 blake2b" "\<not> node_collision (auth_node blake2b)" "hashes_32 xs" "hashes_32 ys"
    and "length xs = length ys" "auth_data_root blake2b xs = auth_data_root blake2b ys"
  shows "xs = ys"
proof -
  obtain k where k: "length (auth_padded xs) = 2 ^ k" using length_auth_padded by blast
  have "hashes_32 (auth_padded xs)" "hashes_32 (auth_padded ys)" "length (auth_padded ys) = 2 ^ k"
    using assms(3-5) k by (auto simp: auth_padded_def list_all_iff)
  moreover have "auth_data_reduce blake2b (auth_padded xs) = auth_data_reduce blake2b (auth_padded ys)"
    using auth_data_root_eq [OF assms(1), of xs] auth_data_root_eq [OF assms(1), of ys] assms(6) by auto
  ultimately have "auth_padded xs = auth_padded ys" using auth_data_reduce_inj [OF assms(1,2) k] by blast
  then show ?thesis using assms(5) by (simp add: auth_padded_def)
qed


definition zero_sha256 :: digest where
  "zero_sha256 _ = replicate 32 0"


end
