(* ===== verification/History_Tree.thy ===== *)
theory History_Tree
  imports History_Nodes
begin

text \<open>
  The chain history tree (\<open>zakura-mmr-tree/src/tree.rs\<close>): a partially loaded view of an array-backed Merkle
  mountain range, appending and truncating leaves. A \<open>HashMap\<close> of loaded entries is a partial map. The
  operations return the new view on success; on an error the callers drop the view. Following links through
  loaded entries may go around in circles, so collecting the peaks is a partial function whose value \<open>None\<close>
  stands for a call that never returns; every other operation is total.
\<close>

section \<open>The view and its links\<close>

record 'd tree =
  t_stored :: "nat \<Rightarrow> 'd entry option"
  t_generated :: "'d entry list"
  t_stored_count :: nat
  t_root :: entry_link

definition resolve_link :: "'d tree \<Rightarrow> entry_link \<Rightarrow> 'd entry history_res" where
  "resolve_link t link =
     ok_or (ExpectedInMemory link)
       (case link of
          Generated i \<Rightarrow> if i < length (t_generated t) then Some (t_generated t ! i) else None
        | Stored i \<Rightarrow> t_stored t i)"

definition augment :: "history_error \<Rightarrow> entry_link \<Rightarrow> history_error" where
  "augment e link = (case e of ExpectedNode _ \<Rightarrow> ExpectedNode (Some link) | val \<Rightarrow> val)"

text \<open>An \<open>IndexedNode\<close> is an entry with the link it was resolved from.\<close>

definition indexed_left :: "'d entry \<times> entry_link \<Rightarrow> entry_link history_res" where
  "indexed_left n = map_err (\<lambda>e. augment e (snd n)) (entry_left (fst n))"

definition indexed_right :: "'d entry \<times> entry_link \<Rightarrow> entry_link history_res" where
  "indexed_right n = map_err (\<lambda>e. augment e (snd n)) (entry_right (fst n))"

definition combine_nodes ::
  "hasher \<Rightarrow> 'd version \<Rightarrow> 'd entry \<times> entry_link \<Rightarrow> 'd entry \<times> entry_link \<Rightarrow> 'd entry history_res" where
  "combine_nodes blake2b V l r =
     mapr (\<lambda>d. entry_new d (snd l) (snd r)) (combine blake2b V (e_data (fst l)) (e_data (fst r)))"

text \<open>Resolving two links and combining what they point to.\<close>

definition combine_links ::
  "hasher \<Rightarrow> 'd version \<Rightarrow> 'd tree \<Rightarrow> entry_link \<Rightarrow> entry_link \<Rightarrow> 'd entry history_res" where
  "combine_links blake2b V t l r =
     bindr (resolve_link t l) (\<lambda>le. bindr (resolve_link t r) (\<lambda>re. combine_nodes blake2b V (le, l) (re, r)))"

definition push :: "'d entry \<Rightarrow> 'd tree \<Rightarrow> ('e, entry_link \<times> 'd tree) res" where
  "push e t =
     (let idx = t_stored_count t in
      bindr (expect_some (u32_checked (idx + 1))) (\<lambda>n.
      Ok (Stored idx, t\<lparr>t_stored := (t_stored t)(idx \<mapsto> e), t_stored_count := n\<rparr>)))"

definition push_generated :: "'d entry \<Rightarrow> 'd tree \<Rightarrow> ('e, entry_link \<times> 'd tree) res" where
  "push_generated e t =
     bindr (expect_some (u32_checked (length (t_generated t)))) (\<lambda>i.
     Ok (Generated i, t\<lparr>t_generated := t_generated t @ [e]\<rparr>))"

definition pop :: "'d tree \<Rightarrow> ('e, 'd tree) res" where
  "pop t =
     bindr (expect_some (u_checked_sub (t_stored_count t) 1)) (\<lambda>n.
     Ok (t\<lparr>t_stored := (t_stored t)(n := None), t_stored_count := n\<rparr>))"

section \<open>Creating a view\<close>

definition invalid_tree :: "'d tree" where
  "invalid_tree =
     \<lparr>t_stored = \<lambda>_. None, t_generated = [], t_stored_count = 0, t_root = Generated 0\<rparr>"

definition insert_stored :: "nat \<times> 'd entry \<Rightarrow> 'd tree \<Rightarrow> 'd tree" where
  "insert_stored p t = t\<lparr>t_stored := (t_stored t)(fst p \<mapsto> snd p)\<rparr>"

primrec load_peaks ::
  "hasher \<Rightarrow> 'd version \<Rightarrow> (nat \<times> 'd entry) list \<Rightarrow> entry_link \<times> 'd tree \<Rightarrow> (entry_link \<times> 'd tree) history_res"
where
  "load_peaks blake2b V [] s = Ok s"
| "load_peaks blake2b V (p # ps) s =
     (let t = insert_stored p (snd s) in
      bindr (expect_ok (resolve_link t (fst s))) (\<lambda>l.
      bindr (expect_ok (resolve_link t (Stored (fst p)))) (\<lambda>r.
      bindr (combine_nodes blake2b V (l, fst s) (r, Stored (fst p))) (\<lambda>e.
      bindr (push_generated e t) (load_peaks blake2b V ps)))))"

definition tree_new ::
  "hasher \<Rightarrow> 'd version \<Rightarrow> nat \<Rightarrow> (nat \<times> 'd entry) list \<Rightarrow> (nat \<times> 'd entry) list \<Rightarrow> 'd tree history_res" where
  "tree_new blake2b V len peaks extra =
     (case peaks of
        [] \<Rightarrow> Panic
      | p # ps \<Rightarrow>
          bindr (load_peaks blake2b V ps
                   (Stored (fst p), insert_stored p (invalid_tree\<lparr>t_stored_count := len\<rparr>))) (\<lambda>(root, t).
          Ok ((fold insert_stored extra t)\<lparr>t_root := root\<rparr>)))"

section \<open>Appending a leaf\<close>

text \<open>Sequencing of calls that may not return.\<close>

definition bindo :: "('e, 'a) res option \<Rightarrow> ('a \<Rightarrow> ('e, 'b) res option) \<Rightarrow> ('e, 'b) res option" where
  "bindo m k = Option.bind m (\<lambda>r. case r of Ok x \<Rightarrow> k x | Err e \<Rightarrow> Some (Err e) | Panic \<Rightarrow> Some Panic)"

lemma bindo_simps [simp]:
  "bindo None k = None" "bindo (Some (Ok x)) k = k x" "bindo (Some (Err e)) k = Some (Err e)"
  "bindo (Some Panic) k = Some Panic"
  by (simp_all add: bindo_def)

lemma bindo_mono [partial_function_mono]:
  assumes "mono_option m" "\<And>x. mono_option (\<lambda>f. k x f)"
  shows "mono_option (\<lambda>f. bindo (m f) (\<lambda>x. k x f))"
  unfolding bindo_def
proof (rule bind_mono [OF assms(1)])
  fix y
  show "mono_option (\<lambda>f. case y of Ok x \<Rightarrow> k x f | Err e \<Rightarrow> Some (Err e) | Panic \<Rightarrow> Some Panic)"
    by (cases y) (auto intro: assms(2) option.const_mono)
qed

text \<open>The children of an incomplete node.\<close>

definition peak_children :: "'d version \<Rightarrow> 'd tree \<Rightarrow> entry_link \<Rightarrow> (entry_link \<times> entry_link) option history_res" where
  "peak_children V t link =
     bindr (resolve_link t link) (\<lambda>node.
     bindr (complete V node) (\<lambda>whole.
     if whole then Ok None
     else bindr (indexed_left (node, link)) (\<lambda>l. bindr (indexed_right (node, link)) (\<lambda>r. Ok (Some (l, r))))))"

partial_function (option) get_peaks ::
  "'d version \<Rightarrow> 'd tree \<Rightarrow> entry_link \<Rightarrow> entry_link list \<Rightarrow> entry_link list history_res option"
where
  "get_peaks V t link target =
     bindo (Some (peak_children V t link)) (\<lambda>children.
       case children of
         None \<Rightarrow> Some (Ok (target @ [link]))
       | Some c \<Rightarrow> bindo (get_peaks V t (fst c) target) (\<lambda>target'. get_peaks V t (snd c) target'))"

text \<open>The peaks are popped from the right, so the list is reversed; the head of the merge stack is its top.\<close>

primrec merge_peaks ::
  "hasher \<Rightarrow> 'd version \<Rightarrow> entry_link list \<Rightarrow> 'd tree \<Rightarrow> entry_link list \<Rightarrow> entry_link list \<Rightarrow>
   ('d tree \<times> entry_link list \<times> entry_link list) history_res"
where
  "merge_peaks blake2b V [] t merge_stack appended = Ok (t, merge_stack, appended)"
| "merge_peaks blake2b V (next_peak # peaks) t merge_stack appended =
     (case merge_stack of
        [] \<Rightarrow> Panic
      | next_merge # stack \<Rightarrow>
          bindr (resolve_link t next_peak) (\<lambda>peak.
          bindr (resolve_link t next_merge) (\<lambda>m.
          bindr (leaf_count V peak) (\<lambda>peak_count.
          bindr (leaf_count V m) (\<lambda>m_count.
          if peak_count = m_count then
            bindr (combine_nodes blake2b V (peak, next_peak) (m, next_merge)) (\<lambda>e.
            bindr (push e t) (\<lambda>(link, t').
            merge_peaks blake2b V peaks t' (link # stack) (appended @ [link])))
          else merge_peaks blake2b V peaks t (next_peak # next_merge # stack) appended)))))"

primrec join_peaks ::
  "hasher \<Rightarrow> 'd version \<Rightarrow> entry_link list \<Rightarrow> entry_link \<Rightarrow> 'd tree \<Rightarrow> (entry_link \<times> 'd tree) history_res"
where
  "join_peaks blake2b V [] new_root t = Ok (new_root, t)"
| "join_peaks blake2b V (next_child # children) new_root t =
     bindr (combine_links blake2b V t new_root next_child) (\<lambda>e.
     bindr (push_generated e t) (\<lambda>(link, t').
     join_peaks blake2b V children link t'))"

definition append_leaf ::
  "hasher \<Rightarrow> 'd version \<Rightarrow> 'd \<Rightarrow> 'd tree \<Rightarrow> (entry_link list \<times> 'd tree) history_res option" where
  "append_leaf blake2b V new_leaf t =
     bindo (Some (push (entry_new_leaf new_leaf) t)) (\<lambda>(new_leaf_link, t1).
     bindo (get_peaks V t1 (t_root t) []) (\<lambda>peaks. Some (
       bindr (merge_peaks blake2b V (rev peaks) t1 [new_leaf_link] [new_leaf_link])
         (\<lambda>(t2, merge_stack, appended).
       case merge_stack of
         [] \<Rightarrow> Panic
       | new_root # children \<Rightarrow>
           bindr (join_peaks blake2b V children new_root t2) (\<lambda>(r, t3).
           Ok (appended, t3\<lparr>t_root := r\<rparr>))))))"

section \<open>Truncating a leaf\<close>

text \<open>The walk down the right spine; the counter is a \<open>u32\<close>.\<close>

function right_spine ::
  "'d tree \<Rightarrow> entry_link \<Rightarrow> entry_link list \<Rightarrow> nat \<Rightarrow> (entry_link list \<times> nat) history_res"
where
  "right_spine t link peaks truncated =
     bindr (resolve_link t link) (\<lambda>node.
     case e_kind node of
       NodeEntry l r \<Rightarrow>
         if in_u32 (truncated + 1) then right_spine t r (peaks @ [l]) (truncated + 1) else Panic
     | LeafEntry \<Rightarrow> Ok (peaks, truncated))"
  by pat_completeness auto
termination
  by (relation "measure (\<lambda>(t, link, peaks, truncated). 2 ^ 32 - truncated)") (auto simp: in_u32_def)

declare right_spine.simps [simp del]

primrec pop_many :: "nat \<Rightarrow> 'd tree \<Rightarrow> ('e, 'd tree) res" where
  "pop_many 0 t = Ok t"
| "pop_many (Suc n) t = bindr (pop t) (pop_many n)"

definition truncate_leaf :: "hasher \<Rightarrow> 'd version \<Rightarrow> 'd tree \<Rightarrow> (nat \<times> 'd tree) history_res" where
  "truncate_leaf blake2b V t =
     bindr (resolve_link t (t_root t)) (\<lambda>root.
     bindr (leaf_count V root) (\<lambda>leaves.
     bindr (entry_left root) (\<lambda>root_left_child.
     if odd leaves then bindr (pop t) (\<lambda>t'. Ok (1, t'\<lparr>t_root := root_left_child\<rparr>))
     else
       bindr (indexed_left (root, t_root t)) (\<lambda>first_peak.
       bindr (indexed_right (root, t_root t)) (\<lambda>subtree_root_link.
       bindr (right_spine t subtree_root_link [first_peak] 1) (\<lambda>(peaks, n).
       bindr (complete V root) (\<lambda>whole.
       bindr (if whole then expect_some (u32_checked (n + 1)) else Ok n) (\<lambda>truncated.
       case peaks of
         [] \<Rightarrow> Panic
       | new_root # rest \<Rightarrow>
           bindr (join_peaks blake2b V rest new_root t) (\<lambda>(r, t').
           bindr (pop_many truncated t') (\<lambda>t''.
           Ok (truncated, t''\<lparr>t_root := r\<rparr>)))))))))))"

definition tree_len :: "'d tree \<Rightarrow> nat" where
  "tree_len t = t_stored_count t"

definition root_node :: "'d tree \<Rightarrow> 'd entry history_res" where
  "root_node t = resolve_link t (t_root t)"

definition tree_is_empty :: "'d tree \<Rightarrow> bool" where
  "tree_is_empty t \<longleftrightarrow> t_stored_count t = 0"

section \<open>Mountains\<close>

text \<open>The reference: a perfect binary tree over a run of leaves, whose inner nodes hold the combination of
their children. In the array its nodes lie in post-order, so a tree at offset \<open>p\<close> has its root at
\<open>p + mt_size t - 1\<close>.\<close>

datatype 'd mt = MLeaf 'd | MNode 'd "'d mt" "'d mt"

primrec mt_data :: "'d mt \<Rightarrow> 'd" where
  "mt_data (MLeaf d) = d"
| "mt_data (MNode d l r) = d"

primrec mt_leaves :: "'d mt \<Rightarrow> 'd list" where
  "mt_leaves (MLeaf d) = [d]"
| "mt_leaves (MNode d l r) = mt_leaves l @ mt_leaves r"

primrec mt_size :: "'d mt \<Rightarrow> nat" where
  "mt_size (MLeaf d) = 1"
| "mt_size (MNode d l r) = mt_size l + mt_size r + 1"

fun perfect :: "nat \<Rightarrow> 'd mt \<Rightarrow> bool" where
  "perfect 0 (MLeaf d) \<longleftrightarrow> True"
| "perfect (Suc k) (MNode d l r) \<longleftrightarrow> perfect k l \<and> perfect k r"
| "perfect _ _ \<longleftrightarrow> False"

primrec mt_ok :: "hasher \<Rightarrow> 'd version \<Rightarrow> 'd mt \<Rightarrow> bool" where
  "mt_ok blake2b V (MLeaf d) \<longleftrightarrow> True"
| "mt_ok blake2b V (MNode d l r) \<longleftrightarrow>
     combine blake2b V (mt_data l) (mt_data r) = Ok d \<and> mt_ok blake2b V l \<and> mt_ok blake2b V r"

definition mt_top :: "nat \<Rightarrow> 'd mt \<Rightarrow> nat" where
  "mt_top p t = p + mt_size t - 1"

definition mt_entry :: "nat \<Rightarrow> 'd mt \<Rightarrow> 'd entry" where
  "mt_entry p t =
     (case t of
        MLeaf d \<Rightarrow> entry_new_leaf d
      | MNode d l r \<Rightarrow> entry_new d (Stored (mt_top p l)) (Stored (mt_top (p + mt_size l) r)))"

text \<open>A tree whose root is loaded, and one whose right spine is loaded with the siblings along it.\<close>

definition top_loaded :: "(nat \<Rightarrow> 'd entry option) \<Rightarrow> nat \<Rightarrow> 'd mt \<Rightarrow> bool" where
  "top_loaded m p t \<longleftrightarrow> m (mt_top p t) = Some (mt_entry p t)"

primrec spine_loaded :: "(nat \<Rightarrow> 'd entry option) \<Rightarrow> nat \<Rightarrow> 'd mt \<Rightarrow> bool" where
  "spine_loaded m p (MLeaf d) \<longleftrightarrow> top_loaded m p (MLeaf d)"
| "spine_loaded m p (MNode d l r) \<longleftrightarrow>
     top_loaded m p (MNode d l r) \<and> top_loaded m p l \<and> spine_loaded m (p + mt_size l) r"

definition offs :: "'d mt list \<Rightarrow> nat" where
  "offs ts = sum_list (map mt_size ts)"

primrec peak_links :: "nat \<Rightarrow> 'd mt list \<Rightarrow> entry_link list" where
  "peak_links p [] = []"
| "peak_links p (t # ts) = Stored (mt_top p t) # peak_links (p + mt_size t) ts"

primrec tops_loaded :: "(nat \<Rightarrow> 'd entry option) \<Rightarrow> nat \<Rightarrow> 'd mt list \<Rightarrow> bool" where
  "tops_loaded m p [] \<longleftrightarrow> True"
| "tops_loaded m p (t # ts) \<longleftrightarrow> top_loaded m p t \<and> tops_loaded m (p + mt_size t) ts"

abbreviation all_leaves :: "'d mt list \<Rightarrow> 'd list" where
  "all_leaves ts \<equiv> concat (map mt_leaves ts)"

text \<open>The mountain range of a list of leaves: perfect trees of strictly decreasing height.\<close>

definition mountains :: "hasher \<Rightarrow> 'd version \<Rightarrow> nat list \<Rightarrow> 'd mt list \<Rightarrow> bool" where
  "mountains blake2b V ks ts \<longleftrightarrow>
     list_all2 perfect ks ts \<and> sorted_wrt (>) ks \<and> list_all (mt_ok blake2b V) ts"

text \<open>The root is a left-leaning chain of generated nodes over the peaks.\<close>

inductive chain :: "hasher \<Rightarrow> 'd version \<Rightarrow> 'd tree \<Rightarrow> entry_link \<Rightarrow> 'd mt list \<Rightarrow> 'd \<Rightarrow> bool"
  for blake2b V t where
  single: "top_loaded (t_stored t) 0 x \<Longrightarrow> chain blake2b V t (Stored (mt_top 0 x)) [x] (mt_data x)"
| join: "chain blake2b V t l ts d \<Longrightarrow> top_loaded (t_stored t) (offs ts) x \<Longrightarrow>
    g < length (t_generated t) \<Longrightarrow>
    t_generated t ! g = entry_new d' l (Stored (mt_top (offs ts) x)) \<Longrightarrow>
    combine blake2b V d (mt_data x) = Ok d' \<Longrightarrow>
    chain blake2b V t (Generated g) (ts @ [x]) d'"

text \<open>What a view represents: the list of leaves of its mountain range. The right edge is loaded when the
nodes that removing the last leaf needs are there.\<close>

definition view_of :: "hasher \<Rightarrow> 'd version \<Rightarrow> 'd tree \<Rightarrow> 'd mt list \<Rightarrow> bool" where
  "view_of blake2b V t ts \<longleftrightarrow>
     (\<exists>d. chain blake2b V t (t_root t) ts d) \<and> (\<exists>ks. mountains blake2b V ks ts) \<and>
     t_stored_count t = offs ts \<and> tops_loaded (t_stored t) 0 ts"

definition represents :: "hasher \<Rightarrow> 'd version \<Rightarrow> 'd tree \<Rightarrow> 'd list \<Rightarrow> bool" where
  "represents blake2b V t xs \<longleftrightarrow> (\<exists>ts. view_of blake2b V t ts \<and> all_leaves ts = xs)"

definition right_edge_loaded :: "hasher \<Rightarrow> 'd version \<Rightarrow> 'd tree \<Rightarrow> 'd list \<Rightarrow> bool" where
  "right_edge_loaded blake2b V t xs \<longleftrightarrow>
     (\<exists>ts. view_of blake2b V t ts \<and> all_leaves ts = xs \<and>
        spine_loaded (t_stored t) (offs (butlast ts)) (last ts))"

text \<open>Leaves of consecutive heights on one branch whose totals fit, and metadata that summarises them.\<close>

definition good_leaves ::
  "'d version \<Rightarrow> ('d \<Rightarrow> bool) \<Rightarrow> (nat \<Rightarrow> 'd \<Rightarrow> nat) \<Rightarrow> nat \<Rightarrow> nat \<Rightarrow> 'd list \<Rightarrow> bool" where
  "good_leaves V valid tot b h xs \<longleftrightarrow>
     0 < h \<and> list_all valid xs \<and>
     (\<forall>i < length xs. ver_branch_id V (xs ! i) = b \<and> ver_start_height V (xs ! i) = h + i \<and>
        ver_end_height V (xs ! i) = h + i) \<and>
     (\<forall>i. sum_list (map (tot i) xs) < total_cap i)"

definition summarises ::
  "'d version \<Rightarrow> ('d \<Rightarrow> bool) \<Rightarrow> (nat \<Rightarrow> 'd \<Rightarrow> nat) \<Rightarrow> nat \<Rightarrow> nat \<Rightarrow> 'd list \<Rightarrow> 'd \<Rightarrow> bool" where
  "summarises V valid tot b h xs d \<longleftrightarrow>
     valid d \<and> ver_branch_id V d = b \<and> ver_start_height V d = h \<and>
     ver_end_height V d + 1 = h + length xs \<and> (\<forall>i. tot i d = sum_list (map (tot i) xs))"

text \<open>The entries of the peaks, as a caller loads them to create a view.\<close>

primrec peak_entries :: "nat \<Rightarrow> 'd mt list \<Rightarrow> (nat \<times> 'd entry) list" where
  "peak_entries p [] = []"
| "peak_entries p (t # ts) = (mt_top p t, mt_entry p t) # peak_entries (p + mt_size t) ts"

text \<open>The mountains left when the last leaf of a perfect tree is removed: the left siblings along its right
spine.\<close>

primrec left_siblings :: "'d mt \<Rightarrow> 'd mt list" where
  "left_siblings (MLeaf d) = []"
| "left_siblings (MNode d l r) = l # left_siblings r"

primrec last_leaf :: "'d mt \<Rightarrow> 'd" where
  "last_leaf (MLeaf d) = d"
| "last_leaf (MNode d l r) = last_leaf r"

section \<open>The specified root\<close>

text \<open>The root of a list of leaves as ZIP 221 defines it: the leaves are cut into runs of decreasing powers of
two, each run is hashed as a perfect binary tree, and the peaks are combined from left to right.\<close>

fun top_bit :: "nat \<Rightarrow> nat" where
  "top_bit n = (if n \<le> 1 then 0 else Suc (top_bit (n div 2)))"

declare top_bit.simps [simp del]

fun subtree_root :: "hasher \<Rightarrow> 'd version \<Rightarrow> nat \<Rightarrow> 'd list \<Rightarrow> 'd history_res" where
  "subtree_root blake2b V 0 xs = (case xs of [x] \<Rightarrow> Ok x | _ \<Rightarrow> Panic)"
| "subtree_root blake2b V (Suc k) xs =
     bindr (subtree_root blake2b V k (take (2 ^ k) xs)) (\<lambda>l.
     bindr (subtree_root blake2b V k (drop (2 ^ k) xs)) (\<lambda>r.
     combine blake2b V l r))"

function peak_roots :: "hasher \<Rightarrow> 'd version \<Rightarrow> 'd list \<Rightarrow> 'd list history_res" where
  "peak_roots blake2b V xs =
     (if xs = [] then Ok []
      else let n = 2 ^ top_bit (length xs) in
        bindr (subtree_root blake2b V (top_bit (length xs)) (take n xs)) (\<lambda>p.
        bindr (peak_roots blake2b V (drop n xs)) (\<lambda>ps.
        Ok (p # ps))))"
  by pat_completeness auto
termination
  by (relation "measure (\<lambda>(_, _, xs). length xs)") auto

declare peak_roots.simps [simp del]

definition mmr_root :: "hasher \<Rightarrow> 'd version \<Rightarrow> 'd list \<Rightarrow> 'd history_res" where
  "mmr_root blake2b V xs =
     bindr (peak_roots blake2b V xs) (\<lambda>ps.
     case ps of [] \<Rightarrow> Panic | p # qs \<Rightarrow> try_fold (combine blake2b V) p qs)"

section \<open>Sizes and positions\<close>

lemma mt_size_pos [simp]: "0 < mt_size t"
  by (cases t) simp_all

lemma mt_leaves_ne [simp]: "mt_leaves t \<noteq> []"
  by (induction t) simp_all

lemma mt_size_leaves: "mt_size t + 1 = 2 * length (mt_leaves t)"
  by (induction t) simp_all

lemma perfect_leaves: "perfect k t \<Longrightarrow> length (mt_leaves t) = 2 ^ k"
  by (induction k t rule: perfect.induct) auto

lemma perfect_unique: "perfect j t \<Longrightarrow> perfect k t \<Longrightarrow> j = k"
  using perfect_leaves [of j t] perfect_leaves [of k t] by simp

lemma offs_simps [simp]: "offs [] = 0" "offs (t # ts) = mt_size t + offs ts" "offs (ts @ us) = offs ts + offs us"
  by (simp_all add: offs_def)

lemma offs_le: "offs ts \<le> 2 * length (all_leaves ts)"
proof (induction ts)
  case (Cons t ts)
  then show ?case using mt_size_leaves [of t] by simp
qed simp

lemma mt_top_less [simp]: "mt_top p t < p + mt_size t"
  by (simp add: mt_top_def)

lemma top_node: "mt_top p (MNode d l r) = p + mt_size l + mt_size r"
  by (simp add: mt_top_def)

lemma data_mt_entry [simp]: "e_data (mt_entry p t) = mt_data t"
  by (cases t) (simp_all add: mt_entry_def entry_new_def entry_new_leaf_def)

lemma peak_links_append: "peak_links p (ts @ us) = peak_links p ts @ peak_links (p + offs ts) us"
  by (induction ts arbitrary: p) (simp_all add: add.assoc)

lemma tops_loaded_append:
  "tops_loaded m p (ts @ us) \<longleftrightarrow> tops_loaded m p ts \<and> tops_loaded m (p + offs ts) us"
  by (induction ts arbitrary: p) (auto simp: add.assoc)

lemma top_loaded_cong: "\<forall>i < p + mt_size t. m' i = m i \<Longrightarrow> top_loaded m' p t = top_loaded m p t"
  by (simp add: top_loaded_def)

lemma tops_loaded_cong: "\<forall>i < p + offs ts. m' i = m i \<Longrightarrow> tops_loaded m' p ts = tops_loaded m p ts"
proof (induction ts arbitrary: p)
  case (Cons t ts)
  then show ?case using top_loaded_cong [of p t m' m] by (simp add: add.assoc)
qed simp

lemma spine_loaded_cong: "\<forall>i < p + mt_size t. m' i = m i \<Longrightarrow> spine_loaded m' p t = spine_loaded m p t"
proof (induction t arbitrary: p)
  case (MNode d l r)
  then show ?case
    using top_loaded_cong [of p l m' m] top_loaded_cong [of p "MNode d l r" m' m] by (simp add: add.assoc)
qed (simp add: top_loaded_cong)

lemma spine_top: "spine_loaded m p t \<Longrightarrow> top_loaded m p t"
  by (cases t) simp_all

lemma resolve_top: "top_loaded (t_stored t) p x \<Longrightarrow> resolve_link t (Stored (mt_top p x)) = Ok (mt_entry p x)"
  by (simp add: resolve_link_def top_loaded_def)

lemma is_power_of_two_iff: "is_power_of_two n \<longleftrightarrow> (\<exists>k. n = 2 ^ k)"
proof (induction n rule: is_power_of_two.induct)
  case (1 n)
  show ?case
  proof (cases "n = 0 \<or> n = 1")
    case True
    then show ?thesis using power_eq_if [of 2] by (auto simp: is_power_of_two.simps [of n] intro: exI [of _ 0])
  next
    case False
    then have step: "is_power_of_two n \<longleftrightarrow> even n \<and> (\<exists>k. n div 2 = 2 ^ k)"
      using 1 by (simp add: is_power_of_two.simps [of n])
    have "(even n \<and> n div 2 = 2 ^ k) \<longleftrightarrow> n = 2 ^ Suc k" for k by auto
    moreover have "(\<exists>k. n = 2 ^ k) \<longleftrightarrow> (\<exists>k. n = 2 ^ Suc k)"
    proof
      assume "\<exists>k. n = 2 ^ k"
      then obtain k where k: "n = 2 ^ k" by blast
      then show "\<exists>k. n = 2 ^ Suc k" using False by (cases k) auto
    qed blast
    ultimately show ?thesis using step by blast
  qed
qed

lemma mountains_length:
  "mountains blake2b V ks ts \<Longrightarrow> length (all_leaves ts) = sum_list (map (\<lambda>k. 2 ^ k) ks)"
  unfolding mountains_def
  by (elim conjE, induction ks ts rule: list_all2_induct) (auto simp: perfect_leaves)

lemma sum_powers_less: "sorted_wrt (>) ks \<Longrightarrow> \<forall>k \<in> set ks. k < n \<Longrightarrow> sum_list (map (\<lambda>k. 2 ^ k) ks) < (2 ^ n :: nat)"
proof (induction ks arbitrary: n)
  case (Cons k ks)
  then have "sum_list (map (\<lambda>k. 2 ^ k) ks) < (2 ^ k :: nat)" by auto
  then have "sum_list (map (\<lambda>k. 2 ^ k) (k # ks)) < (2 ^ Suc k :: nat)" by simp
  also have "\<dots> \<le> 2 ^ n" using Cons.prems by (intro power_increasing) auto
  finally show ?case .
qed simp

lemma list_all2_snoc: "list_all2 P (xs @ [x]) (ys @ [y]) \<longleftrightarrow> list_all2 P xs ys \<and> P x y"
  by (cases "length xs = length ys") (auto simp: list_all2_append dest: list_all2_lengthD)

lemma mountains_snoc:
  "mountains blake2b V ks (ts @ [x]) \<longleftrightarrow>
     (\<exists>js j. ks = js @ [j] \<and> mountains blake2b V js ts \<and> perfect j x \<and> (\<forall>i \<in> set js. j < i) \<and> mt_ok blake2b V x)"
proof
  assume m: "mountains blake2b V ks (ts @ [x])"
  then have "ks \<noteq> []" by (auto simp: mountains_def)
  then obtain js j where "ks = js @ [j]" by (meson rev_exhaust)
  with m show "\<exists>js j. ks = js @ [j] \<and> mountains blake2b V js ts \<and> perfect j x \<and> (\<forall>i \<in> set js. j < i) \<and> mt_ok blake2b V x"
    by (auto simp: mountains_def list_all2_snoc sorted_wrt_append)
qed (auto simp: mountains_def sorted_wrt_append list_all2_snoc)

lemma mountains_ne: "mountains blake2b V ks ts \<Longrightarrow> ks = [] \<longleftrightarrow> ts = []"
  by (auto simp: mountains_def)

text \<open>A range of several mountains has no complete root.\<close>

lemma not_power_of_two:
  assumes "sorted_wrt (>) ks" "1 < length ks"
  shows "\<not> is_power_of_two (sum_list (map (\<lambda>k. 2 ^ k) ks))"
proof -
  obtain k j js where ks: "ks = k # j # js" using assms(2) by (cases ks; cases "tl ks") auto
  let ?s = "sum_list (map (\<lambda>k. 2 ^ k) ks) :: nat"
  have "(2 :: nat) ^ k < ?s" by (simp add: ks)
  moreover have "?s < 2 ^ Suc k" using assms(1) by (intro sum_powers_less) (auto simp: ks)
  ultimately have "?s \<noteq> 2 ^ i" for i
    using power_less_imp_less_exp [of "2 :: nat" k i] power_less_imp_less_exp [of "2 :: nat" i "Suc k"] by auto
  then show ?thesis by (auto simp: is_power_of_two_iff)
qed

section \<open>The root of a range of mountains\<close>

lemma top_bit_eq: "2 ^ k \<le> n \<Longrightarrow> n < 2 ^ Suc k \<Longrightarrow> top_bit n = k"
proof (induction k arbitrary: n)
  case 0
  then show ?case by (simp add: top_bit.simps [of n])
next
  case (Suc k)
  have "2 ^ k \<le> n div 2" "n div 2 < 2 ^ Suc k" using Suc.prems by auto
  then have "top_bit (n div 2) = k" by (rule Suc.IH)
  moreover have "(1 :: nat) \<le> 2 ^ k" by simp
  then have "1 < n" using Suc.prems(1) unfolding power_Suc by linarith
  ultimately show ?case by (simp add: top_bit.simps [of n])
qed

lemma subtree_root_perfect:
  "perfect k x \<Longrightarrow> mt_ok blake2b V x \<Longrightarrow> subtree_root blake2b V k (mt_leaves x) = Ok (mt_data x)"
  by (induction k x rule: perfect.induct) (auto simp: perfect_leaves)

lemma peak_roots_mountains:
  "mountains blake2b V ks ts \<Longrightarrow> peak_roots blake2b V (all_leaves ts) = Ok (map mt_data ts)"
proof (induction ts arbitrary: ks)
  case Nil
  then show ?case by (simp add: peak_roots.simps)
next
  case (Cons x ts)
  then obtain k js where ks: "ks = k # js" "perfect k x" "mt_ok blake2b V x" "mountains blake2b V js ts"
    by (cases ks) (auto simp: mountains_def)
  have len: "length (mt_leaves x) = 2 ^ k" using ks(2) by (rule perfect_leaves)
  have "length (all_leaves ts) < 2 ^ k"
    unfolding mountains_length [OF ks(4)] using Cons.prems
    by (intro sum_powers_less) (auto simp: mountains_def ks(1))
  then have "top_bit (length (all_leaves (x # ts))) = k" using len by (intro top_bit_eq) auto
  then show ?case
    using Cons.IH [OF ks(4)] subtree_root_perfect [OF ks(2,3)] len
    by (subst peak_roots.simps) (simp add: Let_def)
qed

lemma try_fold_snoc:
  fixes f :: "'s \<Rightarrow> 'a \<Rightarrow> ('e, 's) res"
  shows "try_fold f s (xs @ [x]) = bindr (try_fold f s xs) (\<lambda>s'. f s' x)"
proof -
  have "bindr m Ok = m" for m :: "('e, 's) res" by (cases m) simp_all
  then show ?thesis by (simp add: try_fold_append)
qed

lemma chain_fold:
  "chain blake2b V t link ts d \<Longrightarrow>
     ts \<noteq> [] \<and> try_fold (combine blake2b V) (mt_data (hd ts)) (map mt_data (tl ts)) = Ok d"
  by (induction rule: chain.induct) (auto simp: try_fold_snoc)

lemma chain_root:
  assumes "chain blake2b V t link ts d" "mountains blake2b V ks ts"
  shows "mmr_root blake2b V (all_leaves ts) = Ok d"
  using chain_fold [OF assms(1)] peak_roots_mountains [OF assms(2)]
  by (cases ts) (auto simp: mmr_root_def)

section \<open>Correctness of the operations\<close>

context history_version
begin

abbreviation good :: "nat \<Rightarrow> nat \<Rightarrow> 'd list \<Rightarrow> bool" where
  "good \<equiv> good_leaves V valid total"

abbreviation summary :: "nat \<Rightarrow> nat \<Rightarrow> 'd list \<Rightarrow> 'd \<Rightarrow> bool" where
  "summary \<equiv> summarises V valid total"

lemmas good_def = good_leaves_def [where V = V and valid = valid and tot = total]

lemmas summary_def = summarises_def [where V = V and valid = valid and tot = total]

lemma good_append:
  assumes "good b h (xs @ ys)"
  shows "good b h xs" "good b (h + length xs) ys"
proof -
  have *: "ver_branch_id V (xs ! i) = b \<and> ver_start_height V (xs ! i) = h + i \<and> ver_end_height V (xs ! i) = h + i"
    if "i < length xs" for i
    using assms that by (auto simp: good_def nth_append dest: spec [of _ i])
  have **: "ver_branch_id V (ys ! i) = b \<and> ver_start_height V (ys ! i) = h + length xs + i \<and>
      ver_end_height V (ys ! i) = h + length xs + i" if "i < length ys" for i
    using assms that by (auto simp: good_def nth_append dest: spec [of _ "length xs + i"])
  have "sum_list (map (total i) xs) + sum_list (map (total i) ys) < total_cap i" for i
    using assms by (simp add: good_def)
  then have "sum_list (map (total i) xs) < total_cap i" "sum_list (map (total i) ys) < total_cap i" for i
    using le_less_trans [OF le_add1] le_less_trans [OF le_add2] by blast+
  then show "good b h xs" "good b (h + length xs) ys"
    using assms * ** by (auto simp: good_def)
qed

lemma summary_leaf: "good b h [d] \<Longrightarrow> summary b h [d] d"
  by (auto simp: good_def summary_def)

lemma combine_summary:
  assumes blake: "digest_32 blake2b" and g: "good b h (xs @ ys)"
    and l: "summary b h xs l" and r: "summary b (h + length xs) ys r"
  obtains d where "combine blake2b V l r = Ok d" "summary b h (xs @ ys) d"
proof -
  have fit: "total i l + total i r < total_cap i" for i
    using g l r by (simp add: good_def summary_def)
  have "valid l" "valid r" "ver_branch_id V l = ver_branch_id V r" using l r by (simp_all add: summary_def)
  then obtain d where d: "combine blake2b V l r = Ok d" "valid d" "ver_branch_id V d = ver_branch_id V l"
    "ver_start_height V d = ver_start_height V l" "ver_end_height V d = ver_end_height V r"
    "\<forall>i. total i d = total i l + total i r"
    by (rule combine_total [OF blake _ _ _ fit])
  with l r have "summary b h (xs @ ys) d" by (simp add: summary_def)
  with d(1) show ?thesis by (rule that)
qed

lemma leaf_count_summary: "summary b h xs (e_data e) \<Longrightarrow> 0 < h \<Longrightarrow> leaf_count V e = Ok (length xs)"
  by (auto simp: leaf_count_def summary_def u64_sub_def u_checked_sub_def)

lemma complete_summary:
  "summary b h xs (e_data e) \<Longrightarrow> 0 < h \<Longrightarrow> complete V e = Ok (is_power_of_two (length xs))"
  by (simp add: complete_def leaf_count_summary)

lemma good_pos: "good b h xs \<Longrightarrow> 0 < h"
  by (simp add: good_def)

lemma mt_summary:
  assumes blake: "digest_32 blake2b"
  shows "mt_ok blake2b V x \<Longrightarrow> good b h (mt_leaves x) \<Longrightarrow> summary b h (mt_leaves x) (mt_data x)"
proof (induction x arbitrary: h)
  case (MNode d l r)
  note g = good_append [OF MNode.prems(2) [simplified]]
  have "summary b h (mt_leaves l) (mt_data l)" "summary b (h + length (mt_leaves l)) (mt_leaves r) (mt_data r)"
    using MNode g by auto
  then obtain d' where "combine blake2b V (mt_data l) (mt_data r) = Ok d'"
    "summary b h (mt_leaves l @ mt_leaves r) d'"
    using combine_summary [OF blake] MNode.prems(2) by (metis mt_leaves.simps(2))
  then show ?case using MNode.prems(1) by simp
qed (simp add: summary_leaf)

lemma mountain_count:
  assumes "digest_32 blake2b" "mt_ok blake2b V x" "perfect k x" "good b h (mt_leaves x)"
  shows "leaf_count V (mt_entry p x) = Ok (2 ^ k)"
  using leaf_count_summary [of b h "mt_leaves x" "mt_entry p x"] mt_summary [OF assms(1,2,4)]
    good_pos [OF assms(4)] perfect_leaves [OF assms(3)] by simp

lemma chain_resolve: "chain blake2b V t link ts d \<Longrightarrow> \<exists>e. resolve_link t link = Ok e \<and> e_data e = d"
  by (induction rule: chain.induct) (auto simp: top_loaded_def resolve_link_def entry_new_def)

lemma chain_summary:
  assumes blake: "digest_32 blake2b"
  shows "chain blake2b V t link ts d \<Longrightarrow> list_all (mt_ok blake2b V) ts \<Longrightarrow> good b h (all_leaves ts) \<Longrightarrow>
    summary b h (all_leaves ts) d"
proof (induction rule: chain.induct)
  case (single x)
  then show ?case using mt_summary [OF blake] by simp
next
  case (join l ts d x g d')
  have g: "good b h (all_leaves ts @ mt_leaves x)" using join.prems(2) by simp
  have l: "summary b h (all_leaves ts) d" using join.IH join.prems(1) good_append(1) [OF g] by simp
  have r: "summary b (h + length (all_leaves ts)) (mt_leaves x) (mt_data x)"
    using mt_summary [OF blake] join.prems(1) good_append(2) [OF g] by simp
  obtain d'' where "combine blake2b V d (mt_data x) = Ok d''" "summary b h (all_leaves ts @ mt_leaves x) d''"
    by (rule combine_summary [OF blake g l r])
  then show ?case using join.hyps by simp
qed

text \<open>Collecting the peaks returns, with the links of the mountains from left to right.\<close>

lemma get_peaks_top:
  assumes "digest_32 blake2b" "top_loaded (t_stored t) p x" "perfect k x" "mt_ok blake2b V x" "good b h (mt_leaves x)"
  shows "get_peaks V t (Stored (mt_top p x)) target = Some (Ok (target @ [Stored (mt_top p x)]))"
proof -
  have "summary b h (mt_leaves x) (e_data (mt_entry p x))" using mt_summary [OF assms(1,4,5)] by simp
  then have "peak_children V t (Stored (mt_top p x)) = Ok None"
    using good_pos [OF assms(5)] perfect_leaves [OF assms(3)]
    by (auto simp: peak_children_def resolve_top [OF assms(2)] complete_summary is_power_of_two_iff)
  then show ?thesis by (subst get_peaks.simps) simp
qed

lemma get_peaks_chain:
  assumes blake: "digest_32 blake2b"
  shows "chain blake2b V t link ts d \<Longrightarrow> mountains blake2b V ks ts \<Longrightarrow> good b h (all_leaves ts) \<Longrightarrow>
    get_peaks V t link target = Some (Ok (target @ peak_links 0 ts))"
proof (induction arbitrary: ks target rule: chain.induct)
  case (single x)
  then show ?case using get_peaks_top [OF blake] by (auto simp: mountains_def list_all2_Cons2)
next
  case (join l ts d x g d')
  obtain js j where js: "mountains blake2b V js ts" "perfect j x" "mt_ok blake2b V x"
    using join.prems(1) by (auto simp: mountains_snoc)
  have g: "good b h (all_leaves ts @ mt_leaves x)" using join.prems(2) by simp
  have "ts \<noteq> []" using join.hyps(1) by (auto elim: chain.cases)
  have chain: "chain blake2b V t (Generated g) (ts @ [x]) d'" using join.hyps by (rule chain.join)
  have oks: "list_all (mt_ok blake2b V) (ts @ [x])" using join.prems(1) by (simp add: mountains_def)
  have "length ks = length (ts @ [x])" "sorted_wrt (>) ks"
    using join.prems(1) by (auto simp: mountains_def dest: list_all2_lengthD)
  then have "\<not> is_power_of_two (length (all_leaves (ts @ [x])))"
    using not_power_of_two [of ks] mountains_length [OF join.prems(1)] \<open>ts \<noteq> []\<close> by (cases ts) simp_all
  moreover have "summary b h (all_leaves (ts @ [x])) d'"
    using chain_summary [OF blake chain oks] join.prems(2) .
  ultimately have children: "peak_children V t (Generated g) = Ok (Some (l, Stored (mt_top (offs ts) x)))"
    using join.hyps(3,4) good_pos [OF g]
    by (simp add: peak_children_def resolve_link_def complete_summary entry_new_def
        indexed_left_def indexed_right_def entry_left_def entry_right_def)
  have "get_peaks V t l target = Some (Ok (target @ peak_links 0 ts))"
    using join.IH [OF js(1)] good_append(1) [OF g] by simp
  moreover have "get_peaks V t (Stored (mt_top (offs ts) x)) target' =
      Some (Ok (target' @ [Stored (mt_top (offs ts) x)]))" for target'
    using get_peaks_top [OF blake join.hyps(2) js(2,3) good_append(2) [OF g]] .
  ultimately show ?case
    by (subst get_peaks.simps) (simp add: children peak_links_append)
qed

lemma chain_ne: "chain blake2b V t link ts d \<Longrightarrow> ts \<noteq> []"
  by (auto elim: chain.cases)

lemma chain_cong:
  assumes "chain blake2b V t link ts d" "\<forall>i < offs ts. t_stored t' i = t_stored t i"
    and gen: "t_generated t' = t_generated t @ gs"
  shows "chain blake2b V t' link ts d"
  using assms(1,2)
proof (induction rule: chain.induct)
  case (single x)
  then show ?case using top_loaded_cong [of 0 x "t_stored t'" "t_stored t"] by (auto intro: chain.single)
next
  case (join l ts d x g d')
  have "top_loaded (t_stored t') (offs ts) x"
    using join.hyps(2) join.prems top_loaded_cong [of "offs ts" x "t_stored t'" "t_stored t"] by simp
  moreover have "g < length (t_generated t')" "t_generated t' ! g = t_generated t ! g"
    using join.hyps(3) gen by (simp_all add: nth_append)
  ultimately show ?case using join.hyps join.IH join.prems by (auto intro: chain.join)
qed

lemma combine_next:
  assumes blake: "digest_32 blake2b" and "chain blake2b V t link ts d" "list_all (mt_ok blake2b V) (ts @ x # us)"
    and "good b h (all_leaves (ts @ x # us))"
  obtains d' where "combine blake2b V d (mt_data x) = Ok d'"
proof -
  have g: "good b h (all_leaves ts @ mt_leaves x)"
    using assms(4) good_append(1) [of b h "all_leaves ts @ mt_leaves x"] by simp
  have "summary b h (all_leaves ts) d"
    using chain_summary [OF blake assms(2)] assms(3) good_append(1) [OF g] by simp
  moreover have "summary b (h + length (all_leaves ts)) (mt_leaves x) (mt_data x)"
    using mt_summary [OF blake] assms(3) good_append(2) [OF g] by simp
  ultimately show ?thesis using combine_summary [OF blake g] that by metis
qed

text \<open>Joining the remaining peaks extends the chain over them.\<close>

lemma join_chain:
  assumes blake: "digest_32 blake2b"
  shows "chain blake2b V t l ts d \<Longrightarrow> list_all (mt_ok blake2b V) (ts @ us) \<Longrightarrow>
    tops_loaded (t_stored t) 0 (ts @ us) \<Longrightarrow> good b h (all_leaves (ts @ us)) \<Longrightarrow>
    length (t_generated t) + length us \<le> 2 ^ 32 \<Longrightarrow>
    \<exists>r gs d'. join_peaks blake2b V (peak_links (offs ts) us) l t = Ok (r, t\<lparr>t_generated := t_generated t @ gs\<rparr>) \<and>
      chain blake2b V (t\<lparr>t_generated := t_generated t @ gs\<rparr>) r (ts @ us) d' \<and> length gs = length us"
proof (induction us arbitrary: ts l t d)
  case Nil
  then have "join_peaks blake2b V (peak_links (offs ts) []) l t = Ok (l, t\<lparr>t_generated := t_generated t @ []\<rparr>)" by simp
  moreover have "chain blake2b V (t\<lparr>t_generated := t_generated t @ []\<rparr>) l (ts @ []) d" using Nil.prems(1) by simp
  ultimately show ?case by (metis list.size(3))
next
  case (Cons x us)
  obtain d' where d': "combine blake2b V d (mt_data x) = Ok d'"
    by (rule combine_next [OF blake Cons.prems(1,2,4)])
  have top: "top_loaded (t_stored t) (offs ts) x" using Cons.prems(3) by (simp add: tops_loaded_append)
  define e where "e = entry_new d' l (Stored (mt_top (offs ts) x))"
  define t' where "t' = t\<lparr>t_generated := t_generated t @ [e]\<rparr>"
  let ?g = "length (t_generated t)"
  have step: "join_peaks blake2b V (peak_links (offs ts) (x # us)) l t =
      join_peaks blake2b V (peak_links (offs (ts @ [x])) us) (Generated ?g) t'"
    using chain_resolve [OF Cons.prems(1)] Cons.prems(5) d'
    by (auto simp: combine_links_def combine_nodes_def resolve_top [OF top] push_generated_def
        u32_checked_def in_u32_def t'_def e_def)
  have "chain blake2b V t' l ts d"
    by (rule chain_cong [OF Cons.prems(1), where gs = "[e]"]) (simp_all add: t'_def)
  then have "chain blake2b V t' (Generated ?g) (ts @ [x]) d'"
    using top d' by (intro chain.join) (simp_all add: t'_def e_def)
  from Cons.IH [OF this] Cons.prems obtain r' gs d'' where
    "join_peaks blake2b V (peak_links (offs (ts @ [x])) us) (Generated ?g) t' =
       Ok (r', t'\<lparr>t_generated := t_generated t' @ gs\<rparr>)"
    "chain blake2b V (t'\<lparr>t_generated := t_generated t' @ gs\<rparr>) r' (ts @ x # us) d''" "length gs = length us"
    by (auto simp: t'_def)
  then show ?case unfolding step t'_def by (intro exI [of _ r'] exI [of _ "e # gs"] exI [of _ d'']) simp
qed

text \<open>Peaks of different heights are not merged.\<close>

lemma merge_none:
  assumes blake: "digest_32 blake2b"
  shows "mountains blake2b V ks (ts @ [y]) \<Longrightarrow> tops_loaded (t_stored t) 0 (ts @ [y]) \<Longrightarrow>
    good b h (all_leaves (ts @ [y])) \<Longrightarrow>
    merge_peaks blake2b V (rev (peak_links 0 ts)) t (Stored (mt_top (offs ts) y) # rest) app =
      Ok (t, peak_links 0 (ts @ [y]) @ rest, app)"
proof (induction ts arbitrary: ks y rest rule: rev_induct)
  case (snoc z ts)
  obtain js j where lower: "mountains blake2b V js (ts @ [z])" "perfect j y" "mt_ok blake2b V y" "\<forall>i \<in> set js. j < i"
    using snoc.prems(1) mountains_snoc [of blake2b V ks "ts @ [z]" y] by blast
  then obtain i where js: "mountains blake2b V js (ts @ [z])" "perfect j y" "mt_ok blake2b V y"
    "perfect i z" "mt_ok blake2b V z" "j < i"
    by (auto simp: mountains_snoc)
  have g: "good b h (all_leaves ts @ mt_leaves z @ mt_leaves y)" using snoc.prems(3) by simp
  note gz = good_append [OF good_append(2) [OF g]]
  have tops: "top_loaded (t_stored t) (offs ts) z" "top_loaded (t_stored t) (offs (ts @ [z])) y"
    using snoc.prems(2) by (simp_all add: tops_loaded_append)
  have counts: "leaf_count V (mt_entry (offs ts) z) = (Ok (2 ^ i) :: nat history_res)"
    "leaf_count V (mt_entry (offs (ts @ [z])) y) = (Ok (2 ^ j) :: nat history_res)"
    using mountain_count [OF blake js(5,4) gz(1)] mountain_count [OF blake js(3,2) gz(2)] by simp_all
  have "merge_peaks blake2b V (rev (peak_links 0 (ts @ [z]))) t (Stored (mt_top (offs (ts @ [z])) y) # rest) app =
      merge_peaks blake2b V (rev (peak_links 0 ts)) t
        (Stored (mt_top (offs ts) z) # Stored (mt_top (offs (ts @ [z])) y) # rest) app"
    using counts js(6) resolve_top [OF tops(1)] resolve_top [OF tops(2)] by (simp add: peak_links_append)
  also have "\<dots> = Ok (t, peak_links 0 (ts @ [z]) @ Stored (mt_top (offs (ts @ [z])) y) # rest, app)"
    using snoc.IH [OF js(1)] snoc.prems(2,3) good_append(1) [of b h "all_leaves (ts @ [z])"]
    by (simp add: tops_loaded_append)
  finally show ?case by (simp add: peak_links_append)
qed simp

lemma push_Ok:
  "t_stored_count t + 1 < 2 ^ 32 \<Longrightarrow>
     push e t = Ok (Stored (t_stored_count t),
       t\<lparr>t_stored := (t_stored t)(t_stored_count t \<mapsto> e), t_stored_count := t_stored_count t + 1\<rparr>)"
  by (simp add: push_def u32_checked_def in_u32_def Let_def)

text \<open>Merging the new leaf up: the result is again a mountain range, over one more leaf, whose last mountain
has its right spine loaded; the links returned are those of the new end of the array.\<close>

definition merged :: "hasher \<Rightarrow> 'd tree \<Rightarrow> 'd list \<Rightarrow> 'd tree \<Rightarrow> 'd mt list \<Rightarrow> bool" where
  "merged blake2b t xs t' ts' \<longleftrightarrow>
     (\<exists>ks'. mountains blake2b V ks' ts') \<and> all_leaves ts' = xs \<and> ts' \<noteq> [] \<and>
     tops_loaded (t_stored t') 0 ts' \<and> spine_loaded (t_stored t') (offs (butlast ts')) (last ts') \<and>
     t_stored_count t' = offs ts' \<and> t_stored_count t \<le> t_stored_count t' \<and>
     t_generated t' = t_generated t \<and> (\<forall>i < t_stored_count t. t_stored t' i = t_stored t i)"

text \<open>One merge: the new leaf's mountain and the last peak have the same height.\<close>

lemma merge_step:
  assumes blake: "digest_32 blake2b" and y: "perfect j y" and x: "perfect j x" "mt_ok blake2b V x"
    and y': "mt_ok blake2b V y" and loaded: "tops_loaded (t_stored t) 0 (ts @ [y])"
    and spine: "spine_loaded (t_stored t) (offs (ts @ [y])) x"
    and count: "t_stored_count t = offs (ts @ [y]) + mt_size x"
    and good: "good b h (all_leaves (ts @ [y]) @ mt_leaves x)"
    and size: "length (all_leaves (ts @ [y]) @ mt_leaves x) < 2 ^ 31"
  obtains d t1 where "mt_ok blake2b V (MNode d y x)"
    "merge_peaks blake2b V (rev (peak_links 0 (ts @ [y]))) t [Stored (mt_top (offs (ts @ [y])) x)] app =
      merge_peaks blake2b V (rev (peak_links 0 ts)) t1 [Stored (mt_top (offs ts) (MNode d y x))]
        (app @ [Stored (t_stored_count t)])"
    "tops_loaded (t_stored t1) 0 ts" "spine_loaded (t_stored t1) (offs ts) (MNode d y x)"
    "t_stored_count t1 = t_stored_count t + 1" "t_generated t1 = t_generated t"
    "\<forall>i < t_stored_count t. t_stored t1 i = t_stored t i"
proof -
  have g: "good b h (all_leaves ts @ mt_leaves y @ mt_leaves x)" using good by simp
  note gy = good_append [OF good_append(2) [OF g]]
  obtain d where d: "combine blake2b V (mt_data y) (mt_data x) = Ok d"
    by (rule combine_summary [OF blake good_append(2) [OF g] mt_summary [OF blake y' gy(1)]
          mt_summary [OF blake x(2) gy(2)]])
  have tops: "top_loaded (t_stored t) (offs ts) y" "top_loaded (t_stored t) (offs (ts @ [y])) x"
    using loaded spine by (simp_all add: tops_loaded_append spine_top)
  have counts: "leaf_count V (mt_entry (offs ts) y) = (Ok (2 ^ j) :: nat history_res)"
    "leaf_count V (mt_entry (offs (ts @ [y])) x) = (Ok (2 ^ j) :: nat history_res)"
    using mountain_count [OF blake y' y gy(1)] mountain_count [OF blake x(2,1) gy(2)] by simp_all
  let ?n = "t_stored_count t" and ?z = "MNode d y x"
  have n: "?n = mt_top (offs ts) ?z" using count by (simp add: top_node)
  define e where "e = entry_new d (Stored (mt_top (offs ts) y)) (Stored (mt_top (offs (ts @ [y])) x))"
  define t1 where "t1 = t\<lparr>t_stored := (t_stored t)(?n \<mapsto> e), t_stored_count := ?n + 1\<rparr>"
  have "?n + 1 < 2 ^ 32"
    using count size offs_le [of ts] mt_size_leaves [of y] mt_size_leaves [of x] by simp
  then have "merge_peaks blake2b V (rev (peak_links 0 (ts @ [y]))) t [Stored (mt_top (offs (ts @ [y])) x)] app =
      merge_peaks blake2b V (rev (peak_links 0 ts)) t1 [Stored (mt_top (offs ts) ?z)] (app @ [Stored ?n])"
    using counts d resolve_top [OF tops(1)] resolve_top [OF tops(2)] n
    by (simp add: peak_links_append combine_nodes_def push_Ok t1_def e_def)
  moreover have same: "\<forall>i < ?n. t_stored t1 i = t_stored t i" by (simp add: t1_def)
  moreover have "tops_loaded (t_stored t1) 0 ts"
    using loaded count tops_loaded_cong [of 0 ts "t_stored t1" "t_stored t"] same
    by (simp add: tops_loaded_append)
  moreover have "spine_loaded (t_stored t1) (offs ts) ?z"
    using spine count tops(1) same spine_loaded_cong [of "offs (ts @ [y])" x "t_stored t1" "t_stored t"]
      top_loaded_cong [of "offs ts" y "t_stored t1" "t_stored t"] n
    by (simp add: top_loaded_def [of _ _ ?z] mt_entry_def t1_def e_def)
  ultimately show ?thesis using that [of d t1] d x(2) y' by (simp add: t1_def)
qed

lemma merge_main:
  assumes blake: "digest_32 blake2b"
  shows "mountains blake2b V js ts \<Longrightarrow> \<forall>i \<in> set js. j \<le> i \<Longrightarrow> perfect j x \<Longrightarrow> mt_ok blake2b V x \<Longrightarrow>
    tops_loaded (t_stored t) 0 ts \<Longrightarrow> spine_loaded (t_stored t) (offs ts) x \<Longrightarrow>
    t_stored_count t = offs ts + mt_size x \<Longrightarrow> good b h (all_leaves ts @ mt_leaves x) \<Longrightarrow>
    length (all_leaves ts @ mt_leaves x) < 2 ^ 31 \<Longrightarrow>
    \<exists>t' ts'. merge_peaks blake2b V (rev (peak_links 0 ts)) t [Stored (mt_top (offs ts) x)] app =
        Ok (t', peak_links 0 ts', app @ map Stored [t_stored_count t ..< t_stored_count t']) \<and>
      merged blake2b t (all_leaves ts @ mt_leaves x) t' ts'"
proof (induction ts arbitrary: js j x t app rule: rev_induct)
  case Nil
  then have "mountains blake2b V [j] [x]" by (simp add: mountains_def)
  with Nil have "merged blake2b t (mt_leaves x) t [x]" by (auto simp: merged_def spine_top)
  then show ?case by (intro exI [of _ t] exI [of _ "[x]"]) simp
next
  case (snoc y ts)
  obtain js' i where js: "js = js' @ [i]" "mountains blake2b V js' ts" "perfect i y" "mt_ok blake2b V y"
    "\<forall>k \<in> set js'. i < k"
    using snoc.prems(1) by (auto simp: mountains_snoc)
  show ?case
  proof (cases "j < i")
    case True
    have m: "mountains blake2b V (js @ [j]) ((ts @ [y]) @ [x])"
      unfolding mountains_snoc using snoc.prems(1,3,4) js True by auto
    have loaded: "tops_loaded (t_stored t) 0 ((ts @ [y]) @ [x])"
      using snoc.prems(5,6) by (simp add: tops_loaded_append spine_top)
    have "merge_peaks blake2b V (rev (peak_links 0 (ts @ [y]))) t [Stored (mt_top (offs (ts @ [y])) x)] app =
        Ok (t, peak_links 0 ((ts @ [y]) @ [x]), app)"
      using merge_none [OF blake m loaded, of b h "[]" app] snoc.prems(8) by simp
    moreover have "merged blake2b t (all_leaves (ts @ [y]) @ mt_leaves x) t ((ts @ [y]) @ [x])"
      using m loaded snoc.prems(6,7) by (auto simp: merged_def butlast_append)
    ultimately show ?thesis by (intro exI [of _ t] exI [of _ "(ts @ [y]) @ [x]"]) simp
  next
    case False
    then have ij: "i = j" using snoc.prems(2) js(1) by simp
    obtain d t1 where t1: "mt_ok blake2b V (MNode d y x)"
      "merge_peaks blake2b V (rev (peak_links 0 (ts @ [y]))) t [Stored (mt_top (offs (ts @ [y])) x)] app =
        merge_peaks blake2b V (rev (peak_links 0 ts)) t1 [Stored (mt_top (offs ts) (MNode d y x))]
          (app @ [Stored (t_stored_count t)])"
      "tops_loaded (t_stored t1) 0 ts" "spine_loaded (t_stored t1) (offs ts) (MNode d y x)"
      "t_stored_count t1 = t_stored_count t + 1" "t_generated t1 = t_generated t"
      "\<forall>i < t_stored_count t. t_stored t1 i = t_stored t i"
      by (rule merge_step [OF blake _ snoc.prems(3,4) js(4) snoc.prems(5-9)]) (use js(3) ij in simp)
    let ?n = "t_stored_count t" and ?z = "MNode d y x"
    have "\<forall>k \<in> set js'. Suc j \<le> k" "perfect (Suc j) ?z" using js snoc.prems(3) ij by auto
    moreover have "t_stored_count t1 = offs ts + mt_size ?z" using snoc.prems(7) t1(5) by simp
    ultimately obtain t' ts' where *:
      "merge_peaks blake2b V (rev (peak_links 0 ts)) t1 [Stored (mt_top (offs ts) ?z)] (app @ [Stored ?n]) =
        Ok (t', peak_links 0 ts', (app @ [Stored ?n]) @ map Stored [t_stored_count t1 ..< t_stored_count t'])"
      "merged blake2b t1 (all_leaves ts @ mt_leaves ?z) t' ts'"
      using snoc.IH [OF js(2), of "Suc j" ?z t1 "app @ [Stored ?n]"] snoc.prems(8,9) t1(1,3,4) by auto
    have "?n < t_stored_count t'" using *(2) t1(5) by (simp add: merged_def)
    then have "Stored ?n # map Stored [t_stored_count t1 ..< t_stored_count t'] = map Stored [?n ..< t_stored_count t']"
      by (simp add: t1(5) upt_conv_Cons)
    moreover have "merged blake2b t (all_leaves (ts @ [y]) @ mt_leaves x) t' ts'"
      using *(2) t1(5-7) by (auto simp: merged_def)
    ultimately show ?thesis using *(1) t1(2) by (intro exI [of _ t'] exI [of _ ts']) simp
  qed
qed

lemma length_le_leaves: "length ts \<le> length (all_leaves ts)"
proof (induction ts)
  case (Cons t ts)
  then show ?case by (cases "mt_leaves t") auto
qed simp

lemma chain_range:
  assumes "digest_32 blake2b" "ts \<noteq> []" "list_all (mt_ok blake2b V) ts" "tops_loaded (t_stored t) 0 ts"
    and "good b h (all_leaves ts)" "length (t_generated t) + length ts \<le> 2 ^ 32"
  obtains r gs d where
    "join_peaks blake2b V (tl (peak_links 0 ts)) (hd (peak_links 0 ts)) t = Ok (r, t\<lparr>t_generated := t_generated t @ gs\<rparr>)"
    "chain blake2b V (t\<lparr>t_generated := t_generated t @ gs\<rparr>) r ts d" "length gs < length ts"
proof (cases ts)
  case (Cons x us)
  have "chain blake2b V t (Stored (mt_top 0 x)) [x] (mt_data x)"
    using assms(4) Cons by (intro chain.single) simp
  from join_chain [OF assms(1) this, of us b h] show ?thesis
    using assms(3-6) Cons that by auto
qed (use assms in simp)

lemma append_represents:
  assumes blake: "digest_32 blake2b" and rep: "represents blake2b V t xs" and g: "good b h (xs @ [x])"
    and size: "length xs + 1 < 2 ^ 31" "length (t_generated t) + length xs + 1 \<le> 2 ^ 32"
  shows "\<exists>t'. append_leaf blake2b V x t = Some (Ok (map Stored [t_stored_count t ..< t_stored_count t'], t')) \<and>
    right_edge_loaded blake2b V t' (xs @ [x]) \<and> t_stored_count t < t_stored_count t' \<and>
    (\<forall>i < t_stored_count t. t_stored t' i = t_stored t i) \<and>
    length (t_generated t') \<le> length (t_generated t) + length xs"
proof -
  obtain ts ks d where ts: "chain blake2b V t (t_root t) ts d" "mountains blake2b V ks ts"
    "t_stored_count t = offs ts" "tops_loaded (t_stored t) 0 ts" "all_leaves ts = xs"
    using rep by (auto simp: represents_def view_of_def)
  let ?n = "t_stored_count t" and ?x = "MLeaf x"
  define t1 where "t1 = t\<lparr>t_stored := (t_stored t)(?n \<mapsto> entry_new_leaf x), t_stored_count := ?n + 1\<rparr>"
  have push: "push (entry_new_leaf x) t = (Ok (Stored ?n, t1) :: (entry_link \<times> 'd tree) history_res)"
    using offs_le [of ts] ts(3,5) size(1) by (simp add: push_Ok t1_def)
  have same: "\<forall>i < ?n. t_stored t1 i = t_stored t i" by (simp add: t1_def)
  have "chain blake2b V t1 (t_root t) ts d"
    using ts(3) same by (intro chain_cong [OF ts(1), where gs = "[]"]) (auto simp: t1_def)
  then have peaks: "get_peaks V t1 (t_root t) [] = Some (Ok (peak_links 0 ts))"
    using get_peaks_chain [OF blake _ ts(2), of t1 "t_root t" d b h "[]"] good_append(1) [OF g] ts(5) by simp
  have top: "mt_top (offs ts) ?x = ?n" using ts(3) by (simp add: mt_top_def)
  have "tops_loaded (t_stored t1) 0 ts"
    using ts(3,4) tops_loaded_cong [of 0 ts "t_stored t1" "t_stored t"] same by simp
  moreover have "spine_loaded (t_stored t1) (offs ts) ?x"
    using top by (simp add: top_loaded_def mt_entry_def t1_def)
  ultimately obtain t2 ts' where merge:
    "merge_peaks blake2b V (rev (peak_links 0 ts)) t1 [Stored ?n] [Stored ?n] =
       Ok (t2, peak_links 0 ts', [Stored ?n] @ map Stored [t_stored_count t1 ..< t_stored_count t2])"
    "merged blake2b t1 (xs @ [x]) t2 ts'"
    using merge_main [OF blake ts(2), of 0 ?x t1 b h "[Stored ?n]"] ts(3,5) g size(1) top by (auto simp: t1_def)
  obtain ks' where ts': "mountains blake2b V ks' ts'" "all_leaves ts' = xs @ [x]" "ts' \<noteq> []"
    "tops_loaded (t_stored t2) 0 ts'" "spine_loaded (t_stored t2) (offs (butlast ts')) (last ts')"
    "t_stored_count t2 = offs ts'" "t_stored_count t1 \<le> t_stored_count t2" "t_generated t2 = t_generated t1"
    "\<forall>i < t_stored_count t1. t_stored t2 i = t_stored t1 i"
    using merge(2) by (auto simp: merged_def)
  obtain r gs d' where join:
    "join_peaks blake2b V (tl (peak_links 0 ts')) (hd (peak_links 0 ts')) t2 = Ok (r, t2\<lparr>t_generated := t_generated t2 @ gs\<rparr>)"
    "chain blake2b V (t2\<lparr>t_generated := t_generated t2 @ gs\<rparr>) r ts' d'" "length gs < length ts'"
  proof (rule chain_range [OF blake ts'(3) _ ts'(4), of b h])
    show "list_all (mt_ok blake2b V) ts'" using ts'(1) by (simp add: mountains_def)
    show "good b h (all_leaves ts')" using ts'(2) g by simp
    show "length (t_generated t2) + length ts' \<le> 2 ^ 32"
      using length_le_leaves [of ts'] ts'(2,8) size(2) by (simp add: t1_def)
  qed
  define t3 where "t3 = t2\<lparr>t_generated := t_generated t2 @ gs, t_root := r\<rparr>"
  have "?n < t_stored_count t2" using ts'(7) by (simp add: t1_def)
  then have links: "[Stored ?n] @ map Stored [t_stored_count t1 ..< t_stored_count t2] =
      map Stored [?n ..< t_stored_count t3]"
    by (simp add: t1_def t3_def upt_conv_Cons)
  have "peak_links 0 ts' = hd (peak_links 0 ts') # tl (peak_links 0 ts')" using ts'(3) by (cases ts') auto
  then have "append_leaf blake2b V x t = Some (Ok (map Stored [?n ..< t_stored_count t3], t3))"
    using peaks merge(1) join(1) links
    by (cases "peak_links 0 ts'") (auto simp: append_leaf_def push t3_def)
  moreover have "chain blake2b V t3 r ts' d'"
    by (rule chain_cong [OF join(2), where gs = "[]"]) (simp_all add: t3_def)
  then have "right_edge_loaded blake2b V t3 (xs @ [x])"
    using ts' by (auto simp: right_edge_loaded_def view_of_def t3_def)
  moreover have "length (t_generated t3) \<le> length (t_generated t) + length xs"
    using join(3) length_le_leaves [of ts'] ts'(2,8) by (simp add: t3_def t1_def)
  ultimately show ?thesis
    using \<open>?n < t_stored_count t2\<close> same ts'(9) by (intro exI [of _ t3]) (auto simp: t3_def t1_def)
qed

lemma pop_Ok:
  "0 < t_stored_count t \<Longrightarrow> pop t = Ok (t\<lparr>t_stored := (t_stored t)(t_stored_count t - 1 := None),
     t_stored_count := t_stored_count t - 1\<rparr>)"
  by (simp add: pop_def u_checked_sub_def)

lemma pop_many_Ok:
  "n \<le> t_stored_count t \<Longrightarrow>
    \<exists>m. pop_many n t = (Ok (t\<lparr>t_stored := m, t_stored_count := t_stored_count t - n\<rparr>) :: ('e, 'd tree) res) \<and>
      (\<forall>i < t_stored_count t - n. m i = t_stored t i)"
proof (induction n arbitrary: t)
  case 0
  then show ?case by (intro exI [of _ "t_stored t"]) simp
next
  case (Suc n)
  let ?c = "t_stored_count t - 1"
  let ?t = "t\<lparr>t_stored := (t_stored t)(?c := None), t_stored_count := ?c\<rparr>"
  have "n \<le> t_stored_count ?t" using Suc.prems by simp
  from Suc.IH [OF this] obtain m where
    m: "pop_many n ?t = (Ok (?t\<lparr>t_stored := m, t_stored_count := ?c - n\<rparr>) :: ('e, 'd tree) res)"
    "\<forall>i < ?c - n. m i = t_stored ?t i"
    by auto
  have "m i = t_stored t i" if "i < t_stored_count t - Suc n" for i
    using m(2) that by auto
  with m(1) Suc.prems show ?case by (intro exI [of _ m]) (simp add: pop_Ok)
qed

lemma right_spine_perfect:
  "spine_loaded (t_stored t) p x \<Longrightarrow> perfect k x \<Longrightarrow> n + k < 2 ^ 32 \<Longrightarrow>
    right_spine t (Stored (mt_top p x)) acc n = Ok (acc @ peak_links p (left_siblings x), n + k)"
proof (induction x arbitrary: p k n acc)
  case (MLeaf d)
  then have "k = 0" by (cases k) auto
  then show ?case
    using MLeaf.prems(1) by (subst right_spine.simps) (simp add: resolve_top mt_entry_def entry_new_leaf_def)
next
  case (MNode d l r)
  then obtain j where j: "k = Suc j" "perfect j r" by (cases k) auto
  have "right_spine t (Stored (mt_top (p + mt_size l) r)) (acc @ [Stored (mt_top p l)]) (n + 1) =
      Ok ((acc @ [Stored (mt_top p l)]) @ peak_links (p + mt_size l) (left_siblings r), n + 1 + j)"
    using MNode.IH(2) [OF _ j(2)] MNode.prems j(1) by simp
  then show ?case
    using MNode.prems j(1)
    by (subst right_spine.simps) (simp add: resolve_top mt_entry_def entry_new_def in_u32_def)
qed

lemma left_siblings_perfect:
  assumes "perfect k x"
  shows "list_all2 perfect (rev [0..<k]) (left_siblings x)" "offs (left_siblings x) + k + 1 = mt_size x"
    "mt_leaves x = all_leaves (left_siblings x) @ [last_leaf x]"
proof -
  have "list_all2 perfect (rev [0..<k]) (left_siblings x) \<and> offs (left_siblings x) + k + 1 = mt_size x \<and>
      mt_leaves x = all_leaves (left_siblings x) @ [last_leaf x]"
    using assms by (induction k x rule: perfect.induct) auto
  then show "list_all2 perfect (rev [0..<k]) (left_siblings x)" "offs (left_siblings x) + k + 1 = mt_size x"
    "mt_leaves x = all_leaves (left_siblings x) @ [last_leaf x]" by blast+
qed

lemma left_siblings_loaded: "spine_loaded m p x \<Longrightarrow> tops_loaded m p (left_siblings x)"
  by (induction x arbitrary: p) auto

lemma left_siblings_ok: "mt_ok blake2b V x \<Longrightarrow> list_all (mt_ok blake2b V) (left_siblings x)"
  by (induction x) auto

text \<open>Removing the last leaf leaves a mountain range.\<close>

lemma mountains_truncated:
  assumes "mountains blake2b V (js @ [k]) (ts @ [z])" "perfect k z"
  shows "mountains blake2b V (js @ rev [0..<k]) (ts @ left_siblings z)"
proof -
  have "\<forall>i \<in> set js. k < i" using assms(1) by (auto simp: mountains_def sorted_wrt_append)
  moreover have "sorted_wrt (>) (rev [0..<k])" by (simp add: sorted_wrt_rev)
  ultimately show ?thesis
    using assms left_siblings_perfect(1) [OF assms(2)] left_siblings_ok [of blake2b z]
    by (auto simp: mountains_def sorted_wrt_append list_all2_snoc intro: list_all2_appendI)
qed

lemma chain_singleE:
  assumes "chain blake2b V t link [z] d"
  obtains "link = Stored (mt_top 0 z)" "d = mt_data z" "top_loaded (t_stored t) 0 z"
  using assms by (cases rule: chain.cases) (auto dest: chain_ne)

lemma chain_snocE:
  assumes "chain blake2b V t link (ts @ [z]) d" "ts \<noteq> []"
  obtains g l d0 where "link = Generated g" "chain blake2b V t l ts d0" "top_loaded (t_stored t) (offs ts) z"
    "resolve_link t link = Ok (entry_new d l (Stored (mt_top (offs ts) z)))"
  using assms by (cases rule: chain.cases) (auto simp: resolve_link_def)

lemma length_parity:
  assumes "mountains blake2b V (js @ [k]) (ts @ [z])" "perfect k z"
  shows "odd (length (all_leaves (ts @ [z]))) \<longleftrightarrow> k = 0"
proof -
  have "\<forall>i \<in> set js. 0 < i" using assms(1) by (auto simp: mountains_def sorted_wrt_append)
  then have "even (sum_list (map (\<lambda>k. 2 ^ k) js) :: nat)" by (induction js) auto
  then show ?thesis using mountains_length [OF assms(1)] by simp
qed

text \<open>The last step of a truncation: the chain over the remaining mountains, and the end of the array popped.\<close>

lemma truncated_view:
  assumes z: "perfect k z" "mountains blake2b V (js @ [k]) (ts @ [z])" "spine_loaded (t_stored t) (offs ts) z"
    and t: "t_stored_count t = offs (ts @ [z])" "tops_loaded (t_stored t) 0 (ts @ [z])"
    and c: "chain blake2b V (t\<lparr>t_generated := t_generated t @ gs\<rparr>) r (ts @ left_siblings z) d"
  obtains t' where "pop_many (k + 1) (t\<lparr>t_generated := t_generated t @ gs\<rparr>) = (Ok t' :: 'd tree history_res)"
    "view_of blake2b V (t'\<lparr>t_root := r\<rparr>) (ts @ left_siblings z)"
    "t_stored_count t = t_stored_count t' + (k + 1)" "\<forall>i < t_stored_count t'. t_stored t' i = t_stored t i"
proof -
  let ?t = "t\<lparr>t_generated := t_generated t @ gs\<rparr>" and ?ts = "ts @ left_siblings z"
  have count: "t_stored_count t = offs ?ts + (k + 1)"
    using t(1) left_siblings_perfect(2) [OF z(1)] by simp
  then obtain m where m: "pop_many (k + 1) ?t =
      (Ok (?t\<lparr>t_stored := m, t_stored_count := t_stored_count ?t - (k + 1)\<rparr>) :: 'd tree history_res)"
    "\<forall>i < t_stored_count ?t - (k + 1). m i = t_stored ?t i"
    using pop_many_Ok [of "k + 1" ?t] by auto
  define t' where "t' = ?t\<lparr>t_stored := m, t_stored_count := offs ?ts\<rparr>"
  have same: "\<forall>i < offs ?ts. m i = t_stored t i" using m(2) count by simp
  have "chain blake2b V (t'\<lparr>t_root := r\<rparr>) r ?ts d"
    by (rule chain_cong [OF c, where gs = "[]"]) (use same in \<open>simp_all add: t'_def\<close>)
  moreover have "tops_loaded m 0 ?ts"
    using t(2) left_siblings_loaded [OF z(3)] tops_loaded_cong [of 0 ?ts m "t_stored t"] same
    by (simp add: tops_loaded_append)
  ultimately have "view_of blake2b V (t'\<lparr>t_root := r\<rparr>) ?ts"
    using mountains_truncated [OF z(2,1)] by (auto simp: view_of_def t'_def)
  then show ?thesis using that [of t'] m(1) count same by (simp add: t'_def)
qed

text \<open>A single mountain: its left half stays, and the right half loses its last leaf.\<close>

lemma truncate_single:
  assumes blake: "digest_32 blake2b" and c: "chain blake2b V t (t_root t) [z] d"
    and z: "perfect (Suc j) z" "mt_ok blake2b V z" "spine_loaded (t_stored t) 0 z" "good b h (mt_leaves z)"
    and size: "Suc (Suc j) < 2 ^ 32" "length (t_generated t) + length (mt_leaves z) \<le> 2 ^ 32"
  shows "\<exists>r gs d. truncate_leaf blake2b V t =
      bindr (pop_many (Suc j + 1) (t\<lparr>t_generated := t_generated t @ gs\<rparr>)) (\<lambda>t'. Ok (Suc j + 1, t'\<lparr>t_root := r\<rparr>)) \<and>
    chain blake2b V (t\<lparr>t_generated := t_generated t @ gs\<rparr>) r (left_siblings z) d"
proof -
  obtain e l w where zs: "z = MNode e l w" and p: "perfect j w" using z(1) by (cases z) auto
  have root: "t_root t = Stored (mt_top 0 z)" "top_loaded (t_stored t) 0 z"
    using chain_singleE [OF c] by blast+
  have entry: "resolve_link t (t_root t) = Ok (entry_new e (Stored (mt_top 0 l)) (Stored (mt_top (mt_size l) w)))"
    using resolve_top [OF root(2)] root(1) by (simp add: zs mt_entry_def)
  have sum: "summary b h (mt_leaves z) (mt_data z)" by (rule mt_summary [OF blake z(2,4)])
  have len: "length (mt_leaves z) = 2 ^ Suc j" by (rule perfect_leaves [OF z(1)])
  have whole: "is_power_of_two (2 ^ Suc j)" unfolding is_power_of_two_iff by blast
  have count: "leaf_count V (entry_new e l' r') = (Ok (2 ^ Suc j) :: nat history_res)"
    "complete V (entry_new e l' r') = (Ok True :: bool history_res)" for l' r'
  proof -
    have "summary b h (mt_leaves z) (e_data (entry_new e l' r'))" using sum by (simp add: zs entry_new_def)
    note leaf_count_summary [OF this good_pos [OF z(4)]] complete_summary [OF this good_pos [OF z(4)]]
    then show "leaf_count V (entry_new e l' r') = (Ok (2 ^ Suc j) :: nat history_res)"
      "complete V (entry_new e l' r') = (Ok True :: bool history_res)"
      unfolding len using whole by simp_all
  qed
  have spine: "right_spine t (Stored (mt_top (mt_size l) w)) [Stored (mt_top 0 l)] 1 =
      Ok (peak_links 0 (left_siblings z), Suc j)"
    using right_spine_perfect [of t "mt_size l" w j 1 "[Stored (mt_top 0 l)]"] z(3) p size(1) by (simp add: zs)
  have ls: "mt_leaves z = all_leaves (left_siblings z) @ [last_leaf z]" by (rule left_siblings_perfect(3) [OF z(1)])
  obtain r gs d' where join: "join_peaks blake2b V (tl (peak_links 0 (left_siblings z))) (hd (peak_links 0 (left_siblings z))) t =
      Ok (r, t\<lparr>t_generated := t_generated t @ gs\<rparr>)"
    "chain blake2b V (t\<lparr>t_generated := t_generated t @ gs\<rparr>) r (left_siblings z) d'"
  proof (rule chain_range [OF blake, of "left_siblings z" t b h])
    show "good b h (all_leaves (left_siblings z))" using z(4) ls good_append(1) by metis
    show "length (t_generated t) + length (left_siblings z) \<le> 2 ^ 32"
      using length_le_leaves [of "left_siblings z"] size(2) by (simp add: ls)
  qed (use z left_siblings_ok left_siblings_loaded in \<open>auto simp: zs\<close>)
  have "truncate_leaf blake2b V t =
      bindr (pop_many (Suc j + 1) (t\<lparr>t_generated := t_generated t @ gs\<rparr>)) (\<lambda>t'. Ok (Suc j + 1, t'\<lparr>t_root := r\<rparr>))"
    using spine join(1) size(1)
    by (simp add: truncate_leaf_def entry count indexed_left_def indexed_right_def entry_left_def entry_right_def
        u32_checked_def in_u32_def)
      (simp add: entry_new_def zs)
  with join(2) show ?thesis by blast
qed

text \<open>Several mountains: those before the last one stay, and the last one loses its last leaf.\<close>

lemma truncate_several:
  assumes blake: "digest_32 blake2b" and c: "chain blake2b V t (t_root t) (ts @ [z]) d" and ne: "ts \<noteq> []"
    and m: "mountains blake2b V (js @ [k]) (ts @ [z])" and loaded: "tops_loaded (t_stored t) 0 (ts @ [z])"
    and z: "perfect k z" "spine_loaded (t_stored t) (offs ts) z" and g: "good b h (all_leaves (ts @ [z]))"
    and size: "k + 1 < 2 ^ 32" "length (t_generated t) + length (all_leaves (ts @ [z])) \<le> 2 ^ 32"
  shows "\<exists>r gs d. truncate_leaf blake2b V t =
      bindr (pop_many (k + 1) (t\<lparr>t_generated := t_generated t @ gs\<rparr>)) (\<lambda>t'. Ok (k + 1, t'\<lparr>t_root := r\<rparr>)) \<and>
    chain blake2b V (t\<lparr>t_generated := t_generated t @ gs\<rparr>) r (ts @ left_siblings z) d"
proof -
  obtain l d0 where l: "chain blake2b V t l ts d0"
    and entry: "resolve_link t (t_root t) = Ok (entry_new d l (Stored (mt_top (offs ts) z)))"
    using chain_snocE [OF c ne] by metis
  let ?n = "length (all_leaves (ts @ [z]))"
  have oks: "list_all (mt_ok blake2b V) (ts @ [z])" using m by (simp add: mountains_def)
  have "summary b h (all_leaves (ts @ [z])) (e_data (entry_new d l (Stored (mt_top (offs ts) z))))"
    using chain_summary [OF blake c oks g] by (simp add: entry_new_def)
  note sum = leaf_count_summary [OF this good_pos [OF g]] complete_summary [OF this good_pos [OF g]]
  have "sorted_wrt (>) (js @ [k])" "1 < length (js @ [k])"
    using m ne by (auto simp: mountains_def dest: list_all2_lengthD)
  then have nc: "\<not> is_power_of_two ?n"
    using not_power_of_two [of "js @ [k]"] mountains_length [OF m] by simp
  note accessors = entry indexed_left_def indexed_right_def entry_left_def entry_right_def
  show ?thesis
  proof (cases k)
    case 0
    then have "left_siblings z = []" using z(1) by (cases z) auto
    moreover have "truncate_leaf blake2b V t = bindr (pop_many 1 t) (\<lambda>t'. Ok (1, t'\<lparr>t_root := l\<rparr>))"
      using length_parity [OF m z(1)] 0
      by (simp add: truncate_leaf_def accessors sum) (cases "pop t :: 'd tree history_res", simp_all add: entry_new_def)
    ultimately show ?thesis using l 0 by (intro exI [of _ l] exI [of _ "[]"] exI [of _ d0]) simp
  next
    case (Suc j)
    have ls: "mt_leaves z = all_leaves (left_siblings z) @ [last_leaf z]" by (rule left_siblings_perfect(3) [OF z(1)])
    have "good b h (all_leaves (ts @ left_siblings z))"
      using g good_append(1) [of b h "all_leaves (ts @ left_siblings z)" "[last_leaf z]"] by (simp add: ls)
    moreover have "list_all (mt_ok blake2b V) (ts @ left_siblings z)" using oks left_siblings_ok by simp
    moreover have "tops_loaded (t_stored t) 0 (ts @ left_siblings z)"
      using loaded left_siblings_loaded [OF z(2)] by (simp add: tops_loaded_append)
    moreover have "length (t_generated t) + length (left_siblings z) \<le> 2 ^ 32"
      using size(2) length_le_leaves [of "left_siblings z"] by (simp add: ls)
    ultimately obtain r gs d' where join:
      "join_peaks blake2b V (peak_links (offs ts) (left_siblings z)) l t = Ok (r, t\<lparr>t_generated := t_generated t @ gs\<rparr>)"
      "chain blake2b V (t\<lparr>t_generated := t_generated t @ gs\<rparr>) r (ts @ left_siblings z) d'"
      using join_chain [OF blake l] by blast
    have "right_spine t (Stored (mt_top (offs ts) z)) [l] 1 = Ok ([l] @ peak_links (offs ts) (left_siblings z), 1 + k)"
      using right_spine_perfect [OF z(2,1), of 1] size(1) by simp
    then have "truncate_leaf blake2b V t =
        bindr (pop_many (k + 1) (t\<lparr>t_generated := t_generated t @ gs\<rparr>)) (\<lambda>t'. Ok (k + 1, t'\<lparr>t_root := r\<rparr>))"
      using length_parity [OF m z(1)] Suc nc join(1)
      by (simp add: truncate_leaf_def accessors sum) (simp add: entry_new_def)
    with join(2) show ?thesis by blast
  qed
qed

lemma truncate_represents:
  assumes blake: "digest_32 blake2b" and rep: "right_edge_loaded blake2b V t (xs @ [x])" and "xs \<noteq> []"
    and g: "good b h (xs @ [x])"
    and size: "length xs + 1 < 2 ^ 31" "length (t_generated t) + length xs + 1 \<le> 2 ^ 32"
  shows "\<exists>t'. truncate_leaf blake2b V t = Ok (t_stored_count t - t_stored_count t', t') \<and>
    represents blake2b V t' xs \<and> t_stored_count t' < t_stored_count t \<and>
    (\<forall>i < t_stored_count t'. t_stored t' i = t_stored t i)"
proof -
  obtain us where us: "view_of blake2b V t us" "all_leaves us = xs @ [x]"
    "spine_loaded (t_stored t) (offs (butlast us)) (last us)"
    using rep by (auto simp: right_edge_loaded_def)
  then have "us \<noteq> []" by auto
  then obtain ts z where tz: "us = ts @ [z]" by (meson rev_exhaust)
  obtain js k d where m: "mountains blake2b V (js @ [k]) (ts @ [z])" and k: "perfect k z" "mt_ok blake2b V z"
    and c: "chain blake2b V t (t_root t) (ts @ [z]) d" and t: "t_stored_count t = offs (ts @ [z])"
      "tops_loaded (t_stored t) 0 (ts @ [z])"
    using us(1) by (auto simp: tz view_of_def mountains_snoc)
  have spine: "spine_loaded (t_stored t) (offs ts) z" using us(3) by (simp add: tz)
  have ls: "mt_leaves z = all_leaves (left_siblings z) @ [last_leaf z]" by (rule left_siblings_perfect(3) [OF k(1)])
  then have xs: "all_leaves (ts @ left_siblings z) = xs" using us(2) by (simp add: tz)
  have len: "length (all_leaves (ts @ [z])) = length xs + 1" using us(2) by (simp add: tz)
  have "k < 2 ^ k" by simp
  also have "\<dots> = length (mt_leaves z)" using perfect_leaves [OF k(1)] by simp
  finally have size': "k + 1 < 2 ^ 32" "length (t_generated t) + length (all_leaves (ts @ [z])) \<le> 2 ^ 32"
    using size len by simp_all
  have gl: "good b h (all_leaves (ts @ [z]))" using g us(2) by (simp add: tz)
  have "\<exists>r gs d. truncate_leaf blake2b V t =
      bindr (pop_many (k + 1) (t\<lparr>t_generated := t_generated t @ gs\<rparr>)) (\<lambda>t'. Ok (k + 1, t'\<lparr>t_root := r\<rparr>)) \<and>
    chain blake2b V (t\<lparr>t_generated := t_generated t @ gs\<rparr>) r (ts @ left_siblings z) d"
  proof (cases "ts = []")
    case True
    then obtain j where "k = Suc j" using xs \<open>xs \<noteq> []\<close> k(1) by (cases k; cases z) auto
    then show ?thesis
      using truncate_single [OF blake, of t z d j b h] c k spine gl size' True by simp
  next
    case False
    then show ?thesis by (rule truncate_several [OF blake c _ m t(2) k(1) spine gl size'])
  qed
  then obtain r gs d' where tr: "truncate_leaf blake2b V t =
      bindr (pop_many (k + 1) (t\<lparr>t_generated := t_generated t @ gs\<rparr>)) (\<lambda>t'. Ok (k + 1, t'\<lparr>t_root := r\<rparr>))"
    "chain blake2b V (t\<lparr>t_generated := t_generated t @ gs\<rparr>) r (ts @ left_siblings z) d'" by blast
  obtain t' where t': "pop_many (k + 1) (t\<lparr>t_generated := t_generated t @ gs\<rparr>) = (Ok t' :: 'd tree history_res)"
    "view_of blake2b V (t'\<lparr>t_root := r\<rparr>) (ts @ left_siblings z)"
    "t_stored_count t = t_stored_count t' + (k + 1)" "\<forall>i < t_stored_count t'. t_stored t' i = t_stored t i"
    by (rule truncated_view [OF k(1) m spine t tr(2)])
  then show ?thesis
    using tr(1) xs by (intro exI [of _ "t'\<lparr>t_root := r\<rparr>"]) (auto simp: represents_def)
qed

text \<open>Loading the peaks builds the chain over them.\<close>

lemma load_peaks_chain:
  assumes blake: "digest_32 blake2b"
  shows "chain blake2b V t l ts d \<Longrightarrow> list_all (mt_ok blake2b V) (ts @ us) \<Longrightarrow> tops_loaded (t_stored t) 0 ts \<Longrightarrow>
    good b h (all_leaves (ts @ us)) \<Longrightarrow> length (t_generated t) + length us \<le> 2 ^ 32 \<Longrightarrow>
    \<exists>r t' d'. load_peaks blake2b V (peak_entries (offs ts) us) (l, t) = Ok (r, t') \<and>
      chain blake2b V t' r (ts @ us) d' \<and> tops_loaded (t_stored t') 0 (ts @ us) \<and>
      t_stored_count t' = t_stored_count t"
proof (induction us arbitrary: ts l t d)
  case Nil
  then show ?case by auto
next
  case (Cons x us)
  obtain d' where d': "combine blake2b V d (mt_data x) = Ok d'" by (rule combine_next [OF blake Cons.prems(1,2,4)])
  let ?i = "mt_top (offs ts) x" and ?e = "mt_entry (offs ts) x"
  define e where "e = entry_new d' l (Stored ?i)"
  define t1 where "t1 = t\<lparr>t_stored := (t_stored t)(?i \<mapsto> ?e)\<rparr>"
  define t2 where "t2 = t1\<lparr>t_generated := t_generated t @ [e]\<rparr>"
  have "offs ts \<le> ?i" using mt_size_pos [of x] unfolding mt_top_def by linarith
  then have same: "\<forall>i < offs ts. t_stored t1 i = t_stored t i" by (auto simp: t1_def)
  have c1: "chain blake2b V t1 l ts d"
    by (rule chain_cong [OF Cons.prems(1) same, where gs = "[]"]) (simp add: t1_def)
  have top: "top_loaded (t_stored t1) (offs ts) x" by (simp add: top_loaded_def t1_def)
  have step: "load_peaks blake2b V (peak_entries (offs ts) (x # us)) (l, t) =
      load_peaks blake2b V (peak_entries (offs (ts @ [x])) us) (Generated (length (t_generated t)), t2)"
    using chain_resolve [OF c1] Cons.prems(5) d' resolve_top [OF top]
    by (auto simp: insert_stored_def t1_def [symmetric] combine_nodes_def push_generated_def
        u32_checked_def in_u32_def t2_def e_def Let_def) (simp_all add: t1_def)
  have "chain blake2b V t2 l ts d"
    by (rule chain_cong [OF c1, where gs = "[e]"]) (simp_all add: t2_def t1_def)
  then have c2: "chain blake2b V t2 (Generated (length (t_generated t))) (ts @ [x]) d'"
    using top d' by (intro chain.join) (simp_all add: t2_def e_def)
  have loaded: "tops_loaded (t_stored t2) 0 (ts @ [x])"
    using Cons.prems(3) tops_loaded_cong [of 0 ts "t_stored t1" "t_stored t"] same top
    by (simp add: tops_loaded_append t2_def)
  have size: "length (t_generated t2) + length us \<le> 2 ^ 32" and count: "t_stored_count t2 = t_stored_count t"
    using Cons.prems(5) by (simp_all add: t2_def t1_def)
  from Cons.IH [OF c2 _ loaded _ size] Cons.prems(2,4) count show ?case unfolding step by simp
qed

text \<open>Extra entries do not change the view unless they contradict a peak.\<close>

lemma fold_insert_stored:
  "\<forall>e \<in> set extra. m (fst e) \<noteq> None \<longrightarrow> m (fst e) = Some (snd e) \<Longrightarrow> m \<subseteq>\<^sub>m t_stored t \<Longrightarrow>
     m \<subseteq>\<^sub>m t_stored (fold insert_stored extra t) \<and> t_generated (fold insert_stored extra t) = t_generated t \<and>
     t_stored_count (fold insert_stored extra t) = t_stored_count t"
proof (induction extra arbitrary: t)
  case (Cons e extra)
  have step: "m \<subseteq>\<^sub>m t_stored (insert_stored e t)"
    using Cons.prems by (auto simp: insert_stored_def map_le_def dom_def split: if_splits)
  have "t_generated (insert_stored e t) = t_generated t" "t_stored_count (insert_stored e t) = t_stored_count t"
    by (simp_all add: insert_stored_def)
  then show ?case using Cons.IH [OF _ step] Cons.prems(1) by simp
qed simp

lemma peak_entries_ge: "e \<in> set (peak_entries p ts) \<Longrightarrow> p \<le> fst e"
proof (induction ts arbitrary: p)
  case (Cons t ts)
  have "p \<le> mt_top p t" using mt_size_pos [of t] unfolding mt_top_def by linarith
  with Cons.IH [of "p + mt_size t"] Cons.prems show ?case by auto
qed simp

lemma distinct_peak_entries: "distinct (map fst (peak_entries p ts))"
proof (induction ts arbitrary: p)
  case (Cons t ts)
  have "mt_top p t \<noteq> fst e" if "e \<in> set (peak_entries (p + mt_size t) ts)" for e
    using peak_entries_ge [OF that] mt_top_less [of p t] by linarith
  with Cons show ?case by auto
qed simp

lemma tops_loaded_map_le: "tops_loaded m p ts \<longleftrightarrow> map_of (peak_entries p ts) \<subseteq>\<^sub>m m"
proof -
  have "tops_loaded m p ts \<longleftrightarrow> (\<forall>e \<in> set (peak_entries p ts). m (fst e) = Some (snd e))"
    by (induction ts arbitrary: p) (auto simp: top_loaded_def)
  also have "\<dots> \<longleftrightarrow> (\<forall>k v. map_of (peak_entries p ts) k = Some v \<longrightarrow> m k = Some v)"
    by (simp add: map_of_eq_Some_iff [OF distinct_peak_entries] Ball_def)
  also have "\<dots> \<longleftrightarrow> map_of (peak_entries p ts) \<subseteq>\<^sub>m m" by (auto simp: map_le_def dom_def)
  finally show ?thesis .
qed

lemma chain_reload:
  "chain blake2b V t link ts d \<Longrightarrow> tops_loaded (t_stored t') 0 ts \<Longrightarrow> t_generated t' = t_generated t \<Longrightarrow>
     chain blake2b V t' link ts d"
  by (induction rule: chain.induct) (auto simp: tops_loaded_append intro: chain.intros)

text \<open>A view created from the peaks of a mountain range represents its leaves.\<close>

lemma new_represents:
  assumes blake: "digest_32 blake2b" and m: "mountains blake2b V ks ts" "ts \<noteq> []"
    and g: "good b h (all_leaves ts)" and size: "length (all_leaves ts) < 2 ^ 32"
    and extra: "\<forall>e \<in> set extra. \<forall>q \<in> set (peak_entries 0 ts). fst e = fst q \<longrightarrow> snd e = snd q"
  shows "\<exists>t. tree_new blake2b V (offs ts) (peak_entries 0 ts) extra = Ok t \<and>
    represents blake2b V t (all_leaves ts) \<and> tree_len t = offs ts"
proof -
  obtain x us where ts: "ts = x # us" using m(2) by (cases ts) auto
  define t0 where "t0 = insert_stored (mt_top 0 x, mt_entry 0 x) (invalid_tree\<lparr>t_stored_count := offs ts\<rparr>)"
  have top: "top_loaded (t_stored t0) 0 x" by (simp add: t0_def insert_stored_def top_loaded_def)
  have oks: "list_all (mt_ok blake2b V) ([x] @ us)" using m(1) by (simp add: mountains_def ts)
  have "length (t_generated t0) + length us \<le> 2 ^ 32" "tops_loaded (t_stored t0) 0 [x]"
    "good b h (all_leaves ([x] @ us))"
    using size length_le_leaves [of ts] top g by (simp_all add: t0_def insert_stored_def invalid_tree_def ts)
  from load_peaks_chain [OF blake chain.single [OF top] oks this(2,3,1)]
  obtain r t1 d where load: "load_peaks blake2b V (peak_entries (offs [x]) us) (Stored (mt_top 0 x), t0) = Ok (r, t1)"
    "chain blake2b V t1 r ([x] @ us) d" "tops_loaded (t_stored t1) 0 ([x] @ us)"
    "t_stored_count t1 = t_stored_count t0" by blast
  have t1: "load_peaks blake2b V (peak_entries (mt_size x) us) (Stored (mt_top 0 x), t0) = Ok (r, t1)"
    "chain blake2b V t1 r ts d" "tops_loaded (t_stored t1) 0 ts" "t_stored_count t1 = offs ts"
    using load by (simp_all add: ts) (simp add: t0_def insert_stored_def ts)
  define t2 where "t2 = (fold insert_stored extra t1)\<lparr>t_root := r\<rparr>"
  have new: "tree_new blake2b V (offs ts) (peak_entries 0 ts) extra = Ok t2"
    using t1(1) by (simp add: tree_new_def ts t2_def t0_def)
  let ?m = "map_of (peak_entries 0 ts)"
  have "?m \<subseteq>\<^sub>m t_stored t1"
    using t1(3) by (simp add: tops_loaded_map_le)
  moreover have "\<forall>e \<in> set extra. ?m (fst e) \<noteq> None \<longrightarrow> ?m (fst e) = Some (snd e)"
    using extra by (fastforce dest: map_of_SomeD)
  ultimately have t2: "?m \<subseteq>\<^sub>m t_stored t2" "t_generated t2 = t_generated t1" "t_stored_count t2 = offs ts"
    using fold_insert_stored [of extra ?m t1] t1(4) by (auto simp: t2_def)
  have loaded: "tops_loaded (t_stored t2) 0 ts" using t2(1) by (simp add: tops_loaded_map_le)
  have "chain blake2b V t2 (t_root t2) ts d"
    using chain_reload [OF t1(2) loaded] t2(2) by (simp add: t2_def)
  then have "represents blake2b V t2 (all_leaves ts)"
    using m(1) t2(3) loaded by (auto simp: represents_def view_of_def)
  with new t2(3) show ?thesis by (auto simp: tree_len_def)
qed

end

lemma represents_root:
  assumes "represents blake2b V t xs"
  shows "\<exists>e. root_node t = Ok e \<and> mmr_root blake2b V xs = Ok (e_data e)"
proof -
  obtain ts ks d where ts: "chain blake2b V t (t_root t) ts d" "mountains blake2b V ks ts" "all_leaves ts = xs"
    using assms by (auto simp: represents_def view_of_def)
  have "\<exists>e. resolve_link t (t_root t) = Ok e \<and> e_data e = d"
    using ts(1) by (cases rule: chain.cases) (auto simp: top_loaded_def resolve_link_def entry_new_def)
  then show ?thesis using chain_root [OF ts(1,2)] ts(3) by (auto simp: root_node_def)
qed

section \<open>The range is determined by its leaves\<close>

lemma perfect_determined:
  "perfect k x \<Longrightarrow> perfect k y \<Longrightarrow> mt_ok blake2b V x \<Longrightarrow> mt_ok blake2b V y \<Longrightarrow> mt_leaves x = mt_leaves y \<Longrightarrow> x = y"
proof (induction k x arbitrary: y rule: perfect.induct)
  case (1 d)
  then show ?case by (cases y) auto
next
  case (2 k d l r)
  then obtain d' l' r' where y: "y = MNode d' l' r'" "perfect k l'" "perfect k r'" by (cases y) auto
  then have "mt_leaves l = mt_leaves l'" "mt_leaves r = mt_leaves r'"
    using "2.prems" perfect_leaves [of k l] perfect_leaves [of k l'] by (auto simp: append_eq_append_conv)
  then have "l = l'" "r = r'" using "2.IH" "2.prems" y by auto
  then show ?case using "2.prems"(3,4) y(1) by simp
qed auto

lemma mountains_determined:
  "mountains blake2b V ks ts \<Longrightarrow> mountains blake2b V js us \<Longrightarrow> all_leaves ts = all_leaves us \<Longrightarrow> ts = us"
proof (induction ts arbitrary: ks js us)
  case Nil
  then show ?case by (cases us) auto
next
  case (Cons x ts)
  then obtain y vs where us: "us = y # vs" by (cases us) auto
  have head: "perfect (top_bit (length (all_leaves (z # zs)))) z \<and> mt_ok blake2b V z \<and> (\<exists>is. mountains blake2b V is zs)"
    if m: "mountains blake2b V ls (z # zs)" for ls z zs
  proof -
    obtain i "is" where l: "ls = i # is" "perfect i z" "mt_ok blake2b V z" "mountains blake2b V is zs"
      using m by (cases ls) (auto simp: mountains_def)
    have "length (all_leaves zs) < 2 ^ i"
      unfolding mountains_length [OF l(4)] using m by (intro sum_powers_less) (auto simp: mountains_def l(1))
    then have "top_bit (length (all_leaves (z # zs))) = i"
      using perfect_leaves [OF l(2)] by (intro top_bit_eq) auto
    with l show ?thesis by blast
  qed
  note hx = head [OF Cons.prems(1)] and hy = head [OF Cons.prems(2) [unfolded us]]
  have "length (mt_leaves x) = length (mt_leaves y)"
    using hx hy perfect_leaves Cons.prems(3) by (metis us)
  then have split: "mt_leaves x = mt_leaves y" "all_leaves ts = all_leaves vs"
    using Cons.prems(3) by (auto simp: us append_eq_append_conv)
  have "x = y" using perfect_determined [of _ x y blake2b V] hx hy split(1) Cons.prems(3) us by metis
  moreover have "ts = vs" using Cons.IH hx hy split(2) by blast
  ultimately show ?case by (simp add: us)
qed

lemma represents_len:
  assumes "represents blake2b V t xs" "represents blake2b V t' xs"
  shows "tree_len t = tree_len t'"
proof -
  obtain ts ks us js where "mountains blake2b V ks ts" "mountains blake2b V js us" "all_leaves ts = xs" "all_leaves us = xs"
    "tree_len t = offs ts" "tree_len t' = offs us"
    using assms by (auto simp: represents_def view_of_def tree_len_def)
  then show ?thesis using mountains_determined [of blake2b V ks ts js us] by simp
qed

lemma right_edge_represents: "right_edge_loaded blake2b V t xs \<Longrightarrow> represents blake2b V t xs"
  by (auto simp: right_edge_loaded_def represents_def)

section \<open>The operations refine lists of leaves\<close>

text \<open>The abstract tree is the list of its leaves: creating a view shows a list, appending adds to its end, and
truncating removes its last element. The persisted array is only changed at its end.\<close>

definition append_refines ::
  "hasher \<Rightarrow> 'd version \<Rightarrow> ('d \<Rightarrow> bool) \<Rightarrow> (nat \<Rightarrow> 'd \<Rightarrow> nat) \<Rightarrow> bool" where
  "append_refines blake2b V valid tot \<longleftrightarrow>
     (\<forall>t xs x b h. represents blake2b V t xs \<and> good_leaves V valid tot b h (xs @ [x]) \<and>
        length xs + 1 < 2 ^ 31 \<and> length (t_generated t) + length xs + 1 \<le> 2 ^ 32 \<longrightarrow>
        (\<exists>t'. append_leaf blake2b V x t = Some (Ok (map Stored [tree_len t ..< tree_len t'], t')) \<and>
           represents blake2b V t' (xs @ [x]) \<and> tree_len t < tree_len t' \<and>
           (\<forall>i < tree_len t. t_stored t' i = t_stored t i)))"

definition truncate_refines ::
  "hasher \<Rightarrow> 'd version \<Rightarrow> ('d \<Rightarrow> bool) \<Rightarrow> (nat \<Rightarrow> 'd \<Rightarrow> nat) \<Rightarrow> bool" where
  "truncate_refines blake2b V valid tot \<longleftrightarrow>
     (\<forall>t xs x b h. right_edge_loaded blake2b V t (xs @ [x]) \<and> xs \<noteq> [] \<and> good_leaves V valid tot b h (xs @ [x]) \<and>
        length xs + 1 < 2 ^ 31 \<and> length (t_generated t) + length xs + 1 \<le> 2 ^ 32 \<longrightarrow>
        (\<exists>t'. truncate_leaf blake2b V t = Ok (tree_len t - tree_len t', t') \<and>
           represents blake2b V t' xs \<and> tree_len t' < tree_len t \<and>
           (\<forall>i < tree_len t'. t_stored t' i = t_stored t i))) \<and>
     (\<forall>t x b h. represents blake2b V t [x] \<and> good_leaves V valid tot b h [x] \<longrightarrow>
        truncate_leaf blake2b V t = Err (ExpectedNode None))"

text \<open>A view is created from the entries of the peaks, whatever extra entries agree with them.\<close>

definition new_refines ::
  "hasher \<Rightarrow> 'd version \<Rightarrow> ('d \<Rightarrow> bool) \<Rightarrow> (nat \<Rightarrow> 'd \<Rightarrow> nat) \<Rightarrow> bool" where
  "new_refines blake2b V valid tot \<longleftrightarrow>
     (\<forall>ks ts extra b h. mountains blake2b V ks ts \<and> ts \<noteq> [] \<and> good_leaves V valid tot b h (all_leaves ts) \<and>
        length (all_leaves ts) < 2 ^ 32 \<and>
        (\<forall>e \<in> set extra. \<forall>q \<in> set (peak_entries 0 ts). fst e = fst q \<longrightarrow> snd e = snd q) \<longrightarrow>
        (\<exists>t. tree_new blake2b V (offs ts) (peak_entries 0 ts) extra = Ok t \<and>
           represents blake2b V t (all_leaves ts) \<and> tree_len t = offs ts)) \<and>
     (\<forall>len extra. tree_new blake2b V len [] extra = Panic)"

definition append_truncate_inverse ::
  "hasher \<Rightarrow> 'd version \<Rightarrow> ('d \<Rightarrow> bool) \<Rightarrow> (nat \<Rightarrow> 'd \<Rightarrow> nat) \<Rightarrow> bool" where
  "append_truncate_inverse blake2b V valid tot \<longleftrightarrow>
     (\<forall>t xs x b h. represents blake2b V t xs \<and> xs \<noteq> [] \<and> good_leaves V valid tot b h (xs @ [x]) \<and>
        length xs + 1 < 2 ^ 31 \<and> length (t_generated t) + 2 * length xs + 1 \<le> 2 ^ 32 \<longrightarrow>
        (\<exists>links t' t'' r. append_leaf blake2b V x t = Some (Ok (links, t')) \<and>
           truncate_leaf blake2b V t' = Ok (length links, t'') \<and> represents blake2b V t'' xs \<and>
           tree_len t'' = tree_len t \<and> (\<forall>i < tree_len t. t_stored t'' i = t_stored t i) \<and>
           mapr e_data (root_node t'') = Ok r \<and> mapr e_data (root_node t) = Ok r))"

context history_version
begin

lemma append_refines: "digest_32 blake2b \<Longrightarrow> append_refines blake2b V valid total"
  unfolding append_refines_def tree_len_def
  by (meson append_represents right_edge_represents)

lemma truncate_last_leaf:
  assumes "represents blake2b V t [x]" "good b h [x]"
  shows "truncate_leaf blake2b V t = Err (ExpectedNode None)"
proof -
  obtain ts ks d where ts: "chain blake2b V t (t_root t) ts d" "mountains blake2b V ks ts" "all_leaves ts = [x]"
    using assms(1) by (auto simp: represents_def view_of_def)
  have "mountains blake2b V [0] [MLeaf x]" by (simp add: mountains_def)
  then have "ts = [MLeaf x]" using mountains_determined [OF ts(2)] ts(3) by simp
  then have "resolve_link t (t_root t) = Ok (entry_new_leaf x)"
    using ts(1) by (auto elim!: chain_singleE simp: resolve_top mt_entry_def)
  moreover have "summary b h [x] (e_data (entry_new_leaf x))"
    using summary_leaf [OF assms(2)] by (simp add: entry_new_leaf_def)
  note count = leaf_count_summary [OF this good_pos [OF assms(2)]]
  ultimately show ?thesis
    by (simp add: truncate_leaf_def entry_left_def count) (simp add: entry_new_leaf_def)
qed

lemma truncate_refines: "digest_32 blake2b \<Longrightarrow> truncate_refines blake2b V valid total"
  unfolding truncate_refines_def tree_len_def
  using truncate_represents truncate_last_leaf by meson

lemma new_refines: "digest_32 blake2b \<Longrightarrow> new_refines blake2b V valid total"
  unfolding new_refines_def using new_represents by (auto simp: tree_new_def)

lemma append_truncate_inverse:
  assumes "digest_32 blake2b"
  shows "append_truncate_inverse blake2b V valid total"
  unfolding append_truncate_inverse_def
proof (intro allI impI, elim conjE)
  fix t xs x b h
  assume a: "represents blake2b V t xs" "xs \<noteq> []" "good b h (xs @ [x])" "length xs + 1 < 2 ^ 31"
    "length (t_generated t) + 2 * length xs + 1 \<le> 2 ^ 32"
  obtain t' where t': "append_leaf blake2b V x t = Some (Ok (map Stored [tree_len t ..< tree_len t'], t'))"
    "right_edge_loaded blake2b V t' (xs @ [x])" "tree_len t < tree_len t'"
    "\<forall>i < tree_len t. t_stored t' i = t_stored t i" "length (t_generated t') \<le> length (t_generated t) + length xs"
    using append_represents [OF assms a(1,3,4)] a(5) by (auto simp: tree_len_def)
  obtain t'' where t'': "truncate_leaf blake2b V t' = Ok (tree_len t' - tree_len t'', t'')"
    "represents blake2b V t'' xs" "\<forall>i < tree_len t''. t_stored t'' i = t_stored t' i"
    using truncate_represents [OF assms t'(2) a(2,3,4)] a(5) t'(5) by (auto simp: tree_len_def)
  have len: "tree_len t'' = tree_len t" by (rule represents_len [OF t''(2) a(1)])
  obtain e e' where "root_node t = Ok e" "root_node t'' = Ok e'" "e_data e' = e_data e"
    using represents_root [OF a(1)] represents_root [OF t''(2)] by force
  then show "\<exists>links t' t'' r. append_leaf blake2b V x t = Some (Ok (links, t')) \<and>
      truncate_leaf blake2b V t' = Ok (length links, t'') \<and> represents blake2b V t'' xs \<and>
      tree_len t'' = tree_len t \<and> (\<forall>i < tree_len t. t_stored t'' i = t_stored t i) \<and>
      mapr e_data (root_node t'') = Ok r \<and> mapr e_data (root_node t) = Ok r"
    using t' t'' len
    by (intro exI [of _ "map Stored [tree_len t ..< tree_len t']"] exI [of _ t'] exI [of _ t'']) auto
qed

end

text \<open>
  C1. Appending to the chain history tree refines appending to the list of its leaves, in all three versions
  of the tree: on a view that represents a list of consecutive blocks of one branch, with totals that fit
  their widths, \<open>append_leaf\<close> returns (collecting the peaks ends), never panics, and the new view represents the
  list with the new leaf at its end. The returned links are those of the new end of the array, and no
  persisted entry changes.
\<close>

theorem history_append_refines:
  assumes "digest_32 blake2b"
  shows "append_refines blake2b V1 valid_node_data v1_total \<and> append_refines blake2b V2 valid_node_data_v2 v2_total \<and>
    append_refines blake2b V3 valid_node_data_v3 v3_total"
  using hist1.append_refines hist2.append_refines hist3.append_refines assms by blast

definition zero_hash :: hasher where
  "zero_hash p x = replicate 32 0"

definition example_leaf :: "nat \<Rightarrow> node_data" where
  "example_leaf h = example_node\<lparr>nd_start_height := h, nd_end_height := h\<rparr>"

definition example_view :: "node_data tree" where
  "example_view =
     \<lparr>t_stored = [0 \<mapsto> entry_new_leaf (example_leaf 1)], t_generated = [], t_stored_count = 1, t_root = Stored 0\<rparr>"

lemma example_digest: "digest_32 zero_hash"
  by (simp add: digest_32_def zero_hash_def)

lemma example_represents: "represents zero_hash V1 example_view [example_leaf 1]"
proof -
  have top: "mt_top 0 (MLeaf x) = 0" for x :: node_data by (simp add: mt_top_def)
  have loaded: "top_loaded (t_stored example_view) 0 (MLeaf (example_leaf 1))"
    by (simp add: top_loaded_def top example_view_def mt_entry_def)
  have "mountains zero_hash V1 [0] [MLeaf (example_leaf 1)]" by (simp add: mountains_def)
  moreover have "chain zero_hash V1 example_view (t_root example_view) [MLeaf (example_leaf 1)] (example_leaf 1)"
    using chain.single [OF loaded, of zero_hash V1] by (simp add: top example_view_def)
  ultimately have "view_of zero_hash V1 example_view [MLeaf (example_leaf 1)]"
    using loaded by (auto simp: view_of_def) (auto simp: example_view_def)
  then show ?thesis unfolding represents_def by (intro exI [of _ "[MLeaf (example_leaf 1)]"]) simp
qed

lemma example_good:
  "good_leaves V1 valid_node_data v1_total 1 1 ([example_leaf 1] @ [example_leaf 2])"
  "good_leaves V1 valid_node_data v1_total 1 1 [example_leaf 1]"
proof -
  have "valid_node_data (example_leaf h)" if "h < 2 ^ 64" for h
    using example_nodes_valid(1) that by (simp add: valid_node_data_def example_leaf_def in_u64_def)
  then show "good_leaves V1 valid_node_data v1_total 1 1 ([example_leaf 1] @ [example_leaf 2])"
    "good_leaves V1 valid_node_data v1_total 1 1 [example_leaf 1]"
    by (auto simp: good_leaves_def V1_def example_leaf_def example_node_def v1_total_def less_Suc_eq total_cap_def)
qed

theorem history_append_refines_witness:
  "\<exists>t'. append_leaf zero_hash V1 (example_leaf 2) example_view = Some (Ok (map Stored [1 ..< tree_len t'], t')) \<and>
     represents zero_hash V1 t' [example_leaf 1, example_leaf 2]"
proof -
  have "append_refines zero_hash V1 valid_node_data v1_total"
    using history_append_refines [OF example_digest] by blast
  moreover have "tree_len example_view = 1" "t_generated example_view = []" by (simp_all add: tree_len_def example_view_def)
  ultimately show ?thesis
    using example_represents example_good(1) unfolding append_refines_def by fastforce
qed



text \<open>
  C22. Appending and truncating are inverse, in all three versions: after appending a leaf to a view that
  represents a non-empty list, truncating it removes exactly the entries that were appended and gives a view
  of the same list, with the same length, the same persisted entries and the same root metadata.
\<close>

theorem history_append_truncate:
  assumes "digest_32 blake2b"
  shows "append_truncate_inverse blake2b V1 valid_node_data v1_total \<and>
    append_truncate_inverse blake2b V2 valid_node_data_v2 v2_total \<and>
    append_truncate_inverse blake2b V3 valid_node_data_v3 v3_total"
  using hist1.append_truncate_inverse hist2.append_truncate_inverse hist3.append_truncate_inverse assms by blast

theorem history_append_truncate_witness:
  "\<exists>links t' t''. append_leaf zero_hash V1 (example_leaf 2) example_view = Some (Ok (links, t')) \<and>
     truncate_leaf zero_hash V1 t' = Ok (length links, t'') \<and> represents zero_hash V1 t'' [example_leaf 1] \<and>
     tree_len t'' = 1"
proof -
  have "append_truncate_inverse zero_hash V1 valid_node_data v1_total"
    using history_append_truncate [OF example_digest] by blast
  moreover have "tree_len example_view = 1" "t_generated example_view = []" by (simp_all add: tree_len_def example_view_def)
  ultimately show ?thesis
    using example_represents example_good(1) unfolding append_truncate_inverse_def by fastforce
qed

text \<open>
  C24. Creating a view: from the entries of the peaks of a mountain range and the length of its array, with any
  extra entries that agree with the peaks, \<open>Tree::new\<close> gives a view that represents the leaves of the range; it
  panics when there are no peaks.
\<close>

theorem history_new_refines:
  assumes "digest_32 blake2b"
  shows "new_refines blake2b V1 valid_node_data v1_total \<and> new_refines blake2b V2 valid_node_data_v2 v2_total \<and>
    new_refines blake2b V3 valid_node_data_v3 v3_total"
  using hist1.new_refines hist2.new_refines hist3.new_refines assms by blast

theorem history_new_refines_witness:
  "\<exists>t. tree_new zero_hash V1 1 [(0, entry_new_leaf (example_leaf 1))] [] = Ok t \<and>
     represents zero_hash V1 t [example_leaf 1]"
proof -
  let ?ts = "[MLeaf (example_leaf 1)]"
  have "new_refines zero_hash V1 valid_node_data v1_total"
    using history_new_refines [OF example_digest] by blast
  note this [unfolded new_refines_def, THEN conjunct1, THEN spec [of _ "[0]"], THEN spec [of _ ?ts],
      THEN spec [of _ "[]"], THEN spec [of _ 1], THEN spec [of _ 1]]
  moreover have "mountains zero_hash V1 [0] ?ts" "offs ?ts = 1"
    "peak_entries 0 ?ts = [(0, entry_new_leaf (example_leaf 1))]"
    by (simp_all add: mountains_def mt_top_def mt_entry_def)
  ultimately show ?thesis
    using example_good(2) by auto
qed

text \<open>
  C23. The root is the specified one: on every view that represents a list of leaves, the root node resolves and
  its metadata is the root that ZIP 221 defines for the list, obtained by cutting it into perfect subtrees of
  decreasing powers of two and combining their roots from the left.
\<close>

theorem history_root_reference:
  assumes "represents blake2b V t xs"
  shows "mapr e_data (root_node t) = mmr_root blake2b V xs \<and> (\<exists>e. root_node t = Ok e)"
  using represents_root [OF assms] by auto

theorem history_root_reference_witness:
  "mapr e_data (root_node example_view) = mmr_root zero_hash V1 [example_leaf 1] \<and>
     mmr_root zero_hash V1 [example_leaf 1] = Ok (example_leaf 1)"
proof -
  have "root_node example_view = Ok (entry_new_leaf (example_leaf 1))"
    by (simp add: root_node_def resolve_link_def example_view_def)
  then show ?thesis
    using history_root_reference [OF example_represents] by (simp add: entry_new_leaf_def)
qed

end
