(* ===== verification/Chain_History.thy ===== *)
theory Chain_History
  imports Block_Header Merkle_Roots History_Tree
begin

text \<open>
  The chain history tree as the node keeps it (\<open>zakura-chain/src/primitives/zcash_history.rs\<close> and
  \<open>history_tree.rs\<close>) and the check of a block's commitment against it (\<open>zakura-state/src/service/check.rs\<close>). The
  state of a tree is its size and the encoded entries of its peaks; the view of \<open>zakura-mmr-tree\<close> inside it is
  rebuilt after every block. A tree covers the blocks of one network upgrade: an activation block starts a new one.
  Where \<open>append_leaf\<close> may not return, neither do its callers, so pushing a block is a partial function.
\<close>

section \<open>Leaves\<close>

record history_parts =
  hp_header :: header
  hp_height :: height
  hp_sapling_root :: bytes
  hp_orchard_root :: bytes
  hp_ironwood_root :: bytes
  hp_sapling_tx :: nat
  hp_orchard_tx :: nat
  hp_ironwood_tx :: nat

text \<open>The default root of Orchard and Ironwood is the zero field element.\<close>

definition default_root :: bytes where
  "default_root = replicate 32 0"

definition v1_parts_to_history_node :: "digest \<Rightarrow> network \<Rightarrow> history_parts \<Rightarrow> node_data history_res" where
  "v1_parts_to_history_node sha256 net parts =
     (let height = hp_height parts; hdr = hp_header parts in
      bindr (current net height) (\<lambda>nu.
      bindr (expect_some (branch_id nu)) (\<lambda>branch.
      bindr (header_hash sha256 hdr) (\<lambda>block_hash.
      bindr (expect_some (u32_try_from (hd_time hdr))) (\<lambda>time.
      let target = unat (hd_difficulty_threshold hdr); sapling_root = hp_sapling_root parts in
      bindr (to_work (hd_difficulty_threshold hdr)) (\<lambda>maybe_work.
      bindr (expect_some maybe_work) (\<lambda>work.
      bindr (assertr (nu \<notin> {Genesis, BeforeOverwinter, Overwinter, Sapling, Blossom})) (\<lambda>_.
      Ok \<lparr>nd_consensus_branch_id = branch, nd_subtree_commitment = block_hash,
          nd_start_time = time, nd_end_time = time, nd_start_target = target, nd_end_target = target,
          nd_start_sapling_root = sapling_root, nd_end_sapling_root = sapling_root,
          nd_subtree_total_work = unat work, nd_start_height = height, nd_end_height = height,
          nd_sapling_tx = hp_sapling_tx parts\<rparr>))))))))"

definition v2_parts_to_history_node :: "digest \<Rightarrow> network \<Rightarrow> history_parts \<Rightarrow> node_data_v2 history_res" where
  "v2_parts_to_history_node sha256 net parts =
     bindr (v1_parts_to_history_node sha256 net parts) (\<lambda>v1.
     Ok \<lparr>v2_v1 = v1, v2_start_orchard_root = hp_orchard_root parts,
         v2_end_orchard_root = hp_orchard_root parts, v2_orchard_tx = hp_orchard_tx parts\<rparr>)"

definition v3_parts_to_history_node :: "digest \<Rightarrow> network \<Rightarrow> history_parts \<Rightarrow> node_data_v3 history_res" where
  "v3_parts_to_history_node sha256 net parts =
     bindr (v2_parts_to_history_node sha256 net parts) (\<lambda>v2.
     Ok \<lparr>v3_v2 = v2, v3_start_ironwood_root = hp_ironwood_root parts,
         v3_end_ironwood_root = hp_ironwood_root parts, v3_ironwood_tx = hp_ironwood_tx parts\<rparr>)"

text \<open>The trait \<open>Version\<close> of \<open>zcash_history.rs\<close>: a version of the tree and the leaves it makes of blocks. The
hash functions of the foreign crates come with it.\<close>

record 'd chain_version =
  cv_version :: "'d version"
  cv_leaf :: "network \<Rightarrow> history_parts \<Rightarrow> 'd history_res"
  cv_blake2b :: hasher

definition PreOrchardV :: "digest \<Rightarrow> hasher \<Rightarrow> node_data chain_version" where
  "PreOrchardV sha256 blake2b =
     \<lparr>cv_version = V1, cv_leaf = v1_parts_to_history_node sha256, cv_blake2b = blake2b\<rparr>"

definition OrchardOnwardV :: "digest \<Rightarrow> hasher \<Rightarrow> node_data_v2 chain_version" where
  "OrchardOnwardV sha256 blake2b =
     \<lparr>cv_version = V2, cv_leaf = v2_parts_to_history_node sha256, cv_blake2b = blake2b\<rparr>"

definition IronwoodOnwardV :: "digest \<Rightarrow> hasher \<Rightarrow> node_data_v3 chain_version" where
  "IronwoodOnwardV sha256 blake2b =
     \<lparr>cv_version = V3, cv_leaf = v3_parts_to_history_node sha256, cv_blake2b = blake2b\<rparr>"

section \<open>Encoded entries\<close>

text \<open>An \<open>Entry\<close> is a buffer of \<open>MAX_ENTRY_SIZE\<close> bytes, zero where nothing was written; writing past its end
panics.\<close>

definition entry_buffer :: "bytes \<Rightarrow> ('e, bytes) res" where
  "entry_buffer bs =
     (if length bs \<le> MAX_ENTRY_SIZE then Ok (bs @ replicate (MAX_ENTRY_SIZE - length bs) 0) else Panic)"

definition entry_encode :: "'d version \<Rightarrow> 'd entry \<Rightarrow> ('e, bytes) res" where
  "entry_encode V e = bindr (expect_ok (entry_write V e)) entry_buffer"

definition from_raw_bytes_padded :: "bytes \<Rightarrow> bytes" where
  "from_raw_bytes_padded bs =
     (let len = min (length bs) MAX_ENTRY_SIZE in take len bs @ replicate (MAX_ENTRY_SIZE - len) 0)"

definition entry_from_node_data :: "'d version \<Rightarrow> 'd \<Rightarrow> ('e, bytes) res" where
  "entry_from_node_data V d = entry_encode V (entry_new_leaf d)"

definition new_leaf_parts :: "'d chain_version \<Rightarrow> network \<Rightarrow> history_parts \<Rightarrow> ('e, bytes) res" where
  "new_leaf_parts CV net parts =
     bindr (expect_ok (cv_leaf CV net parts)) (entry_from_node_data (cv_version CV))"

section \<open>The versioned tree\<close>

record 'd chain_tree =
  ct_network :: network
  ct_network_upgrade :: network_upgrade
  ct_inner :: "'d tree"

definition read_entries :: "'d version \<Rightarrow> nat \<Rightarrow> (nat \<times> bytes) list \<Rightarrow> (io_error, (nat \<times> 'd entry) list) res" where
  "read_entries V branch = collect_res (\<lambda>(idx, entry). mapr (Pair idx) (entry_from_bytes V branch entry))"

definition new_from_cache ::
  "'d chain_version \<Rightarrow> network \<Rightarrow> network_upgrade \<Rightarrow> nat \<Rightarrow> (nat \<times> bytes) list \<Rightarrow> (nat \<times> bytes) list \<Rightarrow>
   (io_error, 'd chain_tree) res" where
  "new_from_cache CV net nu len peaks extra =
     bindr (ok_or InvalidInput (branch_id nu)) (\<lambda>branch.
     bindr (read_entries (cv_version CV) branch peaks) (\<lambda>peaks_vec.
     bindr (read_entries (cv_version CV) branch extra) (\<lambda>extra_vec.
     bindr (expect_ok (tree_new (cv_blake2b CV) (cv_version CV) len peaks_vec extra_vec)) (\<lambda>inner.
     Ok \<lparr>ct_network = net, ct_network_upgrade = nu, ct_inner = inner\<rparr>))))"

definition new_from_parts ::
  "'d chain_version \<Rightarrow> network \<Rightarrow> history_parts \<Rightarrow> (io_error, 'd chain_tree \<times> bytes) res" where
  "new_from_parts CV net parts =
     bindr (current net (hp_height parts)) (\<lambda>nu.
     if branch_id nu = None then Err InvalidInput
     else
       bindr (new_leaf_parts CV net parts) (\<lambda>entry0.
       bindr (new_from_cache CV net nu 1 [(0, entry0)] []) (\<lambda>tree.
       Ok (tree, entry0))))"

text \<open>Reading back and encoding the entries that were appended.\<close>

definition encode_appended :: "'d version \<Rightarrow> 'd tree \<Rightarrow> entry_link list \<Rightarrow> ('e, bytes list) res" where
  "encode_appended V t = collect_res (\<lambda>link. bindr (expect_ok (resolve_link t link)) (entry_encode V))"

definition append_leaf_parts ::
  "'d chain_version \<Rightarrow> history_parts \<Rightarrow> 'd chain_tree \<Rightarrow> (bytes list \<times> 'd chain_tree) history_res option" where
  "append_leaf_parts CV parts t =
     bindo (Some (current (ct_network t) (hp_height parts))) (\<lambda>nu.
     bindo (Some (assertr (nu = ct_network_upgrade t))) (\<lambda>_.
     bindo (Some (cv_leaf CV (ct_network t) parts)) (\<lambda>node_data.
     bindo (append_leaf (cv_blake2b CV) (cv_version CV) node_data (ct_inner t)) (\<lambda>(appended, inner).
     Some (
       bindr (encode_appended (cv_version CV) inner appended) (\<lambda>new_nodes.
       Ok (new_nodes, t\<lparr>ct_inner := inner\<rparr>)))))))"

definition chain_tree_hash :: "'d chain_version \<Rightarrow> 'd chain_tree \<Rightarrow> ('e, bytes) res" where
  "chain_tree_hash CV t =
     bindr (expect_ok (root_node (ct_inner t))) (\<lambda>root.
     node_hash (cv_blake2b CV) (cv_version CV) (e_data root))"

section \<open>The tree of the current upgrade\<close>

datatype history_tree_error =
    InnerError history_error
  | IOError io_error
  | InvalidCachedTree string
  | MissingBranchId network_upgrade

datatype inner_tree =
    PreOrchard "node_data chain_tree"
  | OrchardOnward "node_data_v2 chain_tree"
  | IronwoodOnward "node_data_v3 chain_tree"

record non_empty_tree =
  nh_network :: network
  nh_network_upgrade :: network_upgrade
  nh_inner :: inner_tree
  nh_size :: nat
  nh_peaks :: "(nat \<times> bytes) list"
  nh_current_height :: height

text \<open>The foreign hash functions: SHA-256 and BLAKE2b.\<close>

type_synonym hashes = "digest \<times> hasher"

abbreviation pre_orchard :: "hashes \<Rightarrow> node_data chain_version" where
  "pre_orchard H \<equiv> PreOrchardV (fst H) (snd H)"

abbreviation orchard_onward :: "hashes \<Rightarrow> node_data_v2 chain_version" where
  "orchard_onward H \<equiv> OrchardOnwardV (fst H) (snd H)"

abbreviation ironwood_onward :: "hashes \<Rightarrow> node_data_v3 chain_version" where
  "ironwood_onward H \<equiv> IronwoodOnwardV (fst H) (snd H)"

definition pre_heartwood :: "network_upgrade \<Rightarrow> bool" where
  "pre_heartwood nu \<longleftrightarrow> nu \<in> {Genesis, BeforeOverwinter, Overwinter, Sapling, Blossom}"

definition from_cache ::
  "hashes \<Rightarrow> network \<Rightarrow> nat \<Rightarrow> (nat \<times> bytes) list \<Rightarrow> height \<Rightarrow> (history_tree_error, non_empty_tree) res" where
  "from_cache H net len peaks current_height =
     (if peaks = [] then Err (InvalidCachedTree ''a non-empty history tree must have at least one peak'')
      else
        bindr (current net current_height) (\<lambda>nu.
        bindr
          (if pre_heartwood nu then Err (InvalidCachedTree ''history trees do not exist before Heartwood'')
           else if branch_id nu = None then Err (MissingBranchId nu)
           else map_err IOError (
             if nu \<in> {Heartwood, Canopy} then
               mapr PreOrchard (new_from_cache (pre_orchard H) net nu len peaks [])
             else if nu \<in> {Nu5, Nu6, Nu6_1, Nu6_2} then
               mapr OrchardOnward (new_from_cache (orchard_onward H) net nu len peaks [])
             else
               mapr IronwoodOnward (new_from_cache (ironwood_onward H) net nu len peaks []))) (\<lambda>inner.
        Ok \<lparr>nh_network = net, nh_network_upgrade = nu, nh_inner = inner, nh_size = len, nh_peaks = peaks,
            nh_current_height = current_height\<rparr>)))"

definition non_empty_from_parts ::
  "hashes \<Rightarrow> network \<Rightarrow> history_parts \<Rightarrow> (history_tree_error, non_empty_tree) res" where
  "non_empty_from_parts H net parts =
     bindr (current net (hp_height parts)) (\<lambda>nu.
     bindr
       (if pre_heartwood nu then Panic
        else if branch_id nu = None then Err (MissingBranchId nu)
        else map_err IOError (
          if nu \<in> {Heartwood, Canopy} then
            mapr (map_prod PreOrchard id)
              (new_from_parts (pre_orchard H) net
                (parts\<lparr>hp_orchard_root := default_root, hp_ironwood_root := default_root\<rparr>))
          else if nu \<in> {Nu5, Nu6, Nu6_1, Nu6_2} then
            mapr (map_prod OrchardOnward id)
              (new_from_parts (orchard_onward H) net (parts\<lparr>hp_ironwood_root := default_root\<rparr>))
          else
            mapr (map_prod IronwoodOnward id) (new_from_parts (ironwood_onward H) net parts)))
       (\<lambda>(tree, entry).
     Ok \<lparr>nh_network = net, nh_network_upgrade = nu, nh_inner = tree, nh_size = 1,
         nh_peaks = bt_insert 0 entry [], nh_current_height = hp_height parts\<rparr>))"

section \<open>Pruning\<close>

text \<open>\<open>u32\<close> subtraction panics below zero, and a shift by 32 or more panics.\<close>

definition u32_sub :: "nat \<Rightarrow> nat \<Rightarrow> ('e, nat) res" where
  "u32_sub a b = expect_some (u_checked_sub a b)"

definition u32_add :: "nat \<Rightarrow> nat \<Rightarrow> ('e, nat) res" where
  "u32_add a b = expect_some (u32_checked (a + b))"

definition u32_bit :: "nat \<Rightarrow> ('e, nat) res" where
  "u32_bit n = (if n < 32 then Ok (2 ^ n) else Panic)"

definition leading_zeros :: "nat \<Rightarrow> nat" where
  "leading_zeros n = 32 - nat_bits n"

text \<open>One turn of the loop: drop to the left child if the position is past the end, and then take the peak, if
there is one, and move to its right sibling.\<close>

definition drop_down :: "nat \<Rightarrow> nat \<Rightarrow> nat \<Rightarrow> ('e, nat \<times> nat) res" where
  "drop_down sz alt pos =
     (if sz \<le> pos then
        bindr (u32_bit alt) (\<lambda>bit. bindr (u32_sub pos bit) (\<lambda>pos'. bindr (u32_sub alt 1) (\<lambda>alt'. Ok (alt', pos'))))
      else Ok (alt, pos))"

definition take_peak :: "nat \<Rightarrow> nat \<Rightarrow> nat \<Rightarrow> nat list \<Rightarrow> ('e, nat \<times> nat list) res" where
  "take_peak sz alt pos found =
     (if pos < sz then
        bindr (u32_bit (alt + 1)) (\<lambda>bit. bindr (u32_add pos bit) (\<lambda>p. bindr (u32_sub p 1) (\<lambda>pos'.
        Ok (pos', found @ [pos]))))
      else Ok (pos, found))"

function peak_loop :: "nat \<Rightarrow> nat \<Rightarrow> nat \<Rightarrow> nat list \<Rightarrow> (unit, nat list) res" where
  "peak_loop sz alt pos found =
     (case drop_down sz alt pos of
        Ok (alt', pos') \<Rightarrow>
          (case take_peak sz alt' pos' found of
             Ok (pos'', found') \<Rightarrow> if alt' = 0 then Ok found' else peak_loop sz alt' pos'' found'
           | Err e \<Rightarrow> Err e
           | Panic \<Rightarrow> Panic)
      | Err e \<Rightarrow> Err e
      | Panic \<Rightarrow> Panic)"
  by pat_completeness auto
termination
proof (relation "measures [\<lambda>(sz, alt, pos, found). alt, \<lambda>(sz, alt, pos, found). sz - pos]", goal_cases)
  case (2 sz alt pos found p alt' pos' q pos'' found')
  show ?case
  proof (cases "sz \<le> pos")
    case True
    then have "alt' < alt"
      using 2 by (auto simp: drop_down_def bindr_eq_Ok u32_sub_def u_checked_sub_def split: if_splits)
    then show ?thesis by simp
  next
    case False
    then have "alt' = alt" "pos' = pos" using 2 by (auto simp: drop_down_def)
    moreover have "pos < pos''"
    proof -
      have "(1::nat) < 2 ^ (alt + 1)" by (rule one_less_power) simp_all
      moreover have "pos'' = pos + 2 ^ (alt + 1) - 1"
        using 2 False \<open>alt' = alt\<close> \<open>pos' = pos\<close>
        by (auto simp: take_peak_def bindr_eq_Ok u32_bit_def u32_add_def u32_sub_def u_checked_sub_def u32_checked_def
            split: if_splits)
      ultimately show ?thesis by linarith
    qed
    ultimately show ?thesis using False by simp
  qed
qed simp

declare peak_loop.simps [simp del]

definition peak_positions :: "nat \<Rightarrow> (unit, nat list) res" where
  "peak_positions sz =
     bindr (u32_add sz 1) (\<lambda>n.
     bindr (u32_sub 32 (leading_zeros n)) (\<lambda>a.
     bindr (u32_sub a 1) (\<lambda>b.
     bindr (u32_sub b 1) (\<lambda>alt.
     bindr (u32_bit (alt + 1)) (\<lambda>bit.
     bindr (u32_sub bit 2) (\<lambda>peak_pos.
     peak_loop sz alt peak_pos []))))))"

text \<open>Rebuilding the view from the peaks, as \<open>prune\<close> and \<open>clone\<close> do.\<close>

definition rebuild :: "hashes \<Rightarrow> non_empty_tree \<Rightarrow> (io_error, inner_tree) res" where
  "rebuild H t =
     (case nh_inner t of
        PreOrchard _ \<Rightarrow>
          mapr PreOrchard (new_from_cache (pre_orchard H) (nh_network t) (nh_network_upgrade t) (nh_size t) (nh_peaks t) [])
      | OrchardOnward _ \<Rightarrow>
          mapr OrchardOnward (new_from_cache (orchard_onward H) (nh_network t) (nh_network_upgrade t) (nh_size t) (nh_peaks t) [])
      | IronwoodOnward _ \<Rightarrow>
          mapr IronwoodOnward (new_from_cache (ironwood_onward H) (nh_network t) (nh_network_upgrade t) (nh_size t) (nh_peaks t) []))"

definition prune :: "hashes \<Rightarrow> non_empty_tree \<Rightarrow> (io_error, non_empty_tree) res" where
  "prune H t =
     bindr (expect_ok (peak_positions (nh_size t))) (\<lambda>peak_pos_set.
     let t' = t\<lparr>nh_peaks := filter (\<lambda>(k, _). k \<in> set peak_pos_set) (nh_peaks t)\<rparr> in
     bindr (rebuild H t') (\<lambda>inner.
     Ok (t'\<lparr>nh_inner := inner\<rparr>)))"

definition clone :: "hashes \<Rightarrow> non_empty_tree \<Rightarrow> ('e, non_empty_tree) res" where
  "clone H t = bindr (expect_ok (rebuild H t)) (\<lambda>inner. Ok (t\<lparr>nh_inner := inner\<rparr>))"

section \<open>Pushing blocks\<close>

primrec insert_new :: "bytes list \<Rightarrow> non_empty_tree \<Rightarrow> ('e, non_empty_tree) res" where
  "insert_new [] t = Ok t"
| "insert_new (entry # entries) t =
     bindr (u32_add (nh_size t) 1) (\<lambda>sz.
     insert_new entries (t\<lparr>nh_peaks := bt_insert (nh_size t) entry (nh_peaks t), nh_size := sz\<rparr>))"

definition append_inner ::
  "hashes \<Rightarrow> history_parts \<Rightarrow> inner_tree \<Rightarrow> (bytes list \<times> inner_tree) history_res option" where
  "append_inner H parts inner =
     (case inner of
        PreOrchard t \<Rightarrow>
          map_option (mapr (map_prod id PreOrchard))
            (append_leaf_parts (pre_orchard H)
              (parts\<lparr>hp_orchard_root := default_root, hp_ironwood_root := default_root\<rparr>) t)
      | OrchardOnward t \<Rightarrow>
          map_option (mapr (map_prod id OrchardOnward))
            (append_leaf_parts (orchard_onward H) (parts\<lparr>hp_ironwood_root := default_root\<rparr>) t)
      | IronwoodOnward t \<Rightarrow>
          map_option (mapr (map_prod id IronwoodOnward)) (append_leaf_parts (ironwood_onward H) parts t))"

definition non_empty_push ::
  "hashes \<Rightarrow> history_parts \<Rightarrow> non_empty_tree \<Rightarrow> (history_tree_error, non_empty_tree) res option" where
  "non_empty_push H parts t =
     (let height = hp_height parts in
      bindo (Some (height_add_diff (nh_current_height t) 1)) (\<lambda>next_height.
      bindo (Some (assertr (Some height = next_height))) (\<lambda>_.
      bindo (Some (current (nh_network t) height)) (\<lambda>nu.
      if nu \<noteq> nh_network_upgrade t then
        Some (
          bindr (non_empty_from_parts H (nh_network t) parts) (\<lambda>new_tree.
          bindr (assertr (nh_network_upgrade new_tree = nu)) (\<lambda>_.
          Ok new_tree)))
      else
        bindo (map_option (map_err InnerError) (append_inner H parts (nh_inner t))) (\<lambda>(new_entries, inner).
        Some (
          bindr (insert_new new_entries (t\<lparr>nh_inner := inner\<rparr>)) (\<lambda>t'.
          bindr (map_err IOError (prune H t')) (\<lambda>t''.
          Ok (t''\<lparr>nh_current_height := height\<rparr>))))))))) "

definition non_empty_hash :: "hashes \<Rightarrow> non_empty_tree \<Rightarrow> ('e, bytes) res" where
  "non_empty_hash H t =
     (case nh_inner t of
        PreOrchard tree \<Rightarrow> chain_tree_hash (pre_orchard H) tree
      | OrchardOnward tree \<Rightarrow> chain_tree_hash (orchard_onward H) tree
      | IronwoodOnward tree \<Rightarrow> chain_tree_hash (ironwood_onward H) tree)"

text \<open>\<open>HistoryTree\<close>: no tree before Heartwood.\<close>

type_synonym history_tree = "non_empty_tree option"

definition history_from_parts ::
  "hashes \<Rightarrow> network \<Rightarrow> history_parts \<Rightarrow> (history_tree_error, history_tree) res" where
  "history_from_parts H net parts =
     (case activation_height Heartwood net of
        None \<Rightarrow> Ok None
      | Some heartwood_height \<Rightarrow>
          if hp_height parts < heartwood_height then Ok None
          else mapr Some (non_empty_from_parts H net parts))"

definition history_push ::
  "hashes \<Rightarrow> network \<Rightarrow> history_parts \<Rightarrow> history_tree \<Rightarrow> (history_tree_error, history_tree) res option" where
  "history_push H net parts ht =
     (case activation_height Heartwood net of
        None \<Rightarrow> Some (bindr (assertr (ht = None)) (\<lambda>_. Ok ht))
      | Some heartwood_height \<Rightarrow>
          if hp_height parts < heartwood_height then Some (bindr (assertr (ht = None)) (\<lambda>_. Ok ht))
          else if hp_height parts = heartwood_height then
            Some (mapr Some (non_empty_from_parts H net parts))
          else
            bindo (Some (expect_some ht)) (\<lambda>t. map_option (mapr Some) (non_empty_push H parts t)))"

definition history_hash :: "hashes \<Rightarrow> history_tree \<Rightarrow> ('e, bytes option) res" where
  "history_hash H ht = (case ht of None \<Rightarrow> Ok None | Some t \<Rightarrow> mapr Some (non_empty_hash H t))"

primrec push_all ::
  "hashes \<Rightarrow> network \<Rightarrow> history_parts list \<Rightarrow> history_tree \<Rightarrow> (history_tree_error, history_tree) res option" where
  "push_all H net [] ht = Some (Ok ht)"
| "push_all H net (p # ps) ht = bindo (history_push H net p ht) (push_all H net ps)"

section \<open>Checking a block's commitment\<close>

definition from_commitments :: "hasher \<Rightarrow> bytes \<Rightarrow> bytes \<Rightarrow> ('e, bytes) res" where
  "from_commitments blake2b history_tree_root auth_root =
     (let d = blake2b (map (\<lambda>c. word_of_nat (of_char c)) ''ZcashBlockCommit'')
                (history_tree_root @ auth_root @ replicate 32 0) in
      if length d = 32 then Ok d else Panic)"

text \<open>The block is given by its header, its height and the authorizing data digests of its transactions.\<close>

definition block_commitment_is_valid_for_chain_history ::
  "hashes \<Rightarrow> (bytes \<Rightarrow> bool) \<Rightarrow> network \<Rightarrow> header \<Rightarrow> height \<Rightarrow> bytes list \<Rightarrow> bytes option \<Rightarrow> history_tree \<Rightarrow>
   (commitment_error, unit) res" where
  "block_commitment_is_valid_for_chain_history H sapling_root net hdr h auth_digests precomputed ht =
     bindr (header_commitment sapling_root hdr net h) (\<lambda>c.
     case c of
       PreSaplingReserved _ \<Rightarrow> Ok ()
     | FinalSaplingRoot _ \<Rightarrow> Ok ()
     | ChainHistoryActivationReserved \<Rightarrow> Ok ()
     | ChainHistoryRoot actual \<Rightarrow>
         bindr (history_hash H ht) (\<lambda>root.
         bindr (expect_some root) (\<lambda>expected.
         if actual = expected then Ok () else Err (InvalidChainHistoryRoot actual expected)))
     | ChainHistoryBlockTxAuthCommitment actual \<Rightarrow>
         bindr (history_hash H ht) (\<lambda>root.
         bindr (expect_some (case root of
             Some r \<Rightarrow> Some r
           | None \<Rightarrow> if activation_height Heartwood net = Some h then Some CHAIN_HISTORY_ACTIVATION_RESERVED else None))
           (\<lambda>history_tree_root.
         bindr (case precomputed of Some r \<Rightarrow> Ok r | None \<Rightarrow> expect_ok (auth_data_root (snd H) auth_digests)) (\<lambda>auth_root.
         bindr (from_commitments (snd H) history_tree_root auth_root) (\<lambda>expected.
         if actual = expected then Ok () else Err (InvalidChainHistoryBlockTxAuthCommitment actual expected))))))"

section \<open>The positions of the peaks\<close>

text \<open>The array positions of the peaks of a range of mountains of heights \<open>ks\<close> that starts at \<open>off\<close>, and the
number of its nodes.\<close>

primrec peak_tops :: "nat \<Rightarrow> nat list \<Rightarrow> nat list" where
  "peak_tops off [] = []"
| "peak_tops off (k # ks) = (off + 2 ^ (k + 1) - 2) # peak_tops (off + 2 ^ (k + 1) - 1) ks"

primrec range_size :: "nat list \<Rightarrow> nat" where
  "range_size [] = 0"
| "range_size (k # ks) = 2 ^ (k + 1) - 1 + range_size ks"

lemma range_size_bound:
  assumes "sorted_wrt (>) ks" "\<forall>k \<in> set ks. k < n"
  shows "range_size ks + 2 \<le> 2 ^ (n + 1)"
proof -
  have "range_size ks \<le> 2 * sum_list (map (\<lambda>k. 2 ^ k) ks)" by (induction ks) auto
  with sum_powers_less [OF assms] show ?thesis by simp
qed

lemma power_Suc_ex: obtains c where "(2::nat) ^ a = Suc c"
  by (metis not0_implies_Suc power_not_zero zero_neq_numeral)

lemma drop_down_Ok:
  assumes "sz \<le> off + 2 ^ (Suc a + 1) - 2" "a < 31"
  shows "drop_down sz (Suc a) (off + 2 ^ (Suc a + 1) - 2) = Ok (a, off + 2 ^ (a + 1) - 2)"
proof -
  obtain c where "(2::nat) ^ a = Suc c" by (rule power_Suc_ex)
  then have "(2::nat) ^ Suc a \<le> off + 2 ^ (Suc a + 1) - 2" "off + 2 ^ (Suc a + 1) - 2 - 2 ^ Suc a = off + 2 ^ (a + 1) - 2"
    by simp_all
  then show ?thesis
    using assms by (simp add: drop_down_def u32_bit_def u32_sub_def u_checked_sub_def)
qed

lemma take_peak_Ok:
  assumes "off + 2 ^ (a + 1) - 2 < sz" "a < 31" "off + 2 ^ (a + 2) \<le> 2 ^ 32"
  shows "take_peak sz a (off + 2 ^ (a + 1) - 2) found =
    Ok ((off + 2 ^ (a + 1) - 1) + 2 ^ (a + 1) - 2, found @ [off + 2 ^ (a + 1) - 2])"
proof -
  obtain c where "(2::nat) ^ a = Suc c" by (rule power_Suc_ex)
  then have "off + 2 ^ (a + 1) - 2 + 2 ^ (a + 1) < 2 ^ 32" "1 \<le> off + 2 ^ (a + 1) - 2 + 2 ^ (a + 1)"
    "off + 2 ^ (a + 1) - 2 + 2 ^ (a + 1) - 1 = (off + 2 ^ (a + 1) - 1) + 2 ^ (a + 1) - 2"
    using assms(3) by simp_all
  then show ?thesis
    using assms by (simp add: take_peak_def u32_bit_def u32_add_def u32_checked_def in_u32_def u32_sub_def u_checked_sub_def)
qed

lemma peak_loop_step:
  "drop_down sz alt pos = (Ok (alt', pos') :: (unit, _) res) \<Longrightarrow>
   take_peak sz alt' pos' found = (Ok (pos'', found') :: (unit, _) res) \<Longrightarrow>
   peak_loop sz alt pos found = (if alt' = 0 then Ok found' else peak_loop sz alt' pos'' found')"
  by (simp add: peak_loop.simps [of sz alt])

lemma peak_loop_tops:
  "sorted_wrt (>) ks \<Longrightarrow> \<forall>k \<in> set ks. k < alt \<Longrightarrow> 0 < alt \<Longrightarrow> alt \<le> 31 \<Longrightarrow> off + 2 ^ (alt + 1) \<le> 2 ^ 32 \<Longrightarrow>
    peak_loop (off + range_size ks) alt (off + 2 ^ (alt + 1) - 2) found = Ok (found @ peak_tops off ks)"
proof (induction alt arbitrary: ks off found)
  case (Suc a)
  let ?sz = "off + range_size ks" and ?pos = "off + 2 ^ (a + 1) - 2"
  have "range_size ks + 2 \<le> 2 ^ (Suc a + 1)" using range_size_bound Suc.prems(1,2) by blast
  then have down: "(drop_down ?sz (Suc a) (off + 2 ^ (Suc a + 1) - 2) :: (unit, _) res) = Ok (a, ?pos)"
    using Suc.prems(4) by (intro drop_down_Ok) simp_all
  show ?case
  proof (cases "a \<in> set ks")
    case True
    then obtain ks' where ks: "ks = a # ks'" "\<forall>k \<in> set ks'. k < a"
      using Suc.prems(1,2) by (cases ks) (auto simp: less_Suc_eq)
    obtain c where one: "(2::nat) ^ a = Suc c" by (rule power_Suc_ex)
    then have lt: "?pos < ?sz" using ks by simp
    let ?off = "off + 2 ^ (a + 1) - 1"
    have sz: "?sz = ?off + range_size ks'" using ks one by simp
    have step: "(take_peak ?sz a ?pos found :: (unit, _) res) = Ok (?off + 2 ^ (a + 1) - 2, found @ [?pos])"
      using lt Suc.prems(4,5) by (intro take_peak_Ok) simp_all
    show ?thesis
    proof (cases "a = 0")
      case True
      then show ?thesis using peak_loop_step [OF down step] ks by simp
    next
      case False
      have "peak_loop (?off + range_size ks') a (?off + 2 ^ (a + 1) - 2) (found @ [?pos]) =
          Ok ((found @ [?pos]) @ peak_tops ?off ks')"
        using Suc.prems(1,4,5) False ks by (intro Suc.IH) auto
      then show ?thesis using peak_loop_step [OF down step] False ks(1) unfolding sz by simp
    qed
  next
    case False
    then have less: "\<forall>k \<in> set ks. k < a" using Suc.prems(2) by (metis less_Suc_eq)
    then have "range_size ks + 2 \<le> 2 ^ (a + 1)" using range_size_bound Suc.prems(1) by blast
    then have "\<not> ?pos < ?sz" by linarith
    then have step: "(take_peak ?sz a ?pos found :: (unit, _) res) = Ok (?pos, found)" by (simp only: take_peak_def if_False)
    show ?thesis
    proof (cases "a = 0")
      case True
      then have "ks = []" using less by (cases ks) auto
      then show ?thesis using peak_loop_step [OF down step] True by simp
    next
      case False
      have "peak_loop ?sz a ?pos found = Ok (found @ peak_tops off ks)"
        using Suc.prems(1,4,5) False less by (intro Suc.IH) auto
      then show ?thesis using peak_loop_step [OF down step] False by simp
    qed
  qed
qed simp

lemma peak_positions_tops:
  assumes "sorted_wrt (>) ks" "ks \<noteq> []" "range_size ks + 1 < 2 ^ 32"
  shows "peak_positions (range_size ks) = Ok (peak_tops 0 ks)"
proof -
  obtain k ks' where ks: "ks = k # ks'" "sorted_wrt (>) ks'" "\<forall>j \<in> set ks'. j < k"
    using assms(1,2) by (cases ks) auto
  have "range_size ks' + 2 \<le> 2 ^ (k + 1)" using range_size_bound [OF ks(2,3)] .
  then have lo: "2 ^ (k + 1) \<le> range_size ks + 1" and hi: "range_size ks + 1 < 2 ^ (k + 2)"
    unfolding ks(1) by auto
  have bits: "nat_bits (range_size ks + 1) = k + 2"
    using nat_bits_gt_iff [of "k + 1"] nat_bits_le_iff [of _ "k + 2"] lo hi by (metis Suc_leI Suc_1 add_Suc_right le_antisym plus_1_eq_Suc add.commute)
  have "(2::nat) ^ (k + 1) < 2 ^ 32" using lo assms(3) by linarith
  then have k: "k < 31" using power_less_imp_less_exp [of "2::nat" "k + 1" 32] by simp
  obtain c where "(2::nat) ^ k = Suc c" by (rule power_Suc_ex)
  then have pos: "2 ^ (k + 1) - 2 < range_size ks" using ks by simp
  have two: "(2::nat) \<le> 2 ^ (k + 1)" by simp
  let ?off = "2 ^ (k + 1) - 1 :: nat"
  have "(2::nat) ^ (k + 2) \<le> 2 ^ 32" using k by (intro power_increasing) simp_all
  then have step: "(take_peak (range_size ks) k (2 ^ (k + 1) - 2) [] :: (unit, _) res) =
      Ok (?off + 2 ^ (k + 1) - 2, [2 ^ (k + 1) - 2])"
    using take_peak_Ok [of 0 k "range_size ks" "[]"] pos k by simp
  have down: "(drop_down (range_size ks) k (2 ^ (k + 1) - 2) :: (unit, _) res) = Ok (k, 2 ^ (k + 1) - 2)"
    using pos by (simp add: drop_down_def)
  have loop: "peak_loop (range_size ks) k (2 ^ (k + 1) - 2) [] = Ok (peak_tops 0 ks)"
  proof (cases "k = 0")
    case True
    then have "ks' = []" using ks(3) by (cases ks') auto
    then show ?thesis using peak_loop_step [OF down step] ks(1) True by simp
  next
    case False
    have "peak_loop (?off + range_size ks') k (?off + 2 ^ (k + 1) - 2) [2 ^ (k + 1) - 2] =
        Ok ([2 ^ (k + 1) - 2] @ peak_tops ?off ks')"
      using False k ks(2,3) \<open>(2::nat) ^ (k + 2) \<le> 2 ^ 32\<close> by (intro peak_loop_tops) auto
    then show ?thesis using peak_loop_step [OF down step] False ks(1) by simp
  qed
  show ?thesis
    using bits loop k two assms(3)
    by (simp add: peak_positions_def u32_add_def u32_checked_def in_u32_def u32_sub_def u_checked_sub_def
        leading_zeros_def u32_bit_def)
qed

lemma perfect_size: "perfect k t \<Longrightarrow> mt_size t = 2 ^ (k + 1) - 1"
  using mt_size_leaves [of t] perfect_leaves [of k t] by simp

lemma peak_tops_eq:
  "list_all2 perfect ks ts \<Longrightarrow> map fst (peak_entries p ts) = peak_tops p ks \<and> offs ts = range_size ks"
proof (induction ks ts arbitrary: p rule: list_all2_induct)
  case (Cons k ks t ts)
  obtain c where "(2::nat) ^ k = Suc c" by (rule power_Suc_ex)
  with perfect_size [OF Cons(1)] have "p + mt_size t = p + 2 ^ (k + 1) - 1" "mt_top p t = p + 2 ^ (k + 1) - 2"
    by (simp_all add: mt_top_def)
  with Cons(3) [of "p + mt_size t"] perfect_size [OF Cons(1)] show ?case by simp
qed simp

section \<open>Encoding and decoding entries\<close>

definition enc :: "'d version \<Rightarrow> 'd entry \<Rightarrow> bytes" where
  "enc V e =
     (case entry_write V e of Ok bs \<Rightarrow> bs @ replicate (MAX_ENTRY_SIZE - length bs) 0 | Err _ \<Rightarrow> [] | Panic \<Rightarrow> [])"

definition encodable :: "'d version \<Rightarrow> nat \<Rightarrow> 'd entry \<Rightarrow> bool" where
  "encodable V b e \<longleftrightarrow>
     (\<exists>bs. entry_write V e = Ok bs \<and> length bs \<le> MAX_ENTRY_SIZE) \<and> entry_from_bytes V b (enc V e) = Ok e"

lemma encodable_encode: "encodable V b e \<Longrightarrow> entry_encode V e = Ok (enc V e)"
  by (auto simp: encodable_def entry_encode_def entry_buffer_def enc_def)

abbreviation enc_entries :: "'d version \<Rightarrow> (nat \<times> 'd entry) list \<Rightarrow> (nat \<times> bytes) list" where
  "enc_entries V \<equiv> map (\<lambda>x. (fst x, enc V (snd x)))"

lemma read_entries_enc: "\<forall>x \<in> set es. encodable V b (snd x) \<Longrightarrow> read_entries V b (enc_entries V es) = Ok es"
  by (induction es) (auto simp: read_entries_def encodable_def)

text \<open>The state that is kept between blocks: the size, the encoded peaks, and the view rebuilt from them.\<close>

definition tree_state ::
  "'d chain_version \<Rightarrow> network \<Rightarrow> network_upgrade \<Rightarrow> 'd mt list \<Rightarrow> nat \<Rightarrow> (nat \<times> bytes) list \<Rightarrow> 'd chain_tree \<Rightarrow> bool" where
  "tree_state CV net nu ts sz peaks t \<longleftrightarrow>
     sz = offs ts \<and> peaks = enc_entries (cv_version CV) (peak_entries 0 ts) \<and>
     new_from_cache CV net nu sz peaks [] = Ok t"

lemma length_load_peaks:
  "load_peaks blake2b V ps s = Ok s' \<Longrightarrow> length (t_generated (snd s')) = length (t_generated (snd s)) + length ps"
proof (induction ps arbitrary: s)
  case (Cons p ps)
  then obtain s1 where "load_peaks blake2b V ps s1 = Ok s'"
    "length (t_generated (snd s1)) = length (t_generated (snd s)) + 1"
    by (auto simp: bindr_eq_Ok Let_def push_generated_def insert_stored_def)
  with Cons.IH [of s1] show ?case by simp
qed simp

lemma length_tree_new:
  assumes "tree_new blake2b V len ps [] = Ok t"
  shows "length (t_generated t) \<le> length ps"
  using assms by (cases ps) (auto simp: tree_new_def bindr_eq_Ok insert_stored_def invalid_tree_def dest!: length_load_peaks)

lemma spine_entries:
  "spine_loaded m p t \<Longrightarrow> perfect k t \<Longrightarrow> i \<le> k \<Longrightarrow>
    \<exists>q s. m (mt_top p t - i) = Some (mt_entry q s) \<and> q + mt_size s = mt_top p t - i + 1 \<and>
      (\<exists>ys. mt_leaves t = ys @ mt_leaves s) \<and> (mt_ok blake2b V t \<longrightarrow> mt_ok blake2b V s)"
proof (induction t arbitrary: p k i)
  case (MLeaf d)
  then have "k = 0" by (cases k) auto
  then show ?case using MLeaf
    by (intro exI [of _ p] exI [of _ "MLeaf d"]) (auto simp: top_loaded_def mt_top_def)
next
  case (MNode d l r)
  then obtain j where j: "k = Suc j" "perfect j r" by (cases k) auto
  show ?case
  proof (cases i)
    case 0
    have "p + mt_size (MNode d l r) = mt_top p (MNode d l r) + 1" by (simp add: mt_top_def)
    then show ?thesis
      using MNode.prems(1) 0 by (intro exI [of _ p] exI [of _ "MNode d l r"]) (auto simp: top_loaded_def)
  next
    case (Suc i')
    have top: "mt_top p (MNode d l r) - i = mt_top (p + mt_size l) r - i'"
      using Suc mt_size_pos [of r] by (simp add: mt_top_def)
    from MNode.IH(2) [of "p + mt_size l" j i'] MNode.prems Suc j
    obtain q s where s: "m (mt_top (p + mt_size l) r - i') = Some (mt_entry q s)"
      "q + mt_size s = mt_top (p + mt_size l) r - i' + 1" "\<exists>ys. mt_leaves r = ys @ mt_leaves s"
      "mt_ok blake2b V r \<longrightarrow> mt_ok blake2b V s"
      by auto
    then obtain ys where "mt_leaves r = ys @ mt_leaves s" by blast
    then have "mt_leaves (MNode d l r) = (mt_leaves l @ ys) @ mt_leaves s" by simp
    then show ?thesis using s top by (intro exI [of _ q] exI [of _ s]) auto
  qed
qed

context history_version
begin

lemma mt_entry_encodable:
  assumes "digest_32 blake2b" "mt_ok blake2b V t" "good b h (mt_leaves t)" "p + mt_size t \<le> 2 ^ 32"
  shows "encodable V b (mt_entry p t)"
proof -
  let ?e = "mt_entry p t"
  have s: "summary b h (mt_leaves t) (mt_data t)" using mt_summary assms(1-3) .
  then have v: "valid (e_data ?e)" "ver_branch_id V (e_data ?e) = b" by (simp_all add: summary_def)
  obtain bs where bs: "entry_write V ?e = Ok bs"
    by (cases t) (auto simp: entry_write_def mt_entry_def entry_new_leaf_def entry_new_def)
  have u32: "in_u32 l \<and> in_u32 r" if "e_kind ?e = NodeEntry (Stored l) (Stored r)" for l r
    using that assms(4) mt_top_less [of p] mt_top_less
    by (cases t) (auto simp: mt_entry_def entry_new_leaf_def entry_new_def in_u32_def mt_top_def)
  note r = reads_entry [OF v(1) bs u32]
  then have "entry_from_bytes V b (enc V ?e) = Ok ?e"
    using v(2) bs by (simp add: entry_from_bytes_def enc_def reads_def)
  then show ?thesis using bs r(2) by (auto simp: encodable_def)
qed

lemma peaks_encodable:
  assumes "digest_32 blake2b"
  shows "list_all (mt_ok blake2b V) ts \<Longrightarrow> good b h (all_leaves ts) \<Longrightarrow> p + offs ts \<le> 2 ^ 32 \<Longrightarrow>
    \<forall>x \<in> set (peak_entries p ts). encodable V b (snd x)"
proof (induction ts arbitrary: p h)
  case (Cons t ts)
  have g: "good b h (mt_leaves t)" "good b (h + length (mt_leaves t)) (all_leaves ts) \<or> ts = []"
    using good_append [of b h "mt_leaves t" "all_leaves ts"] Cons.prems(2) by (auto simp: concat_eq_Nil_conv)
  have "encodable V b (mt_entry p t)"
    using Cons.prems g(1) by (intro mt_entry_encodable [OF assms, where h = h]) simp_all
  moreover have "\<forall>x \<in> set (peak_entries (p + mt_size t) ts). encodable V b (snd x)"
    using Cons.IH [of "h + length (mt_leaves t)" "p + mt_size t"] Cons.prems g(2) by (cases ts) auto
  ultimately show ?case by simp
qed simp

end

context history_version
begin

text \<open>Decoding the peaks of a range gives a view of its leaves.\<close>

lemma new_state:
  assumes CV: "cv_version CV = V" "digest_32 (cv_blake2b CV)" and b: "branch_id nu = Some b"
    and m: "mountains (cv_blake2b CV) V ks ts" "ts \<noteq> []" and g: "good b h (all_leaves ts)"
    and n: "length (all_leaves ts) < 2 ^ 31"
  obtains inner where
    "new_from_cache CV net nu (offs ts) (enc_entries V (peak_entries 0 ts)) [] =
       Ok \<lparr>ct_network = net, ct_network_upgrade = nu, ct_inner = inner\<rparr>"
    "represents (cv_blake2b CV) V inner (all_leaves ts)" "tree_len inner = offs ts"
    "length (t_generated inner) \<le> length (all_leaves ts)"
proof -
  have ok: "list_all (mt_ok (cv_blake2b CV) V) ts" using m(1) by (simp add: mountains_def)
  have "0 + offs ts \<le> 2 ^ 32" using offs_le [of ts] n by simp
  then have "read_entries V b (enc_entries V (peak_entries 0 ts)) = Ok (peak_entries 0 ts)"
    by (intro read_entries_enc peaks_encodable [OF CV(2) ok g])
  moreover obtain inner where inner:
    "tree_new (cv_blake2b CV) V (offs ts) (peak_entries 0 ts) [] = Ok inner"
    "represents (cv_blake2b CV) V inner (all_leaves ts)" "tree_len inner = offs ts"
    using new_represents [OF CV(2) m g, of "[]"] n by auto
  moreover have "length (peak_entries 0 ts) = length ts" for ts :: "'d mt list"
  proof -
    have "length (peak_entries p ts) = length ts" for p by (induction ts arbitrary: p) simp_all
    then show ?thesis .
  qed
  then have "length (t_generated inner) \<le> length (all_leaves ts)"
    using length_tree_new [OF inner(1)] length_le_leaves [of ts] by (simp add: order_trans)
  ultimately show ?thesis
    using that b CV(1) by (simp add: new_from_cache_def read_entries_def)
qed

text \<open>Appending a leaf: the new entries are those of the right spine of the last mountain.\<close>

lemma append_state:
  assumes blake: "digest_32 blake2b" and m: "mountains blake2b V ks ts"
    and rep: "represents blake2b V t (all_leaves ts)" and g: "good b h (all_leaves ts @ [d])"
    and n: "length (all_leaves ts) + 1 < 2 ^ 31" "length (t_generated t) \<le> length (all_leaves ts)"
  obtains t' zs z k js es where
    "append_leaf blake2b V d t = Some (Ok (map Stored [offs ts ..< offs (zs @ [z])], t'))"
    "mountains blake2b V (js @ [k]) (zs @ [z])" "perfect k z" "all_leaves (zs @ [z]) = all_leaves ts @ [d]"
    "ts = zs @ left_siblings z"
    "encode_appended V t' (map Stored [offs ts ..< offs (zs @ [z])]) = (Ok (map (enc V) es) :: bytes list history_res)"
    "length es = offs (zs @ [z]) - offs ts" "es \<noteq> []" "last es = mt_entry (offs zs) z"
proof -
  have len: "t_stored_count t = offs ts"
  proof -
    obtain us js where us: "mountains blake2b V js us" "all_leaves us = all_leaves ts" "t_stored_count t = offs us"
      using rep by (auto simp: represents_def view_of_def)
    then show ?thesis using mountains_determined [OF us(1) m us(2)] by simp
  qed
  have "length (t_generated t) + length (all_leaves ts) + 1 \<le> 2 ^ 32" using n by simp
  from append_represents [OF blake rep g n(1) this] obtain t' where t':
    "append_leaf blake2b V d t = Some (Ok (map Stored [offs ts ..< t_stored_count t'], t'))"
    "right_edge_loaded blake2b V t' (all_leaves ts @ [d])"
    unfolding len by blast
  then obtain ts' js' where ts': "view_of blake2b V t' ts'" "all_leaves ts' = all_leaves ts @ [d]"
    "spine_loaded (t_stored t') (offs (butlast ts')) (last ts')" "mountains blake2b V js' ts'"
    by (auto simp: right_edge_loaded_def view_of_def)
  have "ts' \<noteq> []" using ts'(2) by auto
  then obtain zs z where zs: "ts' = zs @ [z]" by (metis append_butlast_last_id)
  moreover have "js' \<noteq> []" using mountains_ne [OF ts'(4)] \<open>ts' \<noteq> []\<close> by simp
  then obtain js k where js: "js' = js @ [k]" by (metis append_butlast_last_id)
  ultimately have mz: "mountains blake2b V (js @ [k]) (zs @ [z])" "perfect k z"
    using ts'(4) by (simp_all add: mountains_def list_all2_snoc)
  note sib = left_siblings_perfect [OF mz(2)]
  have "all_leaves (zs @ left_siblings z) @ [last_leaf z] = all_leaves ts @ [d]"
    using ts'(2) sib(3) zs by simp
  then have eq: "ts = zs @ left_siblings z"
    using mountains_determined [OF m mountains_truncated [OF mz]] by simp
  have count: "t_stored_count t' = offs (zs @ [z])" using ts'(1) zs by (simp add: view_of_def)
  have diff: "offs (zs @ [z]) = offs ts + k + 1" "offs ts + k = mt_top (offs zs) z"
    using sib(2) by (simp_all add: eq mt_top_def)
  have spine: "spine_loaded (t_stored t') (offs zs) z" using ts'(3) zs by simp
  have ok: "mt_ok blake2b V z" using mz(1) by (simp add: mountains_def)
  have gz: "good b h (all_leaves zs @ mt_leaves z)" using g ts'(2) zs by simp
  have size: "offs (zs @ [z]) \<le> 2 ^ 32"
    using offs_le [of "zs @ [z]"] arg_cong [OF ts'(2), of length] zs n(1) by simp
  have entries: "\<exists>e. t_stored t' i = Some e \<and> encodable V b e" if i: "offs ts \<le> i" "i < offs (zs @ [z])" for i
  proof -
    let ?j = "mt_top (offs zs) z - i"
    have j: "?j \<le> k" "mt_top (offs zs) z - ?j = i" using i diff by auto
    from spine_entries [OF spine mz(2) j(1), of blake2b V] obtain q s ys where s:
      "t_stored t' i = Some (mt_entry q s)" "q + mt_size s = i + 1" "mt_leaves z = ys @ mt_leaves s" "mt_ok blake2b V s"
      using ok j(2) by auto
    have "good b (h + length (all_leaves zs @ ys)) (mt_leaves s)"
      using good_append(2) [of b h "all_leaves zs @ ys" "mt_leaves s"] gz s(3) by simp
    then have "encodable V b (mt_entry q s)"
      using s(2,4) i(2) size by (intro mt_entry_encodable [OF blake]) auto
    then show ?thesis using s(1) by blast
  qed
  define es where "es = map (\<lambda>i. the (t_stored t' i)) [offs ts ..< offs (zs @ [z])]"
  have "encode_appended V t' (map Stored [offs ts ..< offs (zs @ [z])]) =
      (Ok (map (\<lambda>l. case l of Stored i \<Rightarrow> enc V (the (t_stored t' i)) | Generated i \<Rightarrow> [])
        (map Stored [offs ts ..< offs (zs @ [z])])) :: bytes list history_res)"
    unfolding encode_appended_def
  proof (rule collect_res_map)
    fix l assume "l \<in> set (map Stored [offs ts ..< offs (zs @ [z])])"
    then obtain i where i: "l = Stored i" "offs ts \<le> i" "i < offs (zs @ [z])" by auto
    with entries obtain e where "t_stored t' i = Some e" "encodable V b e" by blast
    then show "bindr (expect_ok (resolve_link t' l)) (entry_encode V) =
        Ok (case l of Stored i \<Rightarrow> enc V (the (t_stored t' i)) | Generated i \<Rightarrow> [])"
      using i(1) by (simp add: resolve_link_def encodable_encode)
  qed
  then have "encode_appended V t' (map Stored [offs ts ..< offs (zs @ [z])]) =
      (Ok (map (enc V) es) :: bytes list history_res)"
    by (simp add: es_def comp_def)
  moreover have "last es = mt_entry (offs zs) z"
  proof -
    have "es = map (\<lambda>i. the (t_stored t' i)) [offs ts ..< offs ts + k] @ [the (t_stored t' (offs ts + k))]"
      unfolding es_def diff(1) by simp
    moreover have "t_stored t' (offs ts + k) = Some (mt_entry (offs zs) z)"
      using spine_top [OF spine] diff(2) by (simp add: top_loaded_def)
    ultimately show ?thesis by simp
  qed
  moreover have "es \<noteq> []" "length es = offs (zs @ [z]) - offs ts" using diff(1) by (simp_all add: es_def)
  moreover have "append_leaf blake2b V d t = Some (Ok (map Stored [offs ts ..< offs (zs @ [z])], t'))"
    using t'(1) count by simp
  moreover have "all_leaves (zs @ [z]) = all_leaves ts @ [d]" using ts'(2) zs by simp
  ultimately show ?thesis using that mz eq by blast
qed

end

text \<open>Among the old peaks and the new entries, those at the positions of the new peaks are the new peaks.\<close>

lemma peak_entries_append: "peak_entries p (ts @ us) = peak_entries p ts @ peak_entries (p + offs ts) us"
  by (induction ts arbitrary: p) (simp_all add: add.assoc)

lemma peak_entries_range: "x \<in> set (peak_entries p ts) \<Longrightarrow> p \<le> fst x \<and> fst x < p + offs ts"
proof (induction ts arbitrary: p)
  case (Cons t ts)
  have "p \<le> mt_top p t" "mt_top p t < p + (mt_size t + offs ts)" using mt_size_pos [of t] unfolding mt_top_def by linarith+
  with Cons.IH [of "p + mt_size t"] Cons.prems show ?case by auto
qed simp

lemma filter_peaks:
  assumes "list_all2 perfect (js @ [k]) (zs @ [z])" "es \<noteq> []"
    and n: "offs (zs @ left_siblings z) + length es = offs (zs @ [z])" and e: "last es = mt_entry (offs zs) z"
  shows "filter (\<lambda>x. fst x \<in> set (peak_tops 0 (js @ [k])))
      (peak_entries 0 (zs @ left_siblings z) @ zip [offs (zs @ left_siblings z) ..< offs (zs @ [z])] es) =
    peak_entries 0 (zs @ [z])"
proof -
  let ?top = "mt_top (offs zs) z" and ?n = "offs (zs @ left_siblings z)" and ?m = "length es - 1"
  let ?P = "\<lambda>x. fst x \<in> set (peak_tops 0 (js @ [k]))"
  have P: "set (peak_tops 0 (js @ [k])) = insert ?top (fst ` set (peak_entries 0 zs))"
    unfolding conjunct1 [OF peak_tops_eq [OF assms(1), of 0], symmetric] by (auto simp: peak_entries_append)
  have top: "?top = ?n + ?m" "?n \<le> ?top" "offs zs \<le> ?n"
    using n assms(2) mt_size_pos [of z] by (cases es; simp add: mt_top_def)+
  have low: "fst x < offs zs" if "x \<in> set (peak_entries 0 zs)" for x using peak_entries_range [OF that] by simp
  have A: "filter ?P (peak_entries 0 zs) = peak_entries 0 zs"
    unfolding P by (rule filter_True) auto
  have B: "filter ?P (peak_entries (offs zs) (left_siblings z)) = []"
    unfolding P filter_empty_conv
  proof (intro ballI)
    fix x assume x: "x \<in> set (peak_entries (offs zs) (left_siblings z))"
    then have "offs zs \<le> fst x" "fst x < ?n" using peak_entries_range [OF x] by simp_all
    then show "fst x \<notin> insert ?top (fst ` set (peak_entries 0 zs))" using low top(2) by fastforce
  qed
  have es: "es = butlast es @ [mt_entry (offs zs) z]" using assms(2) e by (metis append_butlast_last_id)
  have "[?n ..< offs (zs @ [z])] = [?n ..< ?n + ?m] @ [?n + ?m]"
    unfolding n [symmetric] using assms(2) by (cases es) simp_all
  then have "zip [?n ..< offs (zs @ [z])] es = zip [?n ..< ?n + ?m] (butlast es) @ [(?top, mt_entry (offs zs) z)]"
    using es top(1) by (metis (no_types, lifting) diff_add_inverse length_butlast length_upt zip_Cons_Cons zip_Nil zip_append)
  moreover have "filter ?P (zip [?n ..< ?n + ?m] (butlast es)) = []"
    unfolding P filter_empty_conv
  proof (intro ballI)
    fix x assume "x \<in> set (zip [?n ..< ?n + ?m] (butlast es))"
    then have "?n \<le> fst x" "fst x < ?top" using top(1) by (auto dest!: set_zip_leftD [of "fst x" "snd x", simplified])
    then show "fst x \<notin> insert ?top (fst ` set (peak_entries 0 zs))" using low top(3) by fastforce
  qed
  moreover have "?P (?top, mt_entry (offs zs) z)" unfolding P by simp
  ultimately show ?thesis using A B by (simp add: peak_entries_append)
qed

section \<open>Blocks that a tree can cover\<close>

text \<open>The quantities of a block that a tree adds up.\<close>

definition parts_work :: "history_parts \<Rightarrow> nat" where
  "parts_work p =
     (case to_work (hd_difficulty_threshold (hp_header p)) :: (unit, _) res of
        Ok (Some w) \<Rightarrow> unat w | _ \<Rightarrow> 0)"

definition parts_total :: "nat \<Rightarrow> history_parts \<Rightarrow> nat" where
  "parts_total i p =
     (if i = 0 then parts_work p else if i = 1 then hp_sapling_tx p
      else if i = 2 then hp_orchard_tx p else if i = 3 then hp_ironwood_tx p else 0)"

text \<open>A block whose fields have their widths, with a version and a difficulty that are allowed.\<close>

definition valid_parts :: "history_parts \<Rightarrow> bool" where
  "valid_parts p \<longleftrightarrow>
     valid_header (hp_header p) \<and> 4 \<le> hd_version (hp_header p) \<and> hd_version (hp_header p) < 2 ^ 31 \<and>
     (\<exists>w. to_work (hd_difficulty_threshold (hp_header p)) = (Ok (Some w) :: (unit, _) res)) \<and>
     hp_height p \<le> MAX_HEIGHT \<and>
     length (hp_sapling_root p) = 32 \<and> length (hp_orchard_root p) = 32 \<and> length (hp_ironwood_root p) = 32 \<and>
     in_u64 (hp_sapling_tx p) \<and> in_u64 (hp_orchard_tx p) \<and> in_u64 (hp_ironwood_tx p)"

text \<open>Consecutive blocks from height \<open>h\<close> whose totals fit.\<close>

definition chain_parts :: "height \<Rightarrow> history_parts list \<Rightarrow> bool" where
  "chain_parts h ps \<longleftrightarrow>
     0 < h \<and> list_all valid_parts ps \<and> (\<forall>i < length ps. hp_height (ps ! i) = h + i) \<and>
     (\<forall>i. sum_list (map (parts_total i) ps) < total_cap i)"

lemma chain_parts_append:
  assumes "chain_parts h (ps @ qs)"
  shows "chain_parts h ps" "chain_parts (h + length ps) qs"
proof -
  have 1: "hp_height (ps ! i) = h + i" if "i < length ps" for i
    using assms that by (auto simp: chain_parts_def nth_append dest: spec [of _ i])
  have 2: "hp_height (qs ! i) = h + length ps + i" if "i < length qs" for i
    using assms that by (auto simp: chain_parts_def nth_append dest: spec [of _ "length ps + i"])
  have "sum_list (map (parts_total i) ps) + sum_list (map (parts_total i) qs) < total_cap i" for i
    using assms by (simp add: chain_parts_def)
  then have "sum_list (map (parts_total i) ps) < total_cap i" "sum_list (map (parts_total i) qs) < total_cap i" for i
    using le_less_trans [OF le_add1] le_less_trans [OF le_add2] by blast+
  then show "chain_parts h ps" "chain_parts (h + length ps) qs"
    using assms 1 2 by (auto simp: chain_parts_def)
qed

lemma chain_parts_length: "chain_parts h ps \<Longrightarrow> length ps < 2 ^ 31"
proof (cases "ps = []")
  case False
  assume c: "chain_parts h ps"
  then have "hp_height (ps ! (length ps - 1)) = h + (length ps - 1)" "valid_parts (ps ! (length ps - 1))" "0 < h"
    using False by (auto simp: chain_parts_def list_all_length)
  then show ?thesis using False by (cases ps) (auto simp: valid_parts_def MAX_HEIGHT_def)
qed simp

text \<open>The blocks that the state of a versioned tree covers.\<close>

definition covers ::
  "'d chain_version \<Rightarrow> network \<Rightarrow> network_upgrade \<Rightarrow> history_parts list \<Rightarrow> nat \<Rightarrow> (nat \<times> bytes) list \<Rightarrow> 'd chain_tree \<Rightarrow> bool" where
  "covers CV net nu ps sz peaks t \<longleftrightarrow>
     (\<exists>xs ks ts. collect_res (cv_leaf CV net) ps = Ok xs \<and> all_leaves ts = xs \<and> ts \<noteq> [] \<and>
        mountains (cv_blake2b CV) (cv_version CV) ks ts \<and> tree_state CV net nu ts sz peaks t)"

text \<open>What a versioned tree relies on of the leaves of its version.\<close>

locale history_leaves = history_version V valid total
  for V :: "'d version" and valid :: "'d \<Rightarrow> bool" and total :: "nat \<Rightarrow> 'd \<Rightarrow> nat" +
  fixes leaf :: "digest \<Rightarrow> network \<Rightarrow> history_parts \<Rightarrow> 'd history_res"
  assumes leaf_law:
    "sha256_32 sha256 \<Longrightarrow> valid_network net \<Longrightarrow> valid_parts p \<Longrightarrow> \<not> pre_heartwood (upgrade_at net (hp_height p)) \<Longrightarrow>
     \<exists>d. leaf sha256 net p = Ok d \<and> valid d \<and>
       branch_id (upgrade_at net (hp_height p)) = Some (ver_branch_id V d) \<and>
       ver_start_height V d = hp_height p \<and> ver_end_height V d = hp_height p \<and>
       (\<forall>i. total i d \<le> parts_total i p)"
begin

abbreviation CV :: "digest \<Rightarrow> hasher \<Rightarrow> 'd chain_version" where
  "CV sha256 blake2b \<equiv> \<lparr>cv_version = V, cv_leaf = leaf sha256, cv_blake2b = blake2b\<rparr>"

lemma leaves_good:
  assumes "sha256_32 sha256" "valid_network net" "\<not> pre_heartwood nu" "branch_id nu = Some b"
  shows "chain_parts h ps \<Longrightarrow> \<forall>p \<in> set ps. upgrade_at net (hp_height p) = nu \<Longrightarrow>
    \<exists>xs. collect_res (leaf sha256 net) ps = Ok xs \<and> good b h xs \<and> length xs = length ps"
proof -
  assume c: "chain_parts h ps" and nu: "\<forall>p \<in> set ps. upgrade_at net (hp_height p) = nu"
  have "\<exists>d. leaf sha256 net p = Ok d \<and> valid d \<and> ver_branch_id V d = b \<and>
       ver_start_height V d = hp_height p \<and> ver_end_height V d = hp_height p \<and> (\<forall>i. total i d \<le> parts_total i p)"
    if "p \<in> set ps" for p
    using leaf_law [OF assms(1,2), of p] that c nu assms(3,4) by (auto simp: chain_parts_def list_all_iff)
  then obtain f where f: "\<And>p. p \<in> set ps \<Longrightarrow> leaf sha256 net p = Ok (f p) \<and> valid (f p) \<and> ver_branch_id V (f p) = b \<and>
       ver_start_height V (f p) = hp_height p \<and> ver_end_height V (f p) = hp_height p \<and>
       (\<forall>i. total i (f p) \<le> parts_total i p)"
    by metis
  have "sum_list (map (total i) (map f ps)) \<le> sum_list (map (parts_total i) ps)" for i
    using f by (induction ps) (auto intro!: add_mono)
  then have "sum_list (map (total i) (map f ps)) < total_cap i" for i
    using c le_less_trans by (fastforce simp: chain_parts_def)
  then have "good b h (map f ps)"
    using f c by (auto simp: good_def chain_parts_def list_all_iff)
  moreover have "collect_res (leaf sha256 net) ps = Ok (map f ps)" using f by (intro collect_res_map) simp
  ultimately show ?thesis by (intro exI [of _ "map f ps"]) simp
qed

end

lemma current_at: "valid_network net \<Longrightarrow> current net h = Ok (upgrade_at net h)"
  by (rule valid_net.current_eq [OF valid_net.intro])

lemma collect_res_snoc: "collect_res f (xs @ [x]) = bindr (collect_res f xs) (\<lambda>ys. bindr (f x) (\<lambda>y. Ok (ys @ [y])))"
proof (induction xs)
  case (Cons a xs)
  show ?case
    by (cases "f a"; cases "collect_res f xs"; cases "f x") (simp_all add: Cons)
qed (cases "f x"; simp)

context history_leaves
begin

lemma covers_new:
  assumes sha: "sha256_32 sha256" and blake: "digest_32 blake2b" and net: "valid_network net"
    and nu: "\<not> pre_heartwood nu" "branch_id nu = Some b"
    and p: "chain_parts h [p]" "upgrade_at net (hp_height p) = nu"
  shows "\<exists>t entry. new_from_parts (CV sha256 blake2b) net p = Ok (t, entry) \<and>
    covers (CV sha256 blake2b) net nu [p] 1 [(0, entry)] t"
proof -
  obtain d where d: "leaf sha256 net p = Ok d" "good b h [d]"
    using leaves_good [OF sha net nu p(1)] p(2) by (auto simp: bindr_eq_Ok)
  let ?ts = "[MLeaf d]" and ?e = "entry_new_leaf d"
  have m: "mountains blake2b V [0] ?ts" by (simp add: mountains_def)
  have e: "mt_entry 0 (MLeaf d) = ?e" by (simp add: mt_entry_def)
  have "encodable V b (mt_entry 0 (MLeaf d))" using d(2) by (intro mt_entry_encodable [OF blake]) simp_all
  then have enc: "new_leaf_parts (CV sha256 blake2b) net p = (Ok (enc V ?e) :: (io_error, _) res)"
    using d(1) e by (simp add: new_leaf_parts_def entry_from_node_data_def encodable_encode [of V b ?e])
  obtain inner where inner:
    "new_from_cache (CV sha256 blake2b) net nu (offs ?ts) (enc_entries V (peak_entries 0 ?ts)) [] =
       Ok \<lparr>ct_network = net, ct_network_upgrade = nu, ct_inner = inner\<rparr>"
    using new_state [of "CV sha256 blake2b" nu b "[0]" ?ts h net] blake nu(2) m d(2) by auto
  let ?t = "\<lparr>ct_network = net, ct_network_upgrade = nu, ct_inner = inner\<rparr>"
  have peaks: "enc_entries V (peak_entries 0 ?ts) = [(0, enc V ?e)]" by (simp add: mt_top_def e)
  have "new_from_parts (CV sha256 blake2b) net p = Ok (?t, enc V ?e)"
    using enc inner nu(2) peaks p(2) by (simp add: new_from_parts_def current_at [OF net])
  moreover have "covers (CV sha256 blake2b) net nu [p] 1 [(0, enc V ?e)] ?t"
    unfolding covers_def tree_state_def
    by (intro exI [of _ "[d]"] exI [of _ "[0]"] exI [of _ ?ts]) (use m d(1) inner peaks in simp_all)
  ultimately show ?thesis by blast
qed

text \<open>Appending a block to the tree, pruning and rebuilding.\<close>

lemma covers_push:
  assumes sha: "sha256_32 sha256" and blake: "digest_32 blake2b" and net: "valid_network net"
    and nu: "\<not> pre_heartwood nu" "branch_id nu = Some b"
    and c: "covers (CV sha256 blake2b) net nu ps sz peaks t"
    and p: "chain_parts h (ps @ [p])" "\<forall>q \<in> set (ps @ [p]). upgrade_at net (hp_height q) = nu"
  shows "\<exists>entries t1 pos t2.
    append_leaf_parts (CV sha256 blake2b) p t = Some (Ok (entries, t1)) \<and> sz + length entries < 2 ^ 32 \<and>
    (\<forall>x \<in> set peaks. fst x < sz) \<and> peak_positions (sz + length entries) = Ok pos \<and>
    (let peaks' = filter (\<lambda>(k, _). k \<in> set pos) (peaks @ zip [sz ..< sz + length entries] entries) in
     new_from_cache (CV sha256 blake2b) net nu (sz + length entries) peaks' [] = Ok t2 \<and>
     covers (CV sha256 blake2b) net nu (ps @ [p]) (sz + length entries) peaks' t2)"
proof -
  obtain xs ks ts where ts: "collect_res (leaf sha256 net) ps = Ok xs" "all_leaves ts = xs" "ts \<noteq> []"
    "mountains blake2b V ks ts" "sz = offs ts" "peaks = enc_entries V (peak_entries 0 ts)"
    "new_from_cache (CV sha256 blake2b) net nu sz peaks [] = Ok t"
    using c by (auto simp: covers_def tree_state_def)
  obtain ys where ys: "collect_res (leaf sha256 net) (ps @ [p]) = Ok ys" "good b h ys" "length ys = length (ps @ [p])"
    using leaves_good [OF sha net nu p] by blast
  then obtain d where d: "leaf sha256 net p = Ok d" "ys = xs @ [d]"
    using ts(1) by (auto simp: collect_res_snoc bindr_eq_Ok)
  have g: "good b h (all_leaves ts @ [d])" "good b h (all_leaves ts)"
    using ys(2) d(2) ts(2) good_append(1) by auto
  have n: "length (all_leaves ts) + 1 < 2 ^ 31"
    using chain_parts_length [OF p(1)] ys(3) d(2) ts(2) by simp
  obtain inner where inner: "t = \<lparr>ct_network = net, ct_network_upgrade = nu, ct_inner = inner\<rparr>"
    "represents blake2b V inner (all_leaves ts)" "length (t_generated inner) \<le> length (all_leaves ts)"
    using new_state [of "CV sha256 blake2b" nu b ks ts h net] blake nu(2) ts g(2) n by auto
  obtain t' zs z k js es where app:
    "append_leaf blake2b V d inner = Some (Ok (map Stored [offs ts ..< offs (zs @ [z])], t'))"
    "mountains blake2b V (js @ [k]) (zs @ [z])" "perfect k z" "all_leaves (zs @ [z]) = all_leaves ts @ [d]"
    "ts = zs @ left_siblings z"
    "encode_appended V t' (map Stored [offs ts ..< offs (zs @ [z])]) = (Ok (map (enc V) es) :: bytes list history_res)"
    "length es = offs (zs @ [z]) - offs ts" "es \<noteq> []" "last es = mt_entry (offs zs) z"
    by (rule append_state [OF blake ts(4) inner(2) g(1) n inner(3)])
  let ?n = "offs (zs @ [z])" and ?entries = "map (enc V) es"
  have len: "sz + length ?entries = ?n" using app(7,8) ts(5) by (cases es) auto
  have lp: "list_all2 perfect (js @ [k]) (zs @ [z])" "sorted_wrt (>) (js @ [k])"
    using app(2) by (auto simp: mountains_def)
  have size: "?n + 1 < 2 ^ 32"
  proof -
    have "length (all_leaves (zs @ [z])) = length (all_leaves ts) + 1" unfolding app(4) by simp
    then have "?n \<le> 2 * (length (all_leaves ts) + 1)" using offs_le [of "zs @ [z]"] by simp
    then show ?thesis using n by simp
  qed
  have pos: "peak_positions ?n = Ok (peak_tops 0 (js @ [k]))"
    using peak_positions_tops [OF lp(2)] peak_tops_eq [OF lp(1), of 0] size by simp
  let ?peaks = "filter (\<lambda>(k', _). k' \<in> set (peak_tops 0 (js @ [k]))) (peaks @ zip [sz ..< ?n] ?entries)"
  have "peaks @ zip [sz ..< ?n] ?entries = enc_entries V (peak_entries 0 ts @ zip [sz ..< ?n] es)"
    using ts(6) by (simp add: zip_map2 case_prod_beta)
  then have "?peaks = enc_entries V (filter (\<lambda>x. fst x \<in> set (peak_tops 0 (js @ [k]))) (peak_entries 0 ts @ zip [sz ..< ?n] es))"
    by (simp add: filter_map comp_def case_prod_beta)
  also have "\<dots> = enc_entries V (peak_entries 0 (zs @ [z]))"
    using filter_peaks [OF lp(1) app(8) _ app(9)] app(5) ts(5) len by simp
  finally have peaks: "?peaks = enc_entries V (peak_entries 0 (zs @ [z]))" .
  have gz: "good b h (all_leaves (zs @ [z]))" "length (all_leaves (zs @ [z])) < 2 ^ 31"
    unfolding app(4) using g(1) n by simp_all
  obtain inner2 where inner2:
    "new_from_cache (CV sha256 blake2b) net nu ?n (enc_entries V (peak_entries 0 (zs @ [z]))) [] =
       Ok \<lparr>ct_network = net, ct_network_upgrade = nu, ct_inner = inner2\<rparr>"
    by (rule new_state [of "CV sha256 blake2b" nu b "js @ [k]" "zs @ [z]" h net]) (use blake nu(2) app(2) gz in simp_all)
  have "append_leaf_parts (CV sha256 blake2b) p t = Some (Ok (?entries, t\<lparr>ct_inner := t'\<rparr>))"
    using d(1) app(1,6) inner(1) p(2) by (simp add: append_leaf_parts_def assertr_def current_at [OF net])
  moreover have "covers (CV sha256 blake2b) net nu (ps @ [p]) ?n ?peaks
      \<lparr>ct_network = net, ct_network_upgrade = nu, ct_inner = inner2\<rparr>"
    unfolding covers_def tree_state_def peaks
    by (intro exI [of _ ys] exI [of _ "js @ [k]"] exI [of _ "zs @ [z]"])
      (use ys(1) d(2) ts(2) app(2,4) inner2 in simp_all)
  moreover have "\<forall>x \<in> set peaks. fst x < sz" using ts(5,6) peak_entries_range [of _ 0 ts] by fastforce
  moreover have "sz + length ?entries < 2 ^ 32" "peak_positions (sz + length ?entries) = Ok (peak_tops 0 (js @ [k]))"
    unfolding len using size pos by simp_all
  moreover note inner2 [folded peaks]
  ultimately show ?thesis
    unfolding Let_def by - (rule exI [of _ ?entries], rule exI, rule exI [of _ "peak_tops 0 (js @ [k])"], unfold len, blast)
qed

end

section \<open>The leaves of the three versions\<close>

lemma branch_id_heartwood: "\<not> pre_heartwood nu \<Longrightarrow> \<exists>b. branch_id nu = Some b"
  by (cases nu) (simp_all add: pre_heartwood_def branch_id_def CONSENSUS_BRANCH_IDS_def)

lemma to_work_any:
  assumes "to_work c = (Ok x :: (unit, _) res)"
  shows "to_work c = Ok x"
  using assms by (simp add: to_work_eq)

lemma v1_leaf:
  assumes "sha256_32 sha256" "valid_network net" "valid_parts p" "\<not> pre_heartwood (upgrade_at net (hp_height p))"
  shows "\<exists>d. v1_parts_to_history_node sha256 net p = Ok d \<and> valid_node_data d \<and>
    branch_id (upgrade_at net (hp_height p)) = Some (nd_consensus_branch_id d) \<and>
    nd_start_height d = hp_height p \<and> nd_end_height d = hp_height p \<and> (\<forall>i. v1_total i d \<le> parts_total i p)"
proof -
  let ?h = "hp_header p"
  obtain b where b: "branch_id (upgrade_at net (hp_height p)) = Some b" using branch_id_heartwood [OF assms(4)] by blast
  obtain w where w: "to_work (hd_difficulty_threshold ?h) = (Ok (Some w) :: (unit, _) res)"
    using assms(3) by (auto simp: valid_parts_def)
  have v: "valid_header ?h" "validate_header_version (hd_version ?h) = Ok ()"
    using assms(3) by (auto simp: valid_parts_def validate_header_version_def ZCASH_BLOCK_VERSION_def)
  obtain bs where bs: "header_serialize ?h = Ok bs" using header_serialize_eq [OF v] by blast
  have hash: "header_hash sha256 ?h = (Ok (sha256d sha256 bs) :: bytes history_res)" by (simp add: header_hash_def bs)
  have time: "u32_try_from (hd_time ?h) = Some (nat (hd_time ?h))" "in_u32 (nat (hd_time ?h))"
    using v(1) by (auto simp: valid_header_def u32_try_from_def in_u32_def)
  have u: "unat (hd_difficulty_threshold ?h) < 2 ^ 32" "unat w < 2 ^ 256"
    using unsigned_less [of "hd_difficulty_threshold ?h"] unsigned_less [of w] by simp_all
  have nu: "upgrade_at net (hp_height p) \<notin> {Genesis, BeforeOverwinter, Overwinter, Sapling, Blossom}"
    using assms(4) by (simp add: pre_heartwood_def)
  define d where "d =
    \<lparr>nd_consensus_branch_id = b, nd_subtree_commitment = sha256d sha256 bs,
     nd_start_time = nat (hd_time ?h), nd_end_time = nat (hd_time ?h),
     nd_start_target = unat (hd_difficulty_threshold ?h), nd_end_target = unat (hd_difficulty_threshold ?h),
     nd_start_sapling_root = hp_sapling_root p, nd_end_sapling_root = hp_sapling_root p,
     nd_subtree_total_work = unat w, nd_start_height = hp_height p, nd_end_height = hp_height p,
     nd_sapling_tx = hp_sapling_tx p\<rparr>"
  have "v1_parts_to_history_node sha256 net p = Ok d"
    using nu by (simp add: v1_parts_to_history_node_def Let_def current_at [OF assms(2)] b hash time(1) to_work_any [OF w]
        assertr_def d_def)
  moreover have "valid_node_data d"
    using assms(1,3) u time(2)
    by (auto simp: valid_node_data_def d_def sha256d_def sha256_32_def valid_parts_def in_u32_def in_u64_def MAX_HEIGHT_def)
  moreover have "v1_total i d \<le> parts_total i p" for i
    using w by (simp add: v1_total_def parts_total_def parts_work_def d_def)
  ultimately show ?thesis using b by (intro exI [of _ d]) (simp add: d_def)
qed

lemma parts_total_pools: "parts_total 2 p = hp_orchard_tx p" "parts_total 3 p = hp_ironwood_tx p"
  by (simp_all add: parts_total_def)

lemma v2_leaf:
  assumes "sha256_32 sha256" "valid_network net" "valid_parts p" "\<not> pre_heartwood (upgrade_at net (hp_height p))"
  shows "\<exists>d. v2_parts_to_history_node sha256 net p = Ok d \<and> valid_node_data_v2 d \<and>
    branch_id (upgrade_at net (hp_height p)) = Some (nd_consensus_branch_id (v2_v1 d)) \<and>
    nd_start_height (v2_v1 d) = hp_height p \<and> nd_end_height (v2_v1 d) = hp_height p \<and>
    (\<forall>i. v2_total i d \<le> parts_total i p)"
  using v1_leaf [OF assms] assms(3)
  by (auto simp: v2_parts_to_history_node_def valid_node_data_v2_def valid_parts_def v2_total_def parts_total_pools)

lemma v3_leaf:
  assumes "sha256_32 sha256" "valid_network net" "valid_parts p" "\<not> pre_heartwood (upgrade_at net (hp_height p))"
  shows "\<exists>d. v3_parts_to_history_node sha256 net p = Ok d \<and> valid_node_data_v3 d \<and>
    branch_id (upgrade_at net (hp_height p)) = Some (nd_consensus_branch_id (v2_v1 (v3_v2 d))) \<and>
    nd_start_height (v2_v1 (v3_v2 d)) = hp_height p \<and> nd_end_height (v2_v1 (v3_v2 d)) = hp_height p \<and>
    (\<forall>i. v3_total i d \<le> parts_total i p)"
  using v2_leaf [OF assms] assms(3)
  by (auto simp: v3_parts_to_history_node_def valid_node_data_v3_def valid_parts_def v3_total_def parts_total_pools)

interpretation leaves1: history_leaves V1 valid_node_data v1_total v1_parts_to_history_node
  by unfold_locales (use v1_leaf in \<open>simp add: V1_def\<close>)

interpretation leaves2: history_leaves V2 valid_node_data_v2 v2_total v2_parts_to_history_node
  by unfold_locales (use v2_leaf in \<open>simp add: V2_def\<close>)

interpretation leaves3: history_leaves V3 valid_node_data_v3 v3_total v3_parts_to_history_node
  by unfold_locales (use v3_leaf in \<open>simp add: V3_def\<close>)

section \<open>The tree of one upgrade\<close>

text \<open>The root that ZIP 221 specifies for the blocks of one upgrade.\<close>

definition epoch_root :: "'d chain_version \<Rightarrow> network \<Rightarrow> history_parts list \<Rightarrow> bytes history_res" where
  "epoch_root CV net ps =
     bindr (collect_res (cv_leaf CV net) ps) (\<lambda>xs.
     bindr (mmr_root (cv_blake2b CV) (cv_version CV) xs) (\<lambda>d.
     node_hash (cv_blake2b CV) (cv_version CV) d))"

context history_leaves
begin

lemma covers_hash:
  assumes sha: "sha256_32 sha256" and blake: "digest_32 blake2b" and net: "valid_network net"
    and nu: "\<not> pre_heartwood nu" "branch_id nu = Some b"
    and c: "covers (CV sha256 blake2b) net nu ps sz peaks t"
    and p: "chain_parts h ps" "\<forall>q \<in> set ps. upgrade_at net (hp_height q) = nu"
  shows "\<exists>r. chain_tree_hash (CV sha256 blake2b) t = Ok r \<and> epoch_root (CV sha256 blake2b) net ps = Ok r"
proof -
  obtain xs ks ts where ts: "collect_res (leaf sha256 net) ps = Ok xs" "all_leaves ts = xs" "ts \<noteq> []"
    "mountains blake2b V ks ts" "sz = offs ts" "peaks = enc_entries V (peak_entries 0 ts)"
    "new_from_cache (CV sha256 blake2b) net nu sz peaks [] = Ok t"
    using c by (auto simp: covers_def tree_state_def)
  have g: "good b h (all_leaves ts)" "length (all_leaves ts) < 2 ^ 31"
    using leaves_good [OF sha net nu p] chain_parts_length [OF p(1)] ts(1,2) by auto
  obtain inner where inner: "t = \<lparr>ct_network = net, ct_network_upgrade = nu, ct_inner = inner\<rparr>"
    "represents blake2b V inner (all_leaves ts)"
    using new_state [of "CV sha256 blake2b" nu b ks ts h net] blake nu(2) ts g by auto
  obtain e where e: "root_node inner = Ok e" "mmr_root blake2b V xs = Ok (e_data e)"
    using represents_root [OF inner(2)] ts(2) by blast
  obtain d' where d': "chain blake2b V inner (t_root inner) ts d'"
    using inner(2) ts(2,4) mountains_determined by (fastforce simp: represents_def view_of_def)
  have "e_data e = d'" using chain_resolve [OF d'] e(1) by (auto simp: root_node_def)
  moreover have "summary b h (all_leaves ts) d'"
    using chain_summary [OF blake d'] ts(4) g(1) by (simp add: mountains_def)
  ultimately have "valid (e_data e)" by (simp add: summary_def)
  then show ?thesis
    using e ts(1) inner(1) write_bound [of "e_data e"] blake
    by (simp add: chain_tree_hash_def epoch_root_def node_hash_def node_to_bytes_def write_to_buf_def
        blake2b_personal_def Let_def digest_32_def)
qed

end

lemma default_roots:
  "new_from_parts (pre_orchard H) net (p\<lparr>hp_orchard_root := r, hp_ironwood_root := s\<rparr>) = new_from_parts (pre_orchard H) net p"
  "new_from_parts (orchard_onward H) net (p\<lparr>hp_ironwood_root := s\<rparr>) = new_from_parts (orchard_onward H) net p"
  "append_leaf_parts (pre_orchard H) (p\<lparr>hp_orchard_root := r, hp_ironwood_root := s\<rparr>) t1 = append_leaf_parts (pre_orchard H) p t1"
  "append_leaf_parts (orchard_onward H) (p\<lparr>hp_ironwood_root := s\<rparr>) t2 = append_leaf_parts (orchard_onward H) p t2"
  by (simp_all add: new_from_parts_def append_leaf_parts_def new_leaf_parts_def PreOrchardV_def OrchardOnwardV_def
      v1_parts_to_history_node_def v2_parts_to_history_node_def cong: if_cong)

text \<open>The blocks that the node's tree covers: consecutive blocks of one upgrade, in the version of that upgrade.\<close>

definition tree_covers :: "hashes \<Rightarrow> history_parts list \<Rightarrow> non_empty_tree \<Rightarrow> bool" where
  "tree_covers H ps t \<longleftrightarrow>
     (let net = nh_network t; nu = nh_network_upgrade t in
      ps \<noteq> [] \<and> nh_current_height t = hp_height (last ps) \<and> (\<forall>p \<in> set ps. upgrade_at net (hp_height p) = nu) \<and>
      (case nh_inner t of
         PreOrchard tree \<Rightarrow>
           nu \<in> {Heartwood, Canopy} \<and> covers (pre_orchard H) net nu ps (nh_size t) (nh_peaks t) tree
       | OrchardOnward tree \<Rightarrow>
           nu \<in> {Nu5, Nu6, Nu6_1, Nu6_2} \<and> covers (orchard_onward H) net nu ps (nh_size t) (nh_peaks t) tree
       | IronwoodOnward tree \<Rightarrow>
           nu \<in> {Nu6_3, Nu7} \<and> covers (ironwood_onward H) net nu ps (nh_size t) (nh_peaks t) tree))"

definition good_hashes :: "hashes \<Rightarrow> bool" where
  "good_hashes H \<longleftrightarrow> sha256_32 (fst H) \<and> digest_32 (snd H)"

lemmas covers_new_versions =
  leaves1.covers_new [folded PreOrchardV_def] leaves2.covers_new [folded OrchardOnwardV_def]
  leaves3.covers_new [folded IronwoodOnwardV_def]

lemma from_parts_covers:
  assumes H: "good_hashes H" and net: "valid_network net" and p: "chain_parts h [p]"
    and nu: "\<not> pre_heartwood (upgrade_at net (hp_height p))"
  shows "\<exists>t. non_empty_from_parts H net p = Ok t \<and> tree_covers H [p] t \<and> nh_network t = net \<and>
    nh_network_upgrade t = upgrade_at net (hp_height p)"
proof -
  let ?nu = "upgrade_at net (hp_height p)"
  obtain b where b: "branch_id ?nu = Some b" using branch_id_heartwood [OF nu] by blast
  have sha: "sha256_32 (fst H)" "digest_32 (snd H)" using H by (auto simp: good_hashes_def)
  note new = covers_new_versions [OF sha net nu b p refl]
  note unf = non_empty_from_parts_def current_at [OF net] b default_roots tree_covers_def Let_def
  consider "?nu \<in> {Heartwood, Canopy}" | "?nu \<in> {Nu5, Nu6, Nu6_1, Nu6_2}" | "?nu \<in> {Nu6_3, Nu7}"
    using nu by (cases ?nu) (auto simp: pre_heartwood_def)
  then show ?thesis
  proof cases
    case 1
    then show ?thesis using new(1) nu by (auto simp: unf)
  next
    case 2
    then show ?thesis using new(2) nu by (auto simp: unf)
  next
    case 3
    then show ?thesis using new(3) nu by (auto simp: unf)
  qed
qed

lemma insert_new_eq:
  "\<forall>x \<in> set (nh_peaks t). fst x < nh_size t \<Longrightarrow> nh_size t + length es < 2 ^ 32 \<Longrightarrow>
    insert_new es t =
      (Ok (t\<lparr>nh_peaks := nh_peaks t @ zip [nh_size t ..< nh_size t + length es] es,
        nh_size := nh_size t + length es\<rparr>) :: (history_tree_error, _) res)"
proof (induction es arbitrary: t)
  case (Cons e es)
  let ?t = "t\<lparr>nh_peaks := nh_peaks t @ [(nh_size t, e)], nh_size := nh_size t + 1\<rparr>"
  have "bt_insert (nh_size t) e (nh_peaks t) = nh_peaks t @ [(nh_size t, e)]"
    using Cons.prems(1) by (intro bt_insert_last)
  moreover have "[nh_size t ..< nh_size t + length (e # es)] = nh_size t # [nh_size t + 1 ..< nh_size t + 1 + length es]"
    by (subst upt_conv_Cons) simp_all
  moreover have "insert_new es ?t =
      (Ok (?t\<lparr>nh_peaks := nh_peaks ?t @ zip [nh_size ?t ..< nh_size ?t + length es] es,
        nh_size := nh_size ?t + length es\<rparr>) :: (history_tree_error, _) res)"
    using Cons.prems by (intro Cons.IH) (auto simp: less_Suc_eq)
  ultimately show ?case
    using Cons.prems(2) by (simp add: u32_add_def u32_checked_def in_u32_def)
qed simp

lemma prune_eq:
  assumes "peak_positions (nh_size t) = Ok pos"
    and "rebuild H (t\<lparr>nh_peaks := filter (\<lambda>(k, _). k \<in> set pos) (nh_peaks t)\<rparr>) = Ok inner"
  shows "prune H t = Ok (t\<lparr>nh_peaks := filter (\<lambda>(k, _). k \<in> set pos) (nh_peaks t), nh_inner := inner\<rparr>)"
  using assms by (simp add: prune_def Let_def)

lemma next_height:
  assumes "chain_parts h (ps @ [p])" "ps \<noteq> []"
  shows "hp_height p = hp_height (last ps) + 1" "height_add_diff (hp_height (last ps)) 1 = Ok (Some (hp_height p))"
proof -
  let ?n = "length ps"
  have at: "hp_height ((ps @ [p]) ! i) = h + i" if "i < Suc ?n" for i
    using assms(1) that by (simp add: chain_parts_def)
  have "hp_height (last ps) = h + (?n - 1)" "hp_height p = h + ?n"
    using at [of "?n - 1"] at [of ?n] assms(2) by (simp_all add: nth_append last_conv_nth)
  moreover have "0 < ?n" using assms(2) by simp
  ultimately show *: "hp_height p = hp_height (last ps) + 1" by simp
  have "hp_height p \<le> MAX_HEIGHT" using assms(1) by (simp add: chain_parts_def valid_parts_def)
  then show "height_add_diff (hp_height (last ps)) 1 = Ok (Some (hp_height p))"
    using * by (subst height_add_diff_exact) (auto simp: in_u32_def MAX_HEIGHT_def)
qed

lemmas covers_push_versions =
  leaves1.covers_push [folded PreOrchardV_def] leaves2.covers_push [folded OrchardOnwardV_def]
  leaves3.covers_push [folded IronwoodOnwardV_def]

text \<open>A block of the same upgrade: the rest of \<open>push_from_parts\<close>, when the tree of the version takes the block.\<close>

lemma push_inner:
  assumes t: "nh_current_height t = hp_height (last ps)" "ps \<noteq> []" "chain_parts h (ps @ [p])"
    and net: "valid_network (nh_network t)" "upgrade_at (nh_network t) (hp_height p) = nh_network_upgrade t"
    and app: "append_inner H p (nh_inner t) = Some (Ok (entries, inner1))"
      "\<forall>x \<in> set (nh_peaks t). fst x < nh_size t" "nh_size t + length entries < 2 ^ 32"
      "peak_positions (nh_size t + length entries) = Ok pos"
    and peaks: "peaks' = filter (\<lambda>(k, _). k \<in> set pos) (nh_peaks t @ zip [nh_size t ..< nh_size t + length entries] entries)"
    and rebuilt: "rebuild H (t\<lparr>nh_inner := inner1, nh_peaks := peaks', nh_size := nh_size t + length entries\<rparr>) = Ok inner2"
  shows "non_empty_push H p t =
    Some (Ok (t\<lparr>nh_inner := inner2, nh_peaks := peaks', nh_size := nh_size t + length entries,
      nh_current_height := hp_height p\<rparr>))"
proof -
  let ?t1 = "t\<lparr>nh_inner := inner1\<rparr>" and ?n = "nh_size t + length entries"
  let ?t2 = "?t1\<lparr>nh_peaks := nh_peaks t @ zip [nh_size t ..< ?n] entries, nh_size := ?n\<rparr>"
  have ins: "insert_new entries ?t1 = (Ok ?t2 :: (history_tree_error, _) res)"
    using insert_new_eq [of ?t1 entries] app(2,3) by simp
  have "?t2\<lparr>nh_peaks := peaks'\<rparr> = t\<lparr>nh_inner := inner1, nh_peaks := peaks', nh_size := ?n\<rparr>" by simp
  with rebuilt have "rebuild H (?t2\<lparr>nh_peaks := peaks'\<rparr>) = Ok inner2" by argo
  then have pr: "prune H ?t2 = Ok (?t2\<lparr>nh_peaks := peaks', nh_inner := inner2\<rparr>)"
    using prune_eq [of ?t2 pos H inner2] app(4) peaks by simp
  have "assertr (Some (hp_height p) = Some (hp_height p)) = Ok ()" by (simp add: assertr_def)
  then show ?thesis
    using app(1) ins pr t(1) net(2)
    by (simp add: non_empty_push_def Let_def next_height(2) [OF t(3,2)] current_at [OF net(1)])
qed

text \<open>The same in the version of the tree, with \<open>C\<close> its constructor.\<close>

lemma push_version:
  assumes t: "nh_current_height t = hp_height (last ps)" "ps \<noteq> []" "chain_parts h (ps @ [p])"
    and net: "valid_network (nh_network t)" "upgrade_at (nh_network t) (hp_height p) = nh_network_upgrade t"
    and wrap: "\<And>es t1. append_leaf_parts CV p tree = Some (Ok (es, t1)) \<Longrightarrow>
        append_inner H p (nh_inner t) = Some (Ok (es, C t1))"
    and rebuilt: "\<And>t1 t2 sz peaks. new_from_cache CV (nh_network t) (nh_network_upgrade t) sz peaks [] = Ok t2 \<Longrightarrow>
        rebuild H (t\<lparr>nh_inner := C t1, nh_peaks := peaks, nh_size := sz\<rparr>) = Ok (C t2)"
    and step: "\<exists>entries t1 pos t2.
        append_leaf_parts CV p tree = Some (Ok (entries, t1)) \<and> nh_size t + length entries < 2 ^ 32 \<and>
        (\<forall>x \<in> set (nh_peaks t). fst x < nh_size t) \<and> peak_positions (nh_size t + length entries) = Ok pos \<and>
        (let peaks' = filter (\<lambda>(k, _). k \<in> set pos) (nh_peaks t @ zip [nh_size t ..< nh_size t + length entries] entries) in
         new_from_cache CV (nh_network t) (nh_network_upgrade t) (nh_size t + length entries) peaks' [] = Ok t2 \<and>
         covers CV (nh_network t) (nh_network_upgrade t) (ps @ [p]) (nh_size t + length entries) peaks' t2)"
  obtains sz peaks t2 where
    "non_empty_push H p t =
       Some (Ok (t\<lparr>nh_inner := C t2, nh_peaks := peaks, nh_size := sz, nh_current_height := hp_height p\<rparr>))"
    "covers CV (nh_network t) (nh_network_upgrade t) (ps @ [p]) sz peaks t2"
proof -
  obtain entries t1 pos t2 where s:
    "append_leaf_parts CV p tree = Some (Ok (entries, t1))" "nh_size t + length entries < 2 ^ 32"
    "\<forall>x \<in> set (nh_peaks t). fst x < nh_size t" "peak_positions (nh_size t + length entries) = Ok pos"
    "let peaks' = filter (\<lambda>(k, _). k \<in> set pos) (nh_peaks t @ zip [nh_size t ..< nh_size t + length entries] entries) in
       new_from_cache CV (nh_network t) (nh_network_upgrade t) (nh_size t + length entries) peaks' [] = Ok t2 \<and>
       covers CV (nh_network t) (nh_network_upgrade t) (ps @ [p]) (nh_size t + length entries) peaks' t2"
    using step by blast
  define peaks where
    "peaks = filter (\<lambda>(k, _). k \<in> set pos) (nh_peaks t @ zip [nh_size t ..< nh_size t + length entries] entries)"
  note s5 = s(5) [unfolded Let_def, folded peaks_def]
  show thesis
    by (rule that [OF push_inner [OF t net wrap [OF s(1)] s(3,2,4) peaks_def rebuilt]])
      (use s5 in blast)+
qed

text \<open>A block of the same upgrade extends the tree.\<close>

lemma push_same:
  assumes H: "good_hashes H" and cov: "tree_covers H ps t" and net: "valid_network (nh_network t)"
    and p: "chain_parts h (ps @ [p])" "upgrade_at (nh_network t) (hp_height p) = nh_network_upgrade t"
  shows "\<exists>t'. non_empty_push H p t = Some (Ok t') \<and> tree_covers H (ps @ [p]) t' \<and> nh_network t' = nh_network t \<and>
    nh_network_upgrade t' = nh_network_upgrade t"
proof -
  have sha: "sha256_32 (fst H)" "digest_32 (snd H)" using H by (auto simp: good_hashes_def)
  let ?net = "nh_network t" and ?nu = "nh_network_upgrade t"
  have t: "nh_current_height t = hp_height (last ps)" "ps \<noteq> []" and all: "\<forall>q \<in> set (ps @ [p]). upgrade_at ?net (hp_height q) = ?nu"
    using cov p(2) by (auto simp: tree_covers_def Let_def)
  have nu: "\<not> pre_heartwood ?nu"
    using cov by (auto simp: tree_covers_def Let_def pre_heartwood_def split: inner_tree.splits)
  obtain b where b: "branch_id ?nu = Some b" using branch_id_heartwood [OF nu] by blast
  note push = covers_push_versions [OF sha net nu b _ p(1) all]
  note version = push_version [OF t p(1) net p(2)]
  show ?thesis
  proof (cases "nh_inner t")
    case (PreOrchard tree)
    then have c: "covers (pre_orchard H) ?net ?nu ps (nh_size t) (nh_peaks t) tree" "?nu \<in> {Heartwood, Canopy}"
      using cov by (auto simp: tree_covers_def Let_def)
    show ?thesis
      by (rule version [of "pre_orchard H" tree H PreOrchard, OF _ _ push(1) [OF c(1)]])
        (use PreOrchard c(2) all in \<open>auto simp: append_inner_def rebuild_def default_roots tree_covers_def\<close>)
  next
    case (OrchardOnward tree)
    then have c: "covers (orchard_onward H) ?net ?nu ps (nh_size t) (nh_peaks t) tree" "?nu \<in> {Nu5, Nu6, Nu6_1, Nu6_2}"
      using cov by (auto simp: tree_covers_def Let_def)
    show ?thesis
      by (rule version [of "orchard_onward H" tree H OrchardOnward, OF _ _ push(2) [OF c(1)]])
        (use OrchardOnward c(2) all in \<open>auto simp: append_inner_def rebuild_def default_roots tree_covers_def\<close>)
  next
    case (IronwoodOnward tree)
    then have c: "covers (ironwood_onward H) ?net ?nu ps (nh_size t) (nh_peaks t) tree" "?nu \<in> {Nu6_3, Nu7}"
      using cov by (auto simp: tree_covers_def Let_def)
    show ?thesis
      by (rule version [of "ironwood_onward H" tree H IronwoodOnward, OF _ _ push(3) [OF c(1)]])
        (use IronwoodOnward c(2) all in \<open>auto simp: append_inner_def rebuild_def tree_covers_def\<close>)
  qed
qed

text \<open>The first block of another upgrade replaces the tree.\<close>

lemma push_other:
  assumes H: "good_hashes H" and cov: "tree_covers H ps t" and net: "valid_network (nh_network t)"
    and p: "chain_parts h (ps @ [p])" "upgrade_at (nh_network t) (hp_height p) \<noteq> nh_network_upgrade t"
    and nu: "\<not> pre_heartwood (upgrade_at (nh_network t) (hp_height p))"
  shows "\<exists>t'. non_empty_push H p t = Some (Ok t') \<and> tree_covers H [p] t' \<and> nh_network t' = nh_network t \<and>
    nh_network_upgrade t' = upgrade_at (nh_network t) (hp_height p)"
proof -
  have t: "nh_current_height t = hp_height (last ps)" "ps \<noteq> []"
    using cov by (auto simp: tree_covers_def Let_def)
  obtain t' where t': "non_empty_from_parts H (nh_network t) p = Ok t'" "tree_covers H [p] t'"
    "nh_network t' = nh_network t" "nh_network_upgrade t' = upgrade_at (nh_network t) (hp_height p)"
    using from_parts_covers [OF H net chain_parts_append(2) [OF p(1)] nu] by blast
  have "non_empty_push H p t = Some (Ok t')"
    using t'(1,4) p(2) t(1)
    by (simp add: non_empty_push_def Let_def next_height(2) [OF p(1) t(2)] current_at [OF net] assertr_def)
  then show ?thesis using t'(2-4) by blast
qed

section \<open>The history of a chain\<close>

text \<open>The blocks of the last block's upgrade, and the root that ZIP 221 gives the chain that ends with them: none
before Heartwood.\<close>

abbreviation parts_upgrade :: "network \<Rightarrow> history_parts \<Rightarrow> network_upgrade" where
  "parts_upgrade net p \<equiv> upgrade_at net (hp_height p)"

definition epoch :: "network \<Rightarrow> history_parts list \<Rightarrow> history_parts list" where
  "epoch net ps = dropWhile (\<lambda>p. parts_upgrade net p \<noteq> parts_upgrade net (last ps)) ps"

definition chain_history_root :: "hashes \<Rightarrow> network \<Rightarrow> history_parts list \<Rightarrow> bytes option history_res" where
  "chain_history_root H net ps =
     (if ps = [] \<or> pre_heartwood (parts_upgrade net (last ps)) then Ok None
      else mapr Some (
        if parts_upgrade net (last ps) \<in> {Heartwood, Canopy} then epoch_root (pre_orchard H) net (epoch net ps)
        else if parts_upgrade net (last ps) \<in> {Nu5, Nu6, Nu6_1, Nu6_2} then
          epoch_root (orchard_onward H) net (epoch net ps)
        else epoch_root (ironwood_onward H) net (epoch net ps)))"

lemma pre_heartwood_iff: "pre_heartwood nu \<longleftrightarrow> \<not> Heartwood \<le> nu"
  by (cases nu) (simp_all add: pre_heartwood_def less_eq_network_upgrade_def)

lemma pre_heartwood_at:
  assumes "valid_network net"
  shows "pre_heartwood (upgrade_at net h) \<longleftrightarrow> (\<forall>a. activation_height Heartwood net = Some a \<longrightarrow> h < a)"
  using valid_net.upgrade_at_ge_iff [OF valid_net.intro [OF assms], of Heartwood h] by (auto simp: pre_heartwood_iff)

lemma epoch_split: "takeWhile (\<lambda>p. parts_upgrade net p \<noteq> parts_upgrade net (last ps)) ps @ epoch net ps = ps"
  by (simp add: epoch_def)

lemma chain_parts_epoch: "chain_parts h (ps @ qs) \<Longrightarrow> \<exists>k. chain_parts k (epoch net ps @ qs)"
  using chain_parts_append(2) [of h _ "epoch net ps @ qs"] epoch_split [of net ps] by (metis append.assoc)

lemma epoch_snoc_same:
  assumes "ps \<noteq> []" "parts_upgrade net p = parts_upgrade net (last ps)"
  shows "epoch net (ps @ [p]) = epoch net ps @ [p]"
proof -
  have "last ps \<in> set ps" using assms(1) by simp
  then show ?thesis using assms(2) dropWhile_append1 [of "last ps" ps] by (simp add: epoch_def)
qed

lemma epoch_snoc_other:
  assumes "\<forall>q \<in> set ps. parts_upgrade net q \<noteq> parts_upgrade net p"
  shows "epoch net (ps @ [p]) = [p]"
  using assms by (simp add: epoch_def dropWhile_append2)

lemma chain_parts_heights:
  assumes "chain_parts h (ps @ [p])"
  shows "hp_height p = h + length ps" "\<And>q. q \<in> set ps \<Longrightarrow> hp_height q \<le> hp_height (last ps)"
    "\<And>q. q \<in> set ps \<Longrightarrow> hp_height q < hp_height p"
proof -
  have at: "hp_height ((ps @ [p]) ! i) = h + i" if "i < Suc (length ps)" for i
    using assms that by (simp add: chain_parts_def)
  have ps: "hp_height (ps ! i) = h + i" if "i < length ps" for i using at [of i] that by (simp add: nth_append)
  show p: "hp_height p = h + length ps" using at [of "length ps"] by simp
  show "hp_height q \<le> hp_height (last ps)" "hp_height q < hp_height p" if "q \<in> set ps" for q
  proof -
    obtain i where i: "i < length ps" "q = ps ! i" using \<open>q \<in> set ps\<close> by (auto simp: in_set_conv_nth)
    then have "last ps = ps ! (length ps - 1)" by (intro last_conv_nth) auto
    then show "hp_height q \<le> hp_height (last ps)" "hp_height q < hp_height p"
      using i ps [of i] ps [of "length ps - 1"] p by auto
  qed
qed

text \<open>The tree that a chain has.\<close>

definition history_covers :: "hashes \<Rightarrow> network \<Rightarrow> history_parts list \<Rightarrow> history_tree \<Rightarrow> bool" where
  "history_covers H net ps ht \<longleftrightarrow>
     (case ht of
        None \<Rightarrow> \<forall>q \<in> set ps. pre_heartwood (parts_upgrade net q)
      | Some t \<Rightarrow>
          ps \<noteq> [] \<and> \<not> pre_heartwood (parts_upgrade net (last ps)) \<and> nh_network t = net \<and>
          nh_network_upgrade t = parts_upgrade net (last ps) \<and> tree_covers H (epoch net ps) t)"

lemma history_push_first:
  assumes "valid_network net" "good_hashes H" "chain_parts h (ps @ [p])" "history_covers H net ps None"
    "activation_height Heartwood net = Some (hp_height p)"
  shows "\<exists>ht. history_push H net p None = Some (Ok ht) \<and> history_covers H net (ps @ [p]) ht"
proof -
  have nu: "\<not> pre_heartwood (parts_upgrade net p)" using assms(1,5) by (simp add: pre_heartwood_at)
  have "epoch net (ps @ [p]) = [p]"
    using assms(4) nu by (intro epoch_snoc_other) (auto simp: history_covers_def)
  moreover obtain t where "non_empty_from_parts H net p = Ok t" "tree_covers H [p] t" "nh_network t = net"
    "nh_network_upgrade t = parts_upgrade net p"
    using from_parts_covers [OF assms(2,1) chain_parts_append(2) [OF assms(3)] nu] by blast
  ultimately show ?thesis using nu assms(5) by (simp add: history_push_def history_covers_def)
qed

lemma history_push_next:
  assumes net: "valid_network net" and H: "good_hashes H" and c: "chain_parts h (ps @ [p])"
    and t: "history_covers H net ps (Some t)"
    and a: "activation_height Heartwood net = Some a" "a < hp_height p"
  shows "\<exists>ht. history_push H net p (Some t) = Some (Ok ht) \<and> history_covers H net (ps @ [p]) ht"
proof -
  have ps: "ps \<noteq> []" and tn: "nh_network t = net" "nh_network_upgrade t = parts_upgrade net (last ps)"
    and cov: "tree_covers H (epoch net ps) t"
    using t by (simp_all add: history_covers_def)
  have nu: "\<not> pre_heartwood (parts_upgrade net p)" using net a by (simp add: pre_heartwood_at)
  obtain k where k: "chain_parts k (epoch net ps @ [p])" using chain_parts_epoch [OF c] by blast
  have "\<exists>t'. non_empty_push H p t = Some (Ok t') \<and> tree_covers H (epoch net (ps @ [p])) t' \<and> nh_network t' = net \<and>
      nh_network_upgrade t' = parts_upgrade net p"
  proof (cases "parts_upgrade net p = parts_upgrade net (last ps)")
    case True
    then show ?thesis using push_same [OF H cov _ k] net tn epoch_snoc_same [OF ps True] by simp
  next
    case False
    have "parts_upgrade net q \<le> parts_upgrade net (last ps)" "parts_upgrade net (last ps) \<le> parts_upgrade net p"
      if "q \<in> set ps" for q
      using that ps chain_parts_heights(2,3) [OF c] valid_net.upgrade_at_mono [OF valid_net.intro [OF net]]
      by (simp_all add: less_imp_le)
    then have "epoch net (ps @ [p]) = [p]" using False by (intro epoch_snoc_other) (metis order_antisym)
    then show ?thesis using push_other [OF H cov _ k] net tn False nu by simp
  qed
  then show ?thesis using a nu by (auto simp: history_push_def history_covers_def)
qed

lemma push_all_snoc: "push_all H net (ps @ [p]) ht = bindo (push_all H net ps ht) (history_push H net p)"
proof (induction ps arbitrary: ht)
  case Nil
  show ?case by (cases "history_push H net p ht") (auto simp: bindo_def split: res.splits option.splits)
next
  case (Cons q ps)
  then show ?case by (cases "history_push H net q ht") (auto simp: bindo_def split: res.splits)
qed

lemma push_all_covers:
  assumes net: "valid_network net" and H: "good_hashes H"
    and h: "\<And>a. activation_height Heartwood net = Some a \<Longrightarrow> h \<le> a"
  shows "chain_parts h ps \<Longrightarrow> \<exists>ht. push_all H net ps None = Some (Ok ht) \<and> history_covers H net ps ht"
proof (induction ps rule: rev_induct)
  case Nil
  show ?case by (simp add: history_covers_def)
next
  case (snoc p ps)
  obtain ht where ht: "push_all H net ps None = Some (Ok ht)" "history_covers H net ps ht"
    using snoc chain_parts_append(1) by blast
  note heights = chain_parts_heights [OF snoc.prems]
  have "\<exists>ht'. history_push H net p ht = Some (Ok ht') \<and> history_covers H net (ps @ [p]) ht'"
  proof (cases "pre_heartwood (parts_upgrade net p)")
    case True
    then have le: "hp_height p < a" if "activation_height Heartwood net = Some a" for a
      using that net by (simp add: pre_heartwood_at)
    then have "pre_heartwood (parts_upgrade net q)" if "q \<in> set ps" for q
      using that net heights(3) by (auto simp: pre_heartwood_at dest: less_trans)
    then have "ht = None" "history_covers H net (ps @ [p]) None"
      using ht(2) True by (auto simp: history_covers_def split: option.splits)
    then show ?thesis using le by (auto simp: history_push_def split: option.splits)
  next
    case False
    then obtain a where a: "activation_height Heartwood net = Some a" "a \<le> hp_height p"
      using net by (auto simp: pre_heartwood_at not_less)
    show ?thesis
    proof (cases "a = hp_height p")
      case True
      then have "ht = None"
        using ht(2) a(1) net heights(3) last_in_set [of ps] by (auto simp: history_covers_def pre_heartwood_at split: option.splits)
      then show ?thesis using history_push_first [OF net H snoc.prems] ht(2) a(1) True by simp
    next
      case neq: False
      then have "ps \<noteq> []" using h [OF a(1)] a(2) heights(1) by auto
      moreover have "a \<le> hp_height (last ps)" using next_height(1) [OF snoc.prems calculation] neq a(2) by simp
      ultimately have "\<not> pre_heartwood (parts_upgrade net (last ps))" "last ps \<in> set ps"
        using a(1) net by (simp_all add: pre_heartwood_at)
      then obtain t where "ht = Some t" using ht(2) by (cases ht) (auto simp: history_covers_def)
      then show ?thesis using history_push_next [OF net H snoc.prems] ht(2) a neq by simp
    qed
  qed
  then show ?case using ht(1) by (auto simp: push_all_snoc)
qed

lemmas covers_hash_versions =
  leaves1.covers_hash [folded PreOrchardV_def] leaves2.covers_hash [folded OrchardOnwardV_def]
  leaves3.covers_hash [folded IronwoodOnwardV_def]

lemma tree_covers_cases:
  assumes "tree_covers H ps t" "nh_network t = net" "nh_network_upgrade t = nu"
  obtains
    (pre) x where "nh_inner t = PreOrchard x" "nu \<in> {Heartwood, Canopy}"
      "covers (pre_orchard H) net nu ps (nh_size t) (nh_peaks t) x"
  | (orchard) x where "nh_inner t = OrchardOnward x" "nu \<in> {Nu5, Nu6, Nu6_1, Nu6_2}"
      "covers (orchard_onward H) net nu ps (nh_size t) (nh_peaks t) x"
  | (ironwood) x where "nh_inner t = IronwoodOnward x" "nu \<in> {Nu6_3, Nu7}"
      "covers (ironwood_onward H) net nu ps (nh_size t) (nh_peaks t) x"
  using assms by (cases "nh_inner t") (simp_all add: tree_covers_def Let_def)

lemma covers_root:
  assumes net: "valid_network net" and H: "good_hashes H" and c: "chain_parts h ps" and cov: "history_covers H net ps ht"
  shows "\<exists>r. history_hash H ht = (Ok r :: ('e, _) res) \<and> chain_history_root H net ps = Ok r"
proof (cases ht)
  case None
  then have "ps = [] \<or> pre_heartwood (parts_upgrade net (last ps))"
    using cov by (cases "ps = []") (simp_all add: history_covers_def)
  then show ?thesis using None by (simp add: history_hash_def chain_history_root_def)
next
  case (Some t)
  let ?nu = "parts_upgrade net (last ps)"
  have t: "ps \<noteq> []" "\<not> pre_heartwood ?nu" "nh_network t = net" "nh_network_upgrade t = ?nu" "tree_covers H (epoch net ps) t"
    using cov Some by (simp_all add: history_covers_def)
  obtain b where b: "branch_id ?nu = Some b" using branch_id_heartwood [OF t(2)] by blast
  obtain k where k: "chain_parts k (epoch net ps)" using chain_parts_epoch [of h ps "[]" net] c by auto
  have all: "\<forall>q \<in> set (epoch net ps). upgrade_at net (hp_height q) = ?nu"
    using t(3-5) by (simp add: tree_covers_def Let_def)
  have sha: "sha256_32 (fst H)" "digest_32 (snd H)" using H by (auto simp: good_hashes_def)
  note hash = covers_hash_versions [OF sha net t(2) b _ k all]
  from t(5,3,4) show ?thesis
  proof (cases rule: tree_covers_cases)
    case (pre x)
    have "\<exists>r. chain_tree_hash (pre_orchard H) x = (Ok r :: ('e, _) res) \<and> epoch_root (pre_orchard H) net (epoch net ps) = Ok r"
      by (rule hash(1) [OF pre(3)])
    with pre(1,2) t(1,2) Some show ?thesis
      by (auto simp: history_hash_def non_empty_hash_def chain_history_root_def)
  next
    case (orchard x)
    have "\<exists>r. chain_tree_hash (orchard_onward H) x = (Ok r :: ('e, _) res) \<and> epoch_root (orchard_onward H) net (epoch net ps) = Ok r"
      by (rule hash(2) [OF orchard(3)])
    with orchard(1,2) t(1,2) Some show ?thesis
      by (auto simp: history_hash_def non_empty_hash_def chain_history_root_def)
  next
    case (ironwood x)
    have "\<exists>r. chain_tree_hash (ironwood_onward H) x = (Ok r :: ('e, _) res) \<and> epoch_root (ironwood_onward H) net (epoch net ps) = Ok r"
      by (rule hash(3) [OF ironwood(3)])
    with ironwood(1,2) t(1,2) Some show ?thesis
      by (auto simp: history_hash_def non_empty_hash_def chain_history_root_def)
  qed
qed

lemma chain_root_None_iff:
  assumes "history_hash H ht = (Ok r :: ('e, _) res)" "history_covers H net ps ht"
  shows "r = None \<longleftrightarrow> (\<forall>p \<in> set ps. pre_heartwood (parts_upgrade net p))"
proof -
  have "r = None \<longleftrightarrow> ht = None" using assms(1) by (auto simp: history_hash_def mapr_eq_Ok split: option.splits)
  also have "\<dots> \<longleftrightarrow> (\<forall>p \<in> set ps. pre_heartwood (parts_upgrade net p))"
    using assms(2) last_in_set [of ps] by (auto simp: history_covers_def split: option.splits)
  finally show ?thesis .
qed

text \<open>
  C6. Pushing the blocks of a chain one by one onto an empty history tree, from Heartwood or from any height
  before it, neither fails nor panics, and refines the specification: the root of the tree is the root that
  ZIP 221 gives the list of blocks. There is none before Heartwood; afterwards it is the root of the blocks of
  the last block's upgrade, in the version of that upgrade, whatever the caching, pruning and rebuilding of the
  peaks did in between.
\<close>

theorem history_push_refines:
  assumes "valid_network net" "good_hashes H" "chain_parts h ps"
    and "\<And>a. activation_height Heartwood net = Some a \<Longrightarrow> h \<le> a"
  shows "\<exists>ht r. push_all H net ps None = Some (Ok ht) \<and> history_hash H ht = (Ok r :: ('e, _) res) \<and>
    chain_history_root H net ps = Ok r \<and>
    (r = None \<longleftrightarrow> (\<forall>p \<in> set ps. \<forall>a. activation_height Heartwood net = Some a \<longrightarrow> hp_height p < a))"
proof -
  obtain ht where ht: "push_all H net ps None = Some (Ok ht)" "history_covers H net ps ht"
    using push_all_covers [OF assms(1,2,4,3)] by blast
  obtain r where r: "history_hash H ht = (Ok r :: ('e, _) res)" "chain_history_root H net ps = Ok r"
    using covers_root [OF assms(1-3) ht(2)] by blast
  show ?thesis using ht(1) r chain_root_None_iff [OF r(1) ht(2)] pre_heartwood_at [OF assms(1)] by simp
qed

lemma covers_cache:
  "covers CV net nu ps sz peaks t \<Longrightarrow> peaks \<noteq> [] \<and> new_from_cache CV net nu sz peaks [] = Ok t"
  by (auto simp: covers_def tree_state_def neq_Nil_conv)

text \<open>
  C20. A tree that pushing built can be stored as its size, its peaks and its height: restoring it from them, or
  cloning it, gives back exactly the same tree.
\<close>

theorem history_cache_roundtrip:
  assumes "valid_network net" "good_hashes H" "chain_parts h ps"
    and "\<And>a. activation_height Heartwood net = Some a \<Longrightarrow> h \<le> a"
    and "push_all H net ps None = Some (Ok (Some t))"
  shows "from_cache H net (nh_size t) (nh_peaks t) (nh_current_height t) = Ok t \<and> clone H t = (Ok t :: ('e, _) res)"
proof -
  have cov: "history_covers H net ps (Some t)" using push_all_covers [OF assms(1,2,4,3)] assms(5) by auto
  then have t: "ps \<noteq> []" "\<not> pre_heartwood (parts_upgrade net (last ps))" "nh_network t = net"
    "nh_network_upgrade t = parts_upgrade net (last ps)" "tree_covers H (epoch net ps) t"
    by (simp_all add: history_covers_def)
  have "last (epoch net ps) = last ps" "epoch net ps \<noteq> []"
    using t(1,5) epoch_split [of net ps] by (auto simp: tree_covers_def Let_def) (metis last_appendR)
  then have height: "nh_current_height t = hp_height (last ps)"
    using t(5) by (simp add: tree_covers_def Let_def)
  obtain b where b: "branch_id (parts_upgrade net (last ps)) = Some b" using branch_id_heartwood [OF t(2)] by blast
  let ?nu = "parts_upgrade net (last ps)"
  have inner: "nh_peaks t \<noteq> [] \<and> rebuild H t = Ok (nh_inner t) \<and>
      from_cache H net (nh_size t) (nh_peaks t) (hp_height (last ps)) =
        Ok \<lparr>nh_network = net, nh_network_upgrade = ?nu, nh_inner = nh_inner t, nh_size = nh_size t,
          nh_peaks = nh_peaks t, nh_current_height = hp_height (last ps)\<rparr>"
    using t(5,3,4)
  proof (cases rule: tree_covers_cases)
    case (pre x)
    then show ?thesis using covers_cache [OF pre(3)] t(2-4) b by (auto simp: rebuild_def from_cache_def current_at [OF assms(1)])
  next
    case (orchard x)
    then show ?thesis using covers_cache [OF orchard(3)] t(2-4) b by (auto simp: rebuild_def from_cache_def current_at [OF assms(1)])
  next
    case (ironwood x)
    then show ?thesis using covers_cache [OF ironwood(3)] t(2-4) b by (auto simp: rebuild_def from_cache_def current_at [OF assms(1)])
  qed
  moreover have "\<lparr>nh_network = net, nh_network_upgrade = ?nu, nh_inner = nh_inner t, nh_size = nh_size t,
      nh_peaks = nh_peaks t, nh_current_height = hp_height (last ps)\<rparr> = t"
    using t(3,4) height by simp
  ultimately show ?thesis using height by (simp add: clone_def)
qed

text \<open>The upgrade of a block comes with the height of its activation.\<close>

lemma current_activation:
  assumes "valid_network net"
  shows "\<exists>a. current_with_activation_height net h = (Ok (upgrade_at net h, a) :: ('e, _) res) \<and>
    activation_height (upgrade_at net h) net = Some a"
proof -
  let ?m = "activation_map net"
  have net: "valid_net net" using assms by (rule valid_net.intro)
  have m: "valid_activation ?m" using valid_net.activation_valid [OF net] .
  obtain x where x: "map_last_upto ?m h = Some x" "x \<in> set ?m"
    using map_last_upto_Some [OF m, of h] by blast
  have up: "upgrade_at net h = snd x" using x(1) by (simp add: upgrade_at_def current_def)
  obtain k where k: "k < length ?m" "?m ! k = x" using x(2) by (auto simp: in_set_conv_nth)
  have "sorted_wrt (<) (map snd ?m)" using m by (simp add: valid_activation_def)
  then have "\<forall>j < k. \<not> snd x \<le> snd (?m ! j)"
    using k sorted_wrt_nth_less [of "(<)" "map snd ?m" _ k] by (auto simp: not_le)
  then have "find (\<lambda>y. snd x \<le> snd y) ?m = Some x" using k by (auto simp: find_Some_iff)
  then show ?thesis
    using x(1) up valid_net.activation_height_find [OF net]
    by (intro exI [of _ "fst x"]) (simp add: current_with_activation_height_def)
qed

text \<open>How the commitment field of a block is read from Heartwood on.\<close>

lemma heartwood_commitment:
  assumes "valid_network net" "activation_height Heartwood net = Some a" "a \<le> h"
  shows "header_commitment sapling_root hdr net h =
    (if upgrade_at net h \<in> {Heartwood, Canopy} then
       if a = h then activation_reserved (hd_commitment_bytes hdr) else Ok (ChainHistoryRoot (hd_commitment_bytes hdr))
     else Ok (ChainHistoryBlockTxAuthCommitment (hd_commitment_bytes hdr)))"
proof -
  let ?nu = "upgrade_at net h"
  obtain b where b: "current_with_activation_height net h = (Ok (?nu, b) :: (commitment_error, _) res)"
    "activation_height ?nu net = Some b"
    using current_activation [OF assms(1)] by blast
  have "\<not> pre_heartwood ?nu" using assms by (simp add: pre_heartwood_at)
  moreover have "a = b" if "?nu = Heartwood" using that b(2) assms(2) by simp
  ultimately show ?thesis
    using assms(2) by (auto simp: header_commitment_def commitment_from_bytes_def b(1) pre_heartwood_def)
qed

lemma root_at_activation:
  assumes net: "valid_network net" and c: "chain_parts h ps" and r: "history_hash H ht = (Ok r :: ('e, _) res)" "history_covers H net ps ht"
    and a: "activation_height Heartwood net = Some a" "h \<le> a" "a \<le> h + length ps"
  shows "r = None \<longleftrightarrow> a = h + length ps"
proof -
  have heights: "hp_height (ps ! i) = h + i" if "i < length ps" for i using c that by (simp add: chain_parts_def)
  have "(\<forall>p \<in> set ps. pre_heartwood (parts_upgrade net p)) \<longleftrightarrow> (\<forall>i < length ps. h + i < a)"
    using heights a(1) net by (auto simp: pre_heartwood_at all_set_conv_all_nth)
  also have "\<dots> \<longleftrightarrow> a = h + length ps"
  proof
    assume *: "\<forall>i < length ps. h + i < a"
    show "a = h + length ps"
      using a(2,3) spec [OF *, of "length ps - 1"] by (cases "length ps") auto
  qed auto
  finally show ?thesis using chain_root_None_iff [OF r] by simp
qed

definition required_commitment :: "hasher \<Rightarrow> network \<Rightarrow> bytes option \<Rightarrow> height \<Rightarrow> bytes \<Rightarrow> bytes" where
  "required_commitment blake2b net root h auth =
     (let r = case_option (replicate 32 0) id root in
      if upgrade_at net h \<in> {Heartwood, Canopy} then r
      else blake2b (map (\<lambda>c. word_of_nat (of_char c)) ''ZcashBlockCommit'') (r @ auth @ replicate 32 0))"

text \<open>
  C7. The commitment check of the block that follows a chain, from Heartwood on, never panics and accepts exactly
  one value of the commitment field: the root of the chain before the block up to Canopy, and from NU5 on the
  hash of that root and of the root of the block's authorizing data. At the Heartwood activation, where there is
  no earlier root, zeroes take its place.
\<close>

theorem block_commitment_exact:
  assumes "valid_network net" "good_hashes H" "chain_parts h ps"
    and "activation_height Heartwood net = Some a" "h \<le> a" "a \<le> h + length ps"
    and "push_all H net ps None = Some (Ok ht)" "chain_history_root H net ps = Ok root"
    and "auth_data_root (snd H) digests = Ok auth" "precomputed \<in> {None, Some auth}"
  shows "let res = block_commitment_is_valid_for_chain_history H sapling_root net hdr (h + length ps) digests precomputed ht in
    (res = Ok () \<longleftrightarrow> hd_commitment_bytes hdr = required_commitment (snd H) net root (h + length ps) auth) \<and> res \<noteq> Panic"
proof -
  let ?h = "h + length ps" and ?bs = "hd_commitment_bytes hdr"
  have cov: "history_covers H net ps ht" using push_all_covers [OF assms(1,2) _ assms(3)] assms(4,5,7) by auto
  have hash: "history_hash H ht = (Ok root :: (commitment_error, _) res)"
    using covers_root [OF assms(1-3) cov] assms(8) by auto
  have none: "root = None \<longleftrightarrow> a = ?h" using root_at_activation [OF assms(1,3) hash cov assms(4-6)] .
  have commitment: "header_commitment sapling_root hdr net ?h =
      (if upgrade_at net ?h \<in> {Heartwood, Canopy} then
         if a = ?h then activation_reserved ?bs else Ok (ChainHistoryRoot ?bs)
       else Ok (ChainHistoryBlockTxAuthCommitment ?bs))"
    using heartwood_commitment [OF assms(1,4,6)] .
  have auth: "(case precomputed of Some r \<Rightarrow> Ok r | None \<Rightarrow> expect_ok (auth_data_root (snd H) digests)) =
      (Ok auth :: (commitment_error, _) res)"
    using assms(9,10) by auto
  have hashed: "from_commitments (snd H) r auth =
      (Ok (snd H (map (\<lambda>c. word_of_nat (of_char c)) ''ZcashBlockCommit'') (r @ auth @ replicate 32 0)) :: (commitment_error, _) res)" for r
    using assms(2) by (simp add: from_commitments_def Let_def good_hashes_def digest_32_def)
  show ?thesis
  proof (cases root)
    case None
    then show ?thesis
      using none assms(4)
      by (simp add: block_commitment_is_valid_for_chain_history_def commitment hash auth hashed required_commitment_def Let_def
          activation_reserved_def CHAIN_HISTORY_ACTIVATION_RESERVED_def)
  next
    case (Some r)
    then show ?thesis
      using none
      by (simp add: block_commitment_is_valid_for_chain_history_def commitment hash auth hashed required_commitment_def Let_def)
  qed
qed

text \<open>A chain of three blocks around the Heartwood activation.\<close>

definition example_parts :: "height \<Rightarrow> history_parts" where
  "example_parts h =
     \<lparr>hp_header = example_header, hp_height = h, hp_sapling_root = replicate 32 6, hp_orchard_root = replicate 32 7,
      hp_ironwood_root = replicate 32 8, hp_sapling_tx = 1, hp_orchard_tx = 2, hp_ironwood_tx = 3\<rparr>"

definition example_hashes :: hashes where
  "example_hashes = (zero_sha256, \<lambda>_ _. replicate 32 0)"

lemma example_work: "to_work (hd_difficulty_threshold example_header) = Ok (Some 8192)"
  by (simp add: example_header_def to_work_eq compact_value_def)

lemma example_chain: "chain_parts 902999 (map example_parts [902999, 903000, 903001])"
proof -
  have h: "valid_header example_header"
    by (simp add: valid_header_def example_header_def in_u32_def valid_solution_def solution_sizes)
  have v: "valid_parts (example_parts k)" if "k \<le> 1000000" for k
    using that h
    by (simp add: valid_parts_def example_parts_def in_u64_def MAX_HEIGHT_def example_work) (simp add: example_header_def)
  have "parts_total i (example_parts k) \<le> 8192" for i k
    by (simp add: parts_total_def parts_work_def example_parts_def example_work)
  then have "parts_total i (example_parts a) + (parts_total i (example_parts b) + parts_total i (example_parts c)) \<le>
      8192 + (8192 + 8192)" for i a b c
    by (intro add_mono)
  moreover have "8192 + (8192 + 8192) < total_cap i" for i by (simp add: total_cap_def)
  ultimately have "parts_total i (example_parts a) + (parts_total i (example_parts b) + parts_total i (example_parts c)) <
      total_cap i" for i a b c
    by (rule le_less_trans)
  moreover have "hp_height (map example_parts [902999, 903000, 903001] ! i) = 902999 + i" if "i < 3" for i
  proof -
    have "i = 0 \<or> i = 1 \<or> i = 2" using that by auto
    then show ?thesis by (auto simp: example_parts_def)
  qed
  ultimately show ?thesis using v by (simp add: chain_parts_def)
qed

lemma example_hashes_good: "good_hashes example_hashes"
  by (simp add: good_hashes_def example_hashes_def sha256_32_def zero_sha256_def digest_32_def)

lemma example_heartwood: "activation_height Heartwood Mainnet = Some 903000"
  by (simp add: mainnet.activation_height_find activation_map_def MAINNET_ACTIVATION_HEIGHTS_def nu_order)

lemma example_mainnet: "valid_network Mainnet"
  by (simp add: valid_network_def)

lemmas example_facts = example_mainnet example_hashes_good example_chain example_heartwood

theorem history_push_refines_witness:
  "\<exists>ht r. push_all example_hashes Mainnet (map example_parts [902999, 903000, 903001]) None = Some (Ok ht) \<and>
     history_hash example_hashes ht = (Ok (Some r) :: (unit, _) res)"
proof -
  let ?ps = "map example_parts [902999, 903000, 903001]"
  obtain ht r where r: "push_all example_hashes Mainnet ?ps None = Some (Ok ht)"
    "history_hash example_hashes ht = (Ok r :: (unit, _) res)"
    "r = None \<longleftrightarrow> (\<forall>p \<in> set ?ps. \<forall>a. activation_height Heartwood Mainnet = Some a \<longrightarrow> hp_height p < a)"
    using history_push_refines [OF example_facts(1-3), where 'e = unit] example_facts(4) by auto
  have "r \<noteq> None" unfolding r(3) by (simp add: example_facts(4)) (simp add: example_parts_def)
  then show ?thesis using r(1,2) by auto
qed

theorem history_cache_roundtrip_witness:
  "\<exists>t. push_all example_hashes Mainnet (map example_parts [902999, 903000, 903001]) None = Some (Ok (Some t)) \<and>
     from_cache example_hashes Mainnet (nh_size t) (nh_peaks t) (nh_current_height t) = Ok t \<and>
     clone example_hashes t = (Ok t :: (unit, _) res)"
proof -
  let ?ps = "map example_parts [902999, 903000, 903001]"
  obtain ht where ht: "push_all example_hashes Mainnet ?ps None = Some (Ok ht)" "history_covers example_hashes Mainnet ?ps ht"
    using push_all_covers [OF example_facts(1,2) _ example_facts(3)] example_facts(4) by auto
  have "\<not> pre_heartwood (parts_upgrade Mainnet (example_parts 903001))"
    by (simp add: pre_heartwood_at example_facts) (simp add: example_parts_def)
  then obtain t where "ht = Some t" using ht(2) by (cases ht) (auto simp: history_covers_def)
  then show ?thesis
    using history_cache_roundtrip [OF example_facts(1-3), of t, where 'e = unit] ht(1) example_facts(4) by auto
qed

theorem block_commitment_exact_witness:
  "\<exists>ht bs. push_all example_hashes Mainnet (map example_parts [902999, 903000, 903001]) None = Some (Ok ht) \<and>
     block_commitment_is_valid_for_chain_history example_hashes (\<lambda>_. True) Mainnet
       (example_header\<lparr>hd_commitment_bytes := bs\<rparr>) 903002 [] None ht = Ok ()"
proof -
  let ?ps = "map example_parts [902999, 903000, 903001]"
  obtain ht where ht: "push_all example_hashes Mainnet ?ps None = Some (Ok ht)" "history_covers example_hashes Mainnet ?ps ht"
    using push_all_covers [OF example_facts(1,2) _ example_facts(3)] example_facts(4) by auto
  obtain root where root: "chain_history_root example_hashes Mainnet ?ps = Ok root"
    using covers_root [OF example_facts(1-3) ht(2)] by blast
  obtain auth where auth: "auth_data_root (snd example_hashes) [] = Ok auth"
    using auth_data_root_eq [of "snd example_hashes" "[]"] example_facts(2) by (auto simp: good_hashes_def)
  let ?hdr = "example_header\<lparr>hd_commitment_bytes := required_commitment (snd example_hashes) Mainnet root 903002 auth\<rparr>"
  have "block_commitment_is_valid_for_chain_history example_hashes (\<lambda>_. True) Mainnet ?hdr 903002 [] None ht = Ok ()"
    using block_commitment_exact [OF example_facts(1-4) _ _ ht(1) root auth, of None "\<lambda>_. True" ?hdr]
    by (simp add: Let_def)
  then show ?thesis using ht(1) by blast
qed

text \<open>
  C21. The walk over the peaks ends without an arithmetic panic: for the array of any Merkle mountain range of
  fewer than \<open>2 ^ 32 - 1\<close> nodes it returns exactly the positions at which the peaks of the range are stored, from left
  to right.
\<close>

theorem peak_positions_exact:
  assumes "list_all2 perfect ks ts" "sorted_wrt (>) ks" "ts \<noteq> []" "offs ts + 1 < 2 ^ 32"
  shows "peak_positions (offs ts) = Ok (map fst (peak_entries 0 ts))"
  using peak_positions_tops [OF assms(2)] peak_tops_eq [OF assms(1), of 0] assms by auto

theorem peak_positions_exact_witness: "peak_positions 4 = Ok [2, 3]"
proof -
  have "peak_positions (Suc (Suc (Suc (Suc 0)))) = Ok [Suc (Suc 0), Suc (Suc (Suc 0))]"
    using peak_positions_exact [of "[1, 0]" "[MNode (0::nat) (MLeaf 0) (MLeaf 0), MLeaf 0]"]
    by (simp add: offs_def mt_top_def)
  then show ?thesis by (simp add: eval_nat_numeral)
qed

end
