(* ===== verification/Value_Balance.thy ===== *)
theory Value_Balance
  imports Issuance
begin

text \<open>
  The value pools of the chain (\<open>crates/zakura-chain/src/value_balance.rs\<close>): a balance holds an amount for each
  pool and the balance of the network sustainability mechanism, which may be negative whatever the constraint of
  the pools is. The constraint of \<open>ValueBalance<C>\<close> is an argument where an operation validates against it.
  \<open>valid_pools\<close> is what a chain keeps of its pools: every pool is non-negative and together they hold at most
  \<open>MAX_MONEY\<close>. The operations that only exist in test builds (applying a transaction or an input to the pools,
  populated examples) are left out.
\<close>

section \<open>Balances and errors\<close>

record value_balance =
  vb_transparent :: amount
  vb_sprout :: amount
  vb_sapling :: amount
  vb_orchard :: amount
  vb_deferred :: amount
  vb_ironwood :: amount
  vb_nsm :: amount

datatype value_balance_error =
    TransparentError amount_error
  | SproutError amount_error
  | SaplingError amount_error
  | OrchardError amount_error
  | DeferredError amount_error
  | IronwoodError amount_error
  | NsmValueBalanceError amount_error
  | NsmSeedMismatch amount amount
  | ScheduledIssuanceError subsidy_error
  | MissingCoinbaseHeight
  | TotalError amount_error
  | Unparsable

type_synonym 'a balance_res = "(value_balance_error, 'a) res"

definition vb_zero :: value_balance where
  "vb_zero =
     \<lparr>vb_transparent = 0, vb_sprout = 0, vb_sapling = 0, vb_orchard = 0, vb_deferred = 0, vb_ironwood = 0, vb_nsm = 0\<rparr>"

definition from_transparent_amount :: "amount \<Rightarrow> value_balance" where
  "from_transparent_amount a = vb_zero\<lparr>vb_transparent := a\<rparr>"

definition from_sprout_amount :: "amount \<Rightarrow> value_balance" where
  "from_sprout_amount a = vb_zero\<lparr>vb_sprout := a\<rparr>"

definition from_sapling_amount :: "amount \<Rightarrow> value_balance" where
  "from_sapling_amount a = vb_zero\<lparr>vb_sapling := a\<rparr>"

definition from_orchard_amount :: "amount \<Rightarrow> value_balance" where
  "from_orchard_amount a = vb_zero\<lparr>vb_orchard := a\<rparr>"

definition from_ironwood_amount :: "amount \<Rightarrow> value_balance" where
  "from_ironwood_amount a = vb_zero\<lparr>vb_ironwood := a\<rparr>"

section \<open>Setting one pool\<close>

definition set_transparent_value_balance :: "value_balance \<Rightarrow> value_balance \<Rightarrow> value_balance" where
  "set_transparent_value_balance b v = v\<lparr>vb_transparent := vb_transparent b\<rparr>"

definition set_sprout_value_balance :: "value_balance \<Rightarrow> value_balance \<Rightarrow> value_balance" where
  "set_sprout_value_balance b v = v\<lparr>vb_sprout := vb_sprout b\<rparr>"

definition set_sapling_value_balance :: "value_balance \<Rightarrow> value_balance \<Rightarrow> value_balance" where
  "set_sapling_value_balance b v = v\<lparr>vb_sapling := vb_sapling b\<rparr>"

definition set_orchard_value_balance :: "value_balance \<Rightarrow> value_balance \<Rightarrow> value_balance" where
  "set_orchard_value_balance b v = v\<lparr>vb_orchard := vb_orchard b\<rparr>"

definition set_deferred_amount :: "amount \<Rightarrow> value_balance \<Rightarrow> value_balance" where
  "set_deferred_amount a v = v\<lparr>vb_deferred := a\<rparr>"

definition set_ironwood_value_balance :: "value_balance \<Rightarrow> value_balance \<Rightarrow> value_balance" where
  "set_ironwood_value_balance b v = v\<lparr>vb_ironwood := vb_ironwood b\<rparr>"

definition set_nsm_value_balance_amount :: "amount \<Rightarrow> value_balance \<Rightarrow> value_balance" where
  "set_nsm_value_balance_amount a v = v\<lparr>vb_nsm := a\<rparr>"

section \<open>Arithmetic\<close>

text \<open>The fallible operations work through the pools in the order of the fields and stop at the first error.\<close>

definition build_balance ::
  "amount amount_res \<Rightarrow> amount amount_res \<Rightarrow> amount amount_res \<Rightarrow> amount amount_res \<Rightarrow> amount amount_res \<Rightarrow>
   amount amount_res \<Rightarrow> amount amount_res \<Rightarrow> value_balance balance_res" where
  "build_balance transparent sprout sapling orchard deferred ironwood nsm =
     bindr (map_err TransparentError transparent) (\<lambda>a.
     bindr (map_err SproutError sprout) (\<lambda>b.
     bindr (map_err SaplingError sapling) (\<lambda>c.
     bindr (map_err OrchardError orchard) (\<lambda>d.
     bindr (map_err DeferredError deferred) (\<lambda>e.
     bindr (map_err IronwoodError ironwood) (\<lambda>f.
     bindr (map_err NsmValueBalanceError nsm) (\<lambda>g.
     Ok \<lparr>vb_transparent = a, vb_sprout = b, vb_sapling = c, vb_orchard = d, vb_deferred = e, vb_ironwood = f,
         vb_nsm = g\<rparr>)))))))"

definition vb_constrain :: "constraint \<Rightarrow> value_balance \<Rightarrow> value_balance balance_res" where
  "vb_constrain C2 v =
     build_balance (amount_constrain C2 (vb_transparent v)) (amount_constrain C2 (vb_sprout v))
       (amount_constrain C2 (vb_sapling v)) (amount_constrain C2 (vb_orchard v))
       (amount_constrain C2 (vb_deferred v)) (amount_constrain C2 (vb_ironwood v)) (Ok (vb_nsm v))"

definition vb_add :: "constraint \<Rightarrow> value_balance \<Rightarrow> value_balance \<Rightarrow> value_balance balance_res" where
  "vb_add C v w =
     build_balance (amount_add C (vb_transparent v) (vb_transparent w)) (amount_add C (vb_sprout v) (vb_sprout w))
       (amount_add C (vb_sapling v) (vb_sapling w)) (amount_add C (vb_orchard v) (vb_orchard w))
       (amount_add C (vb_deferred v) (vb_deferred w)) (amount_add C (vb_ironwood v) (vb_ironwood w))
       (amount_add NegativeAllowed (vb_nsm v) (vb_nsm w))"

definition vb_sub :: "constraint \<Rightarrow> value_balance \<Rightarrow> value_balance \<Rightarrow> value_balance balance_res" where
  "vb_sub C v w =
     build_balance (amount_sub C (vb_transparent v) (vb_transparent w)) (amount_sub C (vb_sprout v) (vb_sprout w))
       (amount_sub C (vb_sapling v) (vb_sapling w)) (amount_sub C (vb_orchard v) (vb_orchard w))
       (amount_sub C (vb_deferred v) (vb_deferred w)) (amount_sub C (vb_ironwood v) (vb_ironwood w))
       (amount_sub NegativeAllowed (vb_nsm v) (vb_nsm w))"

definition vb_sum :: "constraint \<Rightarrow> value_balance list \<Rightarrow> value_balance balance_res" where
  "vb_sum C vs = try_fold (vb_add C) vb_zero vs"

definition vb_neg :: "value_balance \<Rightarrow> ('e, value_balance) res" where
  "vb_neg v =
     bindr (amount_neg (vb_transparent v)) (\<lambda>a.
     bindr (amount_neg (vb_sprout v)) (\<lambda>b.
     bindr (amount_neg (vb_sapling v)) (\<lambda>c.
     bindr (amount_neg (vb_orchard v)) (\<lambda>d.
     bindr (amount_neg (vb_deferred v)) (\<lambda>e.
     bindr (amount_neg (vb_ironwood v)) (\<lambda>f.
     bindr (amount_neg (vb_nsm v)) (\<lambda>g.
     Ok \<lparr>vb_transparent = a, vb_sprout = b, vb_sapling = c, vb_orchard = d, vb_deferred = e, vb_ironwood = f,
         vb_nsm = g\<rparr>)))))))"

text \<open>The total of the pools; the sum of six \<open>i64\<close> values does not overflow an \<open>i128\<close>.\<close>

definition vb_total :: "constraint \<Rightarrow> value_balance \<Rightarrow> amount amount_res" where
  "vb_total C v =
     amount_try_from_i128 C
       (sum_list [vb_transparent v, vb_sprout v, vb_sapling v, vb_orchard v, vb_deferred v, vb_ironwood v])"

definition remaining_transaction_value :: "value_balance \<Rightarrow> amount amount_res" where
  "remaining_transaction_value v =
     bindr
       (foldl (res_add NegativeAllowed) (amount_add NegativeAllowed (vb_transparent v) (vb_sprout v))
         [vb_sapling v, vb_orchard v, vb_ironwood v])
       (amount_constrain NonNegative)"

section \<open>The pools of a chain\<close>

definition add_chain_value_pool_change :: "value_balance \<Rightarrow> value_balance \<Rightarrow> value_balance balance_res" where
  "add_chain_value_pool_change v change =
     bindr (expect_ok (vb_constrain NegativeAllowed v)) (\<lambda>pool.
     bindr (vb_add NegativeAllowed pool change) (\<lambda>pool.
     bindr (vb_constrain NonNegative pool) (\<lambda>pool.
     bindr (map_err TotalError (vb_total NonNegative pool)) (\<lambda>_.
     Ok pool))))"

text \<open>The seed of the sustainability balance: what was scheduled and not issued.\<close>

definition derived_nsm_seed :: "bool \<Rightarrow> height \<Rightarrow> network \<Rightarrow> value_balance \<Rightarrow> amount balance_res" where
  "derived_nsm_seed public h net v =
     bindr (map_err ScheduledIssuanceError (scheduled_issuance_zatoshis h net)) (\<lambda>scheduled.
     if \<not> in_i128 (int scheduled) then Err (ScheduledIssuanceError SubsidyOverflow)
     else
       bindr (map_err TotalError (vb_total NonNegative v)) (\<lambda>issued.
       if \<not> in_i64 (int scheduled - issued) then Err (ScheduledIssuanceError SubsidyOverflow)
       else
         bindr (map_err NsmValueBalanceError (amount_try_from_i64 NonNegative (int scheduled - issued))) (\<lambda>seed.
         if public \<and> seed \<noteq> initial_nsm_value_balance net then
           Err (NsmSeedMismatch seed (initial_nsm_value_balance net))
         else Ok seed)))"

definition vb_initial_nsm_value_balance :: "height \<Rightarrow> network \<Rightarrow> value_balance \<Rightarrow> amount balance_res" where
  "vb_initial_nsm_value_balance h net v =
     (case net of
        Mainnet \<Rightarrow> derived_nsm_seed True h net v
      | Testnet params \<Rightarrow>
          if params_is_default_testnet params then derived_nsm_seed True h net v
          else
            (case p_initial_nsm_value_balance params of
               Some seed \<Rightarrow> Ok seed
             | None \<Rightarrow> derived_nsm_seed False h net v))"

definition seed_nsm_value_balance :: "height \<Rightarrow> network \<Rightarrow> value_balance \<Rightarrow> value_balance balance_res" where
  "seed_nsm_value_balance h net v =
     (if Option.bind (activation_height Nu7 net) (\<lambda>a. u_checked_sub a 1) = Some h then
        bindr (vb_initial_nsm_value_balance h net v) (\<lambda>seed.
        bindr (map_err NsmValueBalanceError (amount_constrain NegativeAllowed seed)) (\<lambda>a.
        Ok (v\<lparr>vb_nsm := a\<rparr>)))
      else Ok v)"

definition issued_supply :: "value_balance \<Rightarrow> ('e, amount) res" where
  "issued_supply v =
     expect_ok (foldl (res_add NonNegative) (amount_add NonNegative (vb_transparent v) (vb_sprout v))
       [vb_sapling v, vb_orchard v, vb_ironwood v, vb_deferred v])"

definition money_reserve :: "value_balance \<Rightarrow> ('e, amount) res" where
  "money_reserve v =
     bindr (expect_ok (amount_try_from_i64 NonNegative MAX_MONEY)) (\<lambda>max_money.
     bindr (issued_supply v) (\<lambda>issued.
     expect_ok (amount_sub NonNegative max_money issued)))"

section \<open>The stored form\<close>

definition vb_to_bytes :: "value_balance \<Rightarrow> byte list" where
  "vb_to_bytes v =
     concat (map amount_to_bytes
       [vb_transparent v, vb_sprout v, vb_sapling v, vb_orchard v, vb_deferred v, vb_ironwood v, vb_nsm v])"

text \<open>The field at an offset, or zero where the stored form is older and ends before the field.\<close>

definition field_at :: "constraint \<Rightarrow> byte list \<Rightarrow> nat \<Rightarrow> amount amount_res" where
  "field_at C bs off = (if off < length bs then amount_from_bytes C (take 8 (drop off bs)) else amount_zero C)"

definition vb_from_bytes :: "byte list \<Rightarrow> value_balance balance_res" where
  "vb_from_bytes bs =
     (if length bs \<notin> {32, 40, 48, 56} then Err Unparsable
      else
        build_balance (field_at NonNegative bs 0) (field_at NonNegative bs 8) (field_at NonNegative bs 16)
          (field_at NonNegative bs 24) (field_at NonNegative bs 32) (field_at NonNegative bs 40)
          (field_at NegativeAllowed bs 48))"

section \<open>Balances that satisfy their constraint\<close>

definition pools :: "value_balance \<Rightarrow> amount list" where
  "pools v = [vb_transparent v, vb_sprout v, vb_sapling v, vb_orchard v, vb_deferred v, vb_ironwood v]"

definition valid_balance :: "constraint \<Rightarrow> value_balance \<Rightarrow> bool" where
  "valid_balance C v \<longleftrightarrow> list_all (valid_amount C) (pools v) \<and> valid_amount NegativeAllowed (vb_nsm v)"

definition valid_pools :: "value_balance \<Rightarrow> bool" where
  "valid_pools v \<longleftrightarrow> valid_balance NonNegative v \<and> sum_list (pools v) \<le> MAX_MONEY"

definition vb_plus :: "value_balance \<Rightarrow> value_balance \<Rightarrow> value_balance" where
  "vb_plus v w =
     \<lparr>vb_transparent = vb_transparent v + vb_transparent w, vb_sprout = vb_sprout v + vb_sprout w,
      vb_sapling = vb_sapling v + vb_sapling w, vb_orchard = vb_orchard v + vb_orchard w,
      vb_deferred = vb_deferred v + vb_deferred w, vb_ironwood = vb_ironwood v + vb_ironwood w,
      vb_nsm = vb_nsm v + vb_nsm w\<rparr>"

lemma valid_zero: "valid_pools vb_zero"
  by (simp add: valid_pools_def valid_balance_def pools_def vb_zero_def amt.zero_in_range less_imp_le)

lemma total_plus: "sum_list (pools (vb_plus v w)) = sum_list (pools v) + sum_list (pools w)"
  by (simp add: pools_def vb_plus_def)

lemma build_balance_Ok:
  "build_balance (Ok a) (Ok b) (Ok c) (Ok d) (Ok e) (Ok f) (Ok g) =
     Ok \<lparr>vb_transparent = a, vb_sprout = b, vb_sapling = c, vb_orchard = d, vb_deferred = e, vb_ironwood = f, vb_nsm = g\<rparr>"
  by (simp add: build_balance_def)

lemma build_balance_eq_Ok:
  "build_balance ra rb rc rd re rf rg = Ok v \<longleftrightarrow>
     ra = Ok (vb_transparent v) \<and> rb = Ok (vb_sprout v) \<and> rc = Ok (vb_sapling v) \<and> rd = Ok (vb_orchard v) \<and>
     re = Ok (vb_deferred v) \<and> rf = Ok (vb_ironwood v) \<and> rg = Ok (vb_nsm v)"
  by (auto simp: build_balance_def bindr_eq_Ok map_err_eq_Ok)

lemma build_balance_no_panic:
  "ra \<noteq> Panic \<Longrightarrow> rb \<noteq> Panic \<Longrightarrow> rc \<noteq> Panic \<Longrightarrow> rd \<noteq> Panic \<Longrightarrow> re \<noteq> Panic \<Longrightarrow> rf \<noteq> Panic \<Longrightarrow> rg \<noteq> Panic \<Longrightarrow>
   build_balance ra rb rc rd re rf rg \<noteq> Panic"
  by (auto simp: build_balance_def bindr_eq_Panic map_err_eq_Panic)

lemma vb_constrain_eq_Ok:
  "valid_amount NegativeAllowed (vb_nsm v) \<Longrightarrow> vb_constrain C v = Ok w \<longleftrightarrow> w = v \<and> valid_balance C v"
  by (auto simp: vb_constrain_def build_balance_eq_Ok amount_constrain_def amount_try_from_i64_def valid_balance_def pools_def)

lemma vb_constrain_no_panic: "vb_constrain C v \<noteq> Panic"
  by (simp add: vb_constrain_def amount_constrain_def amount_try_from_i64_def build_balance_no_panic)

lemma vb_add_eq:
  assumes "valid_balance C v" "valid_balance C w"
  shows "vb_add C v w = Ok u \<longleftrightarrow> u = vb_plus v w \<and> valid_balance C u" "vb_add C v w \<noteq> Panic"
  using assms
  by (auto simp: vb_add_def valid_balance_def pools_def amt.add_eq build_balance_eq_Ok vb_plus_def build_balance_no_panic)

lemma vb_sub_eq:
  assumes "valid_balance C v" "valid_balance C w"
  shows "vb_sub C v w = Ok u \<longleftrightarrow> vb_plus u w = v \<and> valid_balance C u" "vb_sub C v w \<noteq> Panic"
  using assms
  by (auto simp: vb_sub_def valid_balance_def pools_def amt.sub_eq build_balance_eq_Ok vb_plus_def build_balance_no_panic)

lemma valid_neg: "valid_amount C a \<Longrightarrow> valid_amount NegativeAllowed (- a)"
  using valid_NegativeAllowedI [of C a] by (simp add: valid_NegativeAllowed)

lemma vb_neg_eq: "valid_balance C v \<Longrightarrow> \<exists>w. vb_neg v = Ok w \<and> vb_plus v w = vb_zero \<and> valid_balance NegativeAllowed w"
  by (simp add: vb_neg_def valid_balance_def pools_def amt.neg_eq [of C] amt.neg_eq [of NegativeAllowed] vb_plus_def
      vb_zero_def valid_neg [of C] valid_neg [of NegativeAllowed])

text \<open>A transaction's remaining value, when there is one, is what it takes out of the pools and leaves over.\<close>

lemma remaining_transaction_value_exact:
  assumes "valid_balance NegativeAllowed v" "remaining_transaction_value v = Ok a"
  shows "a = vb_transparent v + vb_sprout v + vb_sapling v + vb_orchard v + vb_ironwood v \<and> valid_amount NonNegative a"
  using assms
  by (auto simp: remaining_transaction_value_def res_add_def valid_balance_def pools_def amt.add_eq bindr_eq_Ok
      amount_constrain_def amount_try_from_i64_def)

lemma vb_total_eq: "vb_total C v = Ok a \<longleftrightarrow> a = sum_list (pools v) \<and> valid_amount C a" "vb_total C v \<noteq> Panic"
  by (auto simp: vb_total_def pools_def amt.try_from_i128_eq)

lemma add_change_eq:
  assumes v: "valid_pools v" and c: "valid_balance NegativeAllowed c"
  shows "add_chain_value_pool_change v c = Ok q \<longleftrightarrow> q = vb_plus v c \<and> valid_pools q"
    "add_chain_value_pool_change v c \<noteq> Panic"
proof -
  have v': "valid_balance NegativeAllowed v" "valid_amount NegativeAllowed (vb_nsm v)"
    using v by (auto simp: valid_pools_def valid_balance_def pools_def valid_NegativeAllowedI)
  then have start: "vb_constrain NegativeAllowed v = Ok v" by (simp add: vb_constrain_eq_Ok)
  note add = vb_add_eq [OF v'(1) c]
  have "valid_balance NegativeAllowed w" if "valid_balance NonNegative w" for w
    using that by (auto simp: valid_balance_def pools_def valid_NegativeAllowedI)
  moreover have "0 \<le> sum_list (pools w)" if "valid_balance NonNegative w" for w
    using that by (simp add: valid_balance_def pools_def valid_NonNegative)
  moreover have "valid_amount NegativeAllowed (vb_nsm w)" if "valid_balance C w" for w C
    using that by (simp add: valid_balance_def)
  ultimately show "add_chain_value_pool_change v c = Ok q \<longleftrightarrow> q = vb_plus v c \<and> valid_pools q"
    by (auto simp: add_chain_value_pool_change_def start bindr_eq_Ok add(1) vb_constrain_eq_Ok map_err_eq_Ok vb_total_eq
        valid_pools_def valid_NonNegative)
  show "add_chain_value_pool_change v c \<noteq> Panic"
    by (auto simp: add_chain_value_pool_change_def start bindr_eq_Panic add(2) vb_constrain_no_panic map_err_eq_Panic vb_total_eq)
qed

lemma issued_supply_eq: "valid_pools v \<Longrightarrow> issued_supply v = Ok (sum_list (pools v))"
  by (simp add: issued_supply_def valid_pools_def valid_balance_def pools_def valid_NonNegative res_add_def amt.add_eq validate_eq)

lemma money_reserve_eq:
  assumes "valid_pools v"
  shows "money_reserve v = Ok (MAX_MONEY - sum_list (pools v))"
proof -
  have "0 \<le> sum_list (pools v)" "sum_list (pools v) \<le> MAX_MONEY"
    using assms by (auto simp: valid_pools_def valid_balance_def pools_def valid_NonNegative)
  then show ?thesis
    by (simp add: money_reserve_def issued_supply_eq [OF assms] valid_NonNegative amount_try_from_i64_def
        validate_eq amt.sub_eq less_imp_le)
qed

lemma length_amount_to_bytes: "length (amount_to_bytes a) = 8"
  by (simp add: amount_to_bytes_def)

lemma from_to_bytes_older:
  assumes "valid_balance NonNegative v"
  shows "vb_from_bytes (vb_to_bytes v) = Ok v"
    "vb_from_bytes (take 48 (vb_to_bytes v)) = Ok (v\<lparr>vb_nsm := 0\<rparr>)"
    "vb_from_bytes (take 40 (vb_to_bytes v)) = Ok (v\<lparr>vb_nsm := 0, vb_ironwood := 0\<rparr>)"
    "vb_from_bytes (take 32 (vb_to_bytes v)) = Ok (v\<lparr>vb_nsm := 0, vb_ironwood := 0, vb_deferred := 0\<rparr>)"
  using assms
  by (simp_all add: vb_from_bytes_def field_at_def vb_to_bytes_def length_amount_to_bytes valid_balance_def pools_def
      amt.from_to_bytes amt.zero_Ok build_balance_Ok)

lemma from_bytes_valid_balance: "vb_from_bytes bs = Ok v \<Longrightarrow> valid_balance NonNegative v"
proof -
  have "valid_amount C a" if "field_at C bs off = Ok a" for C off a
    using that amt.from_bytes_valid amt.zero_in_range by (auto simp: field_at_def amt.zero_Ok split: if_splits)
  then show "vb_from_bytes bs = Ok v \<Longrightarrow> valid_balance NonNegative v"
    by (auto simp: vb_from_bytes_def build_balance_eq_Ok valid_balance_def pools_def split: if_splits)
qed

lemma seed_keeps_pools:
  assumes "valid_pools v" "seed_nsm_value_balance h net v = Ok w"
  shows "valid_pools w" "pools w = pools v"
  using assms
  by (auto simp: seed_nsm_value_balance_def bindr_eq_Ok map_err_eq_Ok amount_constrain_def amount_try_from_i64_def
      valid_pools_def valid_balance_def pools_def split: if_splits)

lemma all_le_Suc: "(\<forall>n \<le> Suc m. P n) \<longleftrightarrow> P 0 \<and> (\<forall>n \<le> m. P (Suc n))"
  by (metis Suc_le_mono le0 not0_implies_Suc)

lemma pool_changes_fold:
  assumes "valid_pools v" "list_all (valid_balance NegativeAllowed) cs"
  shows "try_fold add_chain_value_pool_change v cs \<noteq> Panic \<and>
    (try_fold add_chain_value_pool_change v cs = Ok q \<longleftrightarrow>
       q = foldl vb_plus v cs \<and> (\<forall>n \<le> length cs. valid_pools (foldl vb_plus v (take n cs))))"
  using assms
proof (induction cs arbitrary: v)
  case (Cons c cs)
  have prefixes: "(\<forall>n \<le> length (c # cs). valid_pools (foldl vb_plus v (take n (c # cs)))) \<longleftrightarrow>
      valid_pools (vb_plus v c) \<and> (\<forall>n \<le> length cs. valid_pools (foldl vb_plus (vb_plus v c) (take n cs)))"
    using Cons.prems(1) by (auto simp: all_le_Suc dest: spec [of _ 0])
  have c: "valid_balance NegativeAllowed c" using Cons.prems(2) by simp
  note add = add_change_eq [OF Cons.prems(1) c]
  show ?case
  proof (cases "valid_pools (vb_plus v c)")
    case True
    then have "add_chain_value_pool_change v c = Ok (vb_plus v c)" using add(1) by blast
    then show ?thesis using Cons.IH [OF True] Cons.prems(2) prefixes True by simp
  next
    case False
    then obtain e where "add_chain_value_pool_change v c = Err e"
      using add by (cases "add_chain_value_pool_change v c") (simp_all add: add(1))
    then have "try_fold add_chain_value_pool_change v (c # cs) = Err e" by simp
    moreover have "\<not> (\<forall>n \<le> length (c # cs). valid_pools (foldl vb_plus v (take n (c # cs))))"
      using False unfolding prefixes by blast
    ultimately show ?thesis by (metis res.distinct(1,5))
  qed
qed auto

section \<open>Property\<close>

text \<open>
  C4. The pools of a chain, built from empty pools by applying the changes of its blocks, are well formed:
  applying the changes never panics and succeeds exactly when after every block each pool is non-negative and
  the pools hold at most \<open>MAX_MONEY\<close> together. The result is the sum of the changes; the issued supply and the money
  reserve of the result do not panic, and add up to \<open>MAX_MONEY\<close>; storing the pools and reading them back gives the
  same pools, and seeding the sustainability balance leaves the pools as they are.
\<close>

theorem chain_value_pools_exact:
  assumes "list_all (valid_balance NegativeAllowed) cs"
  shows "try_fold add_chain_value_pool_change vb_zero cs \<noteq> Panic \<and>
    (try_fold add_chain_value_pool_change vb_zero cs = Ok q \<longleftrightarrow>
       q = foldl vb_plus vb_zero cs \<and> (\<forall>n \<le> length cs. valid_pools (foldl vb_plus vb_zero (take n cs)))) \<and>
    (try_fold add_chain_value_pool_change vb_zero cs = Ok q \<longrightarrow>
       valid_pools q \<and> issued_supply q = (Ok (sum_list (pools q)) :: ('e, _) res) \<and>
       money_reserve q = (Ok (MAX_MONEY - sum_list (pools q)) :: ('e, _) res) \<and>
       vb_from_bytes (vb_to_bytes q) = Ok q \<and>
       (\<forall>h net w. seed_nsm_value_balance h net q = Ok w \<longrightarrow> valid_pools w \<and> pools w = pools q))"
proof -
  have fold: "try_fold add_chain_value_pool_change vb_zero cs \<noteq> Panic"
    "try_fold add_chain_value_pool_change vb_zero cs = Ok q \<longleftrightarrow>
       q = foldl vb_plus vb_zero cs \<and> (\<forall>n \<le> length cs. valid_pools (foldl vb_plus vb_zero (take n cs)))"
    using pool_changes_fold [OF valid_zero assms] by blast+
  have valid: "valid_pools q" if "try_fold add_chain_value_pool_change vb_zero cs = Ok q"
    using that fold(2) by (metis order_refl take_all)
  show ?thesis
  proof (intro conjI impI fold)
    assume "try_fold add_chain_value_pool_change vb_zero cs = Ok q"
    then show q: "valid_pools q" by (rule valid)
    show "issued_supply q = Ok (sum_list (pools q))" "money_reserve q = Ok (MAX_MONEY - sum_list (pools q))"
      by (rule issued_supply_eq [OF q], rule money_reserve_eq [OF q])
    show "vb_from_bytes (vb_to_bytes q) = Ok q" using q by (simp add: valid_pools_def from_to_bytes_older(1))
    show "\<forall>h net w. seed_nsm_value_balance h net q = Ok w \<longrightarrow> valid_pools w \<and> pools w = pools q"
      using seed_keeps_pools [OF q] by blast
  qed
qed

theorem chain_value_pools_exact_witness:
  "let cs = [from_transparent_amount 1250000000, from_sapling_amount 700, from_transparent_amount (- 50)] in
   try_fold add_chain_value_pool_change vb_zero cs = Ok (foldl vb_plus vb_zero cs) \<and>
   issued_supply (foldl vb_plus vb_zero cs) = (Ok 1250000650 :: (unit, _) res)"
proof -
  let ?cs = "[from_transparent_amount 1250000000, from_sapling_amount 700, from_transparent_amount (- 50)]"
  have v: "list_all (valid_balance NegativeAllowed) ?cs"
    by (simp add: valid_balance_def pools_def from_transparent_amount_def from_sapling_amount_def vb_zero_def
        valid_NegativeAllowed MAX_MONEY_def COIN_def)
  have ok: "\<forall>n \<le> length ?cs. valid_pools (foldl vb_plus vb_zero (take n ?cs))"
    by (simp add: all_le_Suc)
      (simp add: valid_pools_def valid_balance_def pools_def from_transparent_amount_def from_sapling_amount_def
        vb_zero_def vb_plus_def valid_NegativeAllowed valid_NonNegative MAX_MONEY_def COIN_def)
  have "sum_list (pools (foldl vb_plus vb_zero ?cs)) = 1250000650"
    by (simp add: pools_def from_transparent_amount_def from_sapling_amount_def vb_zero_def vb_plus_def)
  then show ?thesis
    using chain_value_pools_exact [OF v, of "foldl vb_plus vb_zero ?cs", where 'e = unit] ok by (simp add: Let_def)
qed

end
