(* ===== verification/Adjusted_Difficulty.thy ===== *)
theory Adjusted_Difficulty
  imports Network
begin

text \<open>
  The difficulty and time rules that depend on the preceding blocks
  (\<open>crates/zakura-header-chain/src/validation/contextual\<close>). Header times are whole seconds, so a \<open>Duration\<close> is an
  integer number of seconds; dividing one and reading its seconds truncates towards zero, which is \<open>sdiv\<close>. Targets
  are 256-bit words as in \<open>Difficulty\<close>, and every addition, product and conversion that the code expects to succeed
  is a branch that panics. \<open>threshold_target\<close> is the rule of the protocol specification over unbounded integers.
\<close>

section \<open>Constants\<close>

definition POW_MEDIAN_BLOCK_SPAN :: nat where
  "POW_MEDIAN_BLOCK_SPAN = 11"

definition MAX_POW_ADJUSTMENT_BLOCK_SPAN :: nat where
  "MAX_POW_ADJUSTMENT_BLOCK_SPAN = MAX_POW_AVERAGING_WINDOW + POW_MEDIAN_BLOCK_SPAN"

definition pow_adjustment_block_span_for_height :: "network \<Rightarrow> height \<Rightarrow> ('e, nat) res" where
  "pow_adjustment_block_span_for_height net h =
     bindr (averaging_window_for_height net h) (\<lambda>w. Ok (w + POW_MEDIAN_BLOCK_SPAN))"

definition POW_DAMPING_FACTOR :: int where
  "POW_DAMPING_FACTOR = 4"

definition POW_MAX_ADJUST_UP_PERCENT :: int where
  "POW_MAX_ADJUST_UP_PERCENT = 16"

definition POW_MAX_ADJUST_DOWN_PERCENT :: int where
  "POW_MAX_ADJUST_DOWN_PERCENT = 32"

definition BLOCK_MAX_TIME_SINCE_MEDIAN :: int where
  "BLOCK_MAX_TIME_SINCE_MEDIAN = 90 * 60"

section \<open>The difficulty context\<close>

record adjusted_difficulty =
  ad_candidate_time :: int
  ad_candidate_height :: height
  ad_network :: network
  ad_thresholds :: "compact_difficulty list"
  ad_times :: "int list"

datatype adjusted_difficulty_error =
    NoCoinbaseHeight
  | GenesisBlock
  | HeightOverflow
  | ContextLength nat nat

definition new_from_header_time ::
  "int \<Rightarrow> height \<Rightarrow> network \<Rightarrow> (compact_difficulty \<times> int) list \<Rightarrow> (adjusted_difficulty_error, adjusted_difficulty) res" where
  "new_from_header_time candidate_time previous_height net context =
     bindr (height_add_diff previous_height 1) (\<lambda>next.
     bindr (ok_or HeightOverflow next) (\<lambda>candidate_height.
     let context = take (MAX_POW_ADJUSTMENT_BLOCK_SPAN + 1) context;
         thresholds = map fst context;
         block_times = map snd context in
     bindr (averaging_window_for_height net candidate_height) (\<lambda>window.
     let active_span = window + POW_MEDIAN_BLOCK_SPAN in
     if \<not> in_u32 active_span \<or> \<not> in_u32 MAX_POW_ADJUSTMENT_BLOCK_SPAN then Err HeightOverflow
     else
       let active_required = min candidate_height active_span;
           maximum_allowed = min candidate_height MAX_POW_ADJUSTMENT_BLOCK_SPAN in
       if length thresholds < active_required then Err (ContextLength active_required (length thresholds))
       else if maximum_allowed < length thresholds then Err (ContextLength maximum_allowed (length thresholds))
       else
         let thresholds = take active_required thresholds;
             block_times = take active_required block_times in
         if \<not> (1 \<le> length thresholds \<and> length thresholds \<le> MAX_POW_ADJUSTMENT_BLOCK_SPAN) then
           Err (ContextLength active_required (length thresholds))
         else if \<not> (1 \<le> length block_times \<and> length block_times \<le> MAX_POW_ADJUSTMENT_BLOCK_SPAN) then
           Err (ContextLength active_required (length thresholds))
         else
           Ok \<lparr>ad_candidate_time = candidate_time, ad_candidate_height = candidate_height, ad_network = net,
               ad_thresholds = thresholds, ad_times = block_times\<rparr>)))"

text \<open>The same from a block, given by its coinbase height and its header time.\<close>

definition new_from_block ::
  "height option \<Rightarrow> int \<Rightarrow> network \<Rightarrow> (compact_difficulty \<times> int) list \<Rightarrow>
   (adjusted_difficulty_error, adjusted_difficulty) res" where
  "new_from_block coinbase_height header_time net context =
     bindr (ok_or NoCoinbaseHeight coinbase_height) (\<lambda>h.
     bindr (height_sub_diff h 1) (\<lambda>previous.
     bindr (ok_or GenesisBlock previous) (\<lambda>previous_height.
     new_from_header_time header_time previous_height net context)))"

definition ad_averaging_window :: "adjusted_difficulty \<Rightarrow> ('e, nat) res" where
  "ad_averaging_window ad = averaging_window_for_height (ad_network ad) (ad_candidate_height ad)"

section \<open>Median times\<close>

definition median_time :: "int list \<Rightarrow> ('e, int) res" where
  "median_time ts =
     (let ordered = sort ts; median_idx = length ordered div 2 in
      if median_idx < length ordered then Ok (ordered ! median_idx) else Panic)"

definition median_time_past :: "adjusted_difficulty \<Rightarrow> ('e, int) res" where
  "median_time_past ad = median_time (take POW_MEDIAN_BLOCK_SPAN (ad_times ad))"

definition median_timespan :: "adjusted_difficulty \<Rightarrow> ('e, int) res" where
  "median_timespan ad =
     bindr (median_time_past ad) (\<lambda>newer_median.
     bindr (ad_averaging_window ad) (\<lambda>window.
     bindr
       (if window < length (ad_times ad) then median_time (take POW_MEDIAN_BLOCK_SPAN (drop window (ad_times ad)))
        else if ad_times ad = [] then Panic else Ok (last (ad_times ad))) (\<lambda>older_median.
     Ok (newer_median - older_median))))"

definition median_timespan_bounded :: "adjusted_difficulty \<Rightarrow> ('e, int) res" where
  "median_timespan_bounded ad =
     bindr (averaging_window_timespan_for_height (ad_network ad) (ad_candidate_height ad)) (\<lambda>timespan.
     bindr (median_timespan ad) (\<lambda>median.
     let damped_variance = (median - timespan) sdiv POW_DAMPING_FACTOR;
         median_timespan_damped = timespan + damped_variance;
         min_median_timespan = timespan * (100 - POW_MAX_ADJUST_UP_PERCENT) sdiv 100;
         max_median_timespan = timespan * (100 + POW_MAX_ADJUST_DOWN_PERCENT) sdiv 100 in
     Ok (max min_median_timespan (min max_median_timespan median_timespan_damped))))"

section \<open>The threshold\<close>

text \<open>\<open>U256::from\<close> of a signed number panics below zero.\<close>

definition u256_from_i64 :: "int \<Rightarrow> ('e, u256) res" where
  "u256_from_i64 x = (if 0 \<le> x then Ok (word_of_int x) else Panic)"

primrec mean_loop :: "u256 \<Rightarrow> compact_difficulty list \<Rightarrow> u256 \<Rightarrow> u256 \<Rightarrow> ('e, u256 \<times> u256) res" where
  "mean_loop divisor [] quotient_total remainder_total = Ok (quotient_total, remainder_total)"
| "mean_loop divisor (compact # rest) quotient_total remainder_total =
     bindr (to_expanded compact) (\<lambda>expanded.
     bindr (expect_some expanded) (\<lambda>target.
     bindr (u256_div target divisor) (\<lambda>quotient.
     bindr (expect_some (u256_checked_add quotient_total quotient)) (\<lambda>quotient_total'.
     bindr (expect_some (u256_checked_add remainder_total (target mod divisor))) (\<lambda>remainder_total'.
     mean_loop divisor rest quotient_total' remainder_total')))))"

definition mean_target_difficulty :: "adjusted_difficulty \<Rightarrow> ('e, expanded_difficulty) res" where
  "mean_target_difficulty ad =
     bindr (ad_averaging_window ad) (\<lambda>window.
     if length (ad_thresholds ad) < window then Panic
     else
       let divisor = word_of_nat window in
       bindr (mean_loop divisor (take window (ad_thresholds ad)) 0 0) (\<lambda>(quotient_total, remainder_total).
       bindr (u256_div remainder_total divisor) (\<lambda>rest.
       expect_some (u256_checked_add quotient_total rest))))"

definition threshold_bits :: "adjusted_difficulty \<Rightarrow> ('e, compact_difficulty) res" where
  "threshold_bits ad =
     bindr (ad_averaging_window ad) (\<lambda>window.
     if ad_candidate_height ad \<le> window then bindr (target_difficulty_limit (ad_network ad)) to_compact
     else
       bindr (averaging_window_timespan_for_height (ad_network ad) (ad_candidate_height ad)) (\<lambda>timespan.
       bindr (median_timespan_bounded ad) (\<lambda>bounded_timespan.
       bindr (mean_target_difficulty ad) (\<lambda>mean.
       bindr (bindr (u256_from_i64 timespan) (u256_div mean)) (\<lambda>scaled_mean.
       bindr (target_difficulty_limit (ad_network ad)) (\<lambda>target_limit.
       bindr (u256_from_i64 bounded_timespan) (\<lambda>bounded.
       bindr (u256_div target_limit bounded) (\<lambda>limit_share.
       bindr
         (if limit_share < scaled_mean then Ok target_limit
          else mapr (min target_limit) (u256_mul scaled_mean bounded)) to_compact))))))))"

definition expected_difficulty_threshold :: "adjusted_difficulty \<Rightarrow> ('e, compact_difficulty) res" where
  "expected_difficulty_threshold ad =
     (case ad_times ad of
        [] \<Rightarrow> Panic
      | previous_time # _ \<Rightarrow>
          bindr (is_testnet_min_difficulty_block (ad_network ad) (ad_candidate_height ad) (ad_candidate_time ad)
                   previous_time) (\<lambda>minimum.
          if minimum then
            bindr (assertr (is_a_test_network (ad_network ad))) (\<lambda>_.
            bindr (target_difficulty_limit (ad_network ad)) to_compact)
          else threshold_bits ad))"

section \<open>The contextual check\<close>

datatype contextual_validation_error =
    TimeTooEarly int int
  | TimeTooLate int int
  | InvalidDifficultyThreshold compact_difficulty compact_difficulty

definition validate_contextual_difficulty_and_time ::
  "compact_difficulty \<Rightarrow> adjusted_difficulty \<Rightarrow> (contextual_validation_error, unit) res" where
  "validate_contextual_difficulty_and_time threshold ad =
     (let h = ad_candidate_height ad; t = ad_candidate_time ad; net = ad_network ad in
      bindr (median_time_past ad) (\<lambda>mtp.
      let block_time_max = mtp + BLOCK_MAX_TIME_SINCE_MEDIAN in
      bindr (expect_some (activation_height Genesis net)) (\<lambda>genesis_height.
      if t \<le> mtp \<and> h \<noteq> genesis_height then Err (TimeTooEarly t mtp)
      else if h \<noteq> genesis_height \<and> \<not> (net = Mainnet \<and> h = 1) \<and> is_max_block_time_enforced net h \<and> block_time_max < t
      then Err (TimeTooLate t block_time_max)
      else if disable_pow net then
        bindr (to_work threshold) (\<lambda>work.
        if work = None then
          bindr (bindr (target_difficulty_limit net) to_compact) (\<lambda>expected.
          Err (InvalidDifficultyThreshold threshold expected))
        else Ok ())
      else
        bindr (expected_difficulty_threshold ad) (\<lambda>expected.
        if threshold \<noteq> expected then Err (InvalidDifficultyThreshold threshold expected) else Ok ()))))"

section \<open>The rule over unbounded integers\<close>

definition median_of :: "int list \<Rightarrow> int" where
  "median_of ts = sort ts ! (length ts div 2)"

definition bounded_timespan :: "int \<Rightarrow> nat \<Rightarrow> int list \<Rightarrow> int" where
  "bounded_timespan T w ts =
     (let actual = median_of (take 11 ts) - median_of (take 11 (drop w ts)) in
      max (T * 84 div 100) (min (T * 132 div 100) (T + (actual - T) sdiv 4)))"

definition minimum_difficulty :: "network \<Rightarrow> height \<Rightarrow> int \<Rightarrow> bool" where
  "minimum_difficulty net h gap \<longleftrightarrow>
     net \<noteq> Mainnet \<and> TESTNET_MINIMUM_DIFFICULTY_START_HEIGHT \<le> h \<and>
     target_spacing (upgrade_at net h) *
       (if Nu7 \<le> upgrade_at net h then POST_NU7_TESTNET_MINIMUM_DIFFICULTY_GAP_MULTIPLIER
        else PRE_NU7_TESTNET_MINIMUM_DIFFICULTY_GAP_MULTIPLIER) < gap"

definition threshold_target :: "network \<Rightarrow> height \<Rightarrow> int \<Rightarrow> nat \<Rightarrow> nat list \<Rightarrow> int list \<Rightarrow> nat" where
  "threshold_target net h t limit targets ts =
     (let w = averaging_window (upgrade_at net h); T = averaging_window_timespan (upgrade_at net h) in
      if minimum_difficulty net h (t - hd ts) \<or> h \<le> w then limit
      else min limit (sum_list (take w targets) div w div nat T * nat (bounded_timespan T w ts)))"

section \<open>Lemmas\<close>

lemma sum_div_mod:
  assumes "0 < (w :: nat)"
  shows "sum_list (map (\<lambda>v. v div w) vs) + sum_list (map (\<lambda>v. v mod w) vs) div w = sum_list vs div w"
proof -
  have "sum_list vs = w * sum_list (map (\<lambda>v. v div w) vs) + sum_list (map (\<lambda>v. v mod w) vs)"
    by (induction vs) (simp_all add: algebra_simps)
  then show ?thesis using assms by simp
qed

lemma sum_list_bound: "\<forall>x \<in> set xs. f x \<le> (b :: nat) \<Longrightarrow> sum_list (map f xs) \<le> length xs * b"
  by (induction xs) auto

lemma sum_list_lower: "\<forall>x \<in> set xs. (b :: nat) \<le> f x \<Longrightarrow> length xs * b \<le> sum_list (map f xs)"
  by (induction xs) auto

definition valid_target :: "compact_difficulty \<Rightarrow> bool" where
  "valid_target c \<longleftrightarrow> \<not> bit c 23 \<and> 0 < compact_value c \<and> compact_value c < 2 ^ 256"

lemma valid_target_expanded: "valid_target c \<Longrightarrow> to_expanded c = Ok (Some (word_of_nat (compact_value c)))"
  by (simp add: to_expanded_eq valid_target_def not_le)

lemma unat_target: "valid_target c \<Longrightarrow> unat (word_of_nat (compact_value c) :: u256) = compact_value c"
  by (simp add: valid_target_def u256_of_nat)

lemma mean_loop_eq:
  assumes "0 < w" "w < 2 ^ 256"
  shows "list_all valid_target cs \<Longrightarrow>
    unat q + sum_list (map (\<lambda>c. compact_value c div w) cs) < 2 ^ 256 \<Longrightarrow>
    unat r + sum_list (map (\<lambda>c. compact_value c mod w) cs) < 2 ^ 256 \<Longrightarrow>
    \<exists>q' r'. mean_loop (word_of_nat w) cs q r = Ok (q', r') \<and>
      unat q' = unat q + sum_list (map (\<lambda>c. compact_value c div w) cs) \<and>
      unat r' = unat r + sum_list (map (\<lambda>c. compact_value c mod w) cs)"
proof (induction cs arbitrary: q r)
  case (Cons c cs)
  let ?v = "word_of_nat (compact_value c) :: u256" and ?w = "word_of_nat w :: u256"
  have w: "unat ?w = w" "?w \<noteq> 0" using assms u256_of_nat [OF assms(2)] by auto
  have c: "valid_target c" using Cons.prems(1) by simp
  then have v: "unat ?v = compact_value c" by (rule unat_target)
  have dm: "unat (?v div ?w) = compact_value c div w" "unat (?v mod ?w) = compact_value c mod w"
    using v w(1) by (simp_all add: unat_div unat_mod)
  have add: "u256_checked_add q (?v div ?w) = Some (q + ?v div ?w)" "u256_checked_add r (?v mod ?w) = Some (r + ?v mod ?w)"
    using Cons.prems(2,3) dm by (simp_all add: u256_checked_add_def)
  have sums: "unat (q + ?v div ?w) = unat q + compact_value c div w" "unat (r + ?v mod ?w) = unat r + compact_value c mod w"
    using Cons.prems(2,3) dm by (simp_all add: unat_u256_add)
  then show ?case
    using Cons.IH [of "q + ?v div ?w" "r + ?v mod ?w"] Cons.prems add w(2)
    by (simp add: u256_div_def add.assoc valid_target_expanded [OF c])
qed simp

text \<open>The mean of a full window, computed without overflow.\<close>

lemma mean_target_eq:
  assumes w: "averaging_window_for_height (ad_network ad) (ad_candidate_height ad) = (Ok w :: ('e, _) res)"
    and wpos: "0 < w" "w < 2 ^ 32" "w \<le> length (ad_thresholds ad)"
    and cs: "list_all valid_target (ad_thresholds ad)"
  shows "mean_target_difficulty ad =
    (Ok (word_of_nat (sum_list (take w (map compact_value (ad_thresholds ad))) div w)) :: ('e, _) res)"
    "sum_list (take w (map compact_value (ad_thresholds ad))) div w < 2 ^ 256"
proof -
  let ?cs = "take w (ad_thresholds ad)" and ?w = "word_of_nat w :: u256"
  let ?vs = "map compact_value ?cs"
  let ?Q = "sum_list (map (\<lambda>c. compact_value c div w) ?cs)" and ?R = "sum_list (map (\<lambda>c. compact_value c mod w) ?cs)"
  have W: "w < 2 ^ 256" using wpos(2) by simp
  have cs': "list_all valid_target ?cs" using cs by (simp add: list_all_iff) (meson in_set_takeD)
  have total: "?Q + ?R div w = sum_list ?vs div w"
    using sum_div_mod [OF wpos(1), of ?vs] by (simp add: comp_def)
  have len: "length ?cs = w" using wpos(3) by simp
  have "sum_list ?vs \<le> w * (2 ^ 256 - 1)"
    using sum_list_bound [of ?cs compact_value "2 ^ 256 - 1"] cs' len by (fastforce simp: list_all_iff valid_target_def)
  then have "sum_list ?vs div w \<le> 2 ^ 256 - 1"
    using div_le_mono [of "sum_list ?vs" "w * (2 ^ 256 - 1)" w] wpos(1) by simp
  then have small: "sum_list ?vs div w < 2 ^ 256" by simp
  have "?R \<le> w * w" using sum_list_bound [of ?cs "\<lambda>c. compact_value c mod w" w] len wpos(1) by (simp add: less_imp_le)
  also have "\<dots> < 2 ^ 32 * 2 ^ 32" using wpos(1,2) by (intro mult_strict_mono) auto
  finally have R: "?R < 2 ^ 256" by simp
  obtain q r where qr: "mean_loop ?w ?cs 0 0 = (Ok (q, r) :: ('e, _) res)" "unat q = ?Q" "unat r = ?R"
    using mean_loop_eq [OF wpos(1) W cs', of 0 0] R small total by auto
  have uw: "unat ?w = w" "?w \<noteq> 0" using wpos(1) u256_of_nat [OF W] by auto
  have "unat q + unat (r div ?w) = sum_list ?vs div w" using qr(2,3) total uw(1) by (simp add: unat_div)
  then have "u256_checked_add q (r div ?w) = Some (word_of_nat (sum_list ?vs div w))"
    using small by (simp add: u256_checked_add_def word_unat_eq_iff unat_u256_add u256_of_nat del: unat_lt_256_num)
  then show "mean_target_difficulty ad =
      (Ok (word_of_nat (sum_list (take w (map compact_value (ad_thresholds ad))) div w)) :: ('e, _) res)"
    using w wpos(3) qr(1) uw(2) by (simp add: mean_target_difficulty_def ad_averaging_window_def Let_def u256_div_def take_map)
  show "sum_list (take w (map compact_value (ad_thresholds ad))) div w < 2 ^ 256" using small by (simp only: take_map)
qed

lemma bounded_pos:
  "T \<in> {2550, 1275} \<Longrightarrow> 0 < bounded_timespan T w ts \<and> bounded_timespan T w ts < 2 ^ 32"
  by (auto simp: bounded_timespan_def Let_def)

lemma timespan_cases: "averaging_window_timespan nu \<in> {2550, 1275}"
  by (simp add: averaging_window_timespan_eq)

text \<open>Capping at the limit before the product can overflow is capping the product.\<close>

lemma capped_product:
  fixes limit scaled b :: u256
  assumes "b \<noteq> 0"
  shows "(if limit div b < scaled then Ok limit else mapr (min limit) (u256_mul scaled b)) =
    Ok (word_of_nat (min (unat limit) (unat scaled * unat b)))"
proof -
  have b: "0 < unat b" using assms by (simp add: unat_gt_0)
  show ?thesis
  proof (cases "limit div b < scaled")
    case True
    then have "unat limit div unat b < unat scaled" by (simp add: word_less_nat_alt unat_div)
    then have "unat limit < unat scaled * unat b" using b by (simp add: div_less_iff_less_mult)
    then have "min (unat limit) (unat scaled * unat b) = unat limit" by simp
    then show ?thesis using True by simp
  next
    case False
    then have "unat scaled \<le> unat limit div unat b" by (simp add: word_less_nat_alt unat_div not_less)
    then have le: "unat scaled * unat b \<le> unat limit" using b by (simp add: less_eq_div_iff_mult_less_eq)
    have lt: "unat scaled * unat b < 2 ^ 256" by (rule le_less_trans [OF le unat_lt_256])
    then have u: "unat (scaled * b) = unat scaled * unat b" by (rule unat_u256_mult)
    then have "scaled * b \<le> limit" using le by (simp add: word_le_nat_alt)
    then have mn: "min limit (scaled * b) = scaled * b" by (rule min_absorb2)
    have prod: "u256_mul scaled b = Ok (scaled * b)" using lt by (simp only: u256_mul_def if_True)
    have "min (unat limit) (unat scaled * unat b) = unat (scaled * b)" using le u by simp
    then have "word_of_nat (min (unat limit) (unat scaled * unat b)) = scaled * b"
      by (simp only: word_unat_eq_iff u256_of_nat [OF unat_lt_256])
    with False show ?thesis by (simp only: prod mn mapr.simps if_False)
  qed
qed

lemma median_time_eq: "ts \<noteq> [] \<Longrightarrow> median_time ts = Ok (median_of ts)"
  by (simp add: median_time_def median_of_def Let_def)

text \<open>What a context that was accepted holds.\<close>

lemma context_Ok:
  assumes net: "valid_network net" and new: "new_from_header_time t prev net ctx = Ok ad"
  shows "\<exists>n. ad = \<lparr>ad_candidate_time = t, ad_candidate_height = prev + 1, ad_network = net,
        ad_thresholds = take n (map fst ctx), ad_times = take n (map snd ctx)\<rparr> \<and>
      n = min (prev + 1) (averaging_window (upgrade_at net (prev + 1)) + 11) \<and> n \<le> length ctx"
proof -
  let ?h = "prev + 1"
  have w: "averaging_window_for_height net ?h = (Ok (averaging_window (upgrade_at net ?h)) :: (adjusted_difficulty_error, _) res)"
    by (simp add: averaging_window_for_height_def valid_net.current_eq [OF valid_net.intro [OF net]])
  have nxt: "height_add_diff prev 1 = (Ok (Some h) :: (adjusted_difficulty_error, _) res) \<Longrightarrow> h = ?h" for h
    by (auto simp: height_add_diff_def bindr_eq_Ok u32_try_from_def i64_checked_def height_try_from_u32_def split: if_splits)
  obtain h where "height_add_diff prev 1 = (Ok (Some h) :: (adjusted_difficulty_error, _) res)"
    using new by (auto simp: new_from_header_time_def bindr_eq_Ok)
  then have h: "height_add_diff prev 1 = (Ok (Some ?h) :: (adjusted_difficulty_error, _) res)" using nxt by blast
  let ?n = "min ?h (averaging_window (upgrade_at net ?h) + POW_MEDIAN_BLOCK_SPAN)"
  have "averaging_window (upgrade_at net ?h) + POW_MEDIAN_BLOCK_SPAN \<le> MAX_POW_ADJUSTMENT_BLOCK_SPAN"
    by (simp add: averaging_window_eq MAX_POW_ADJUSTMENT_BLOCK_SPAN_def MAX_POW_AVERAGING_WINDOW_def spacing_constants)
  then have le: "?n \<le> MAX_POW_ADJUSTMENT_BLOCK_SPAN + 1" by simp
  have "?n \<le> length (take (MAX_POW_ADJUSTMENT_BLOCK_SPAN + 1) ctx) \<and>
      ad = \<lparr>ad_candidate_time = t, ad_candidate_height = ?h, ad_network = net,
        ad_thresholds = take ?n (map fst (take (MAX_POW_ADJUSTMENT_BLOCK_SPAN + 1) ctx)),
        ad_times = take ?n (map snd (take (MAX_POW_ADJUSTMENT_BLOCK_SPAN + 1) ctx))\<rparr>"
    using new unfolding new_from_header_time_def h
    by (simp add: w Let_def del: add_Suc_right add_Suc One_nat_def Suc_eq_plus1_left split: if_splits) linarith?
  then show ?thesis
    using le by (intro exI [of _ ?n]) (simp add: take_map min.absorb1 POW_MEDIAN_BLOCK_SPAN_def)
qed

lemma bounded_eq:
  assumes net: "valid_network (ad_network ad)"
    and len: "averaging_window (upgrade_at (ad_network ad) (ad_candidate_height ad)) < length (ad_times ad)"
  shows "median_timespan_bounded ad =
    (Ok (bounded_timespan (averaging_window_timespan (upgrade_at (ad_network ad) (ad_candidate_height ad)))
      (averaging_window (upgrade_at (ad_network ad) (ad_candidate_height ad))) (ad_times ad)) :: ('e, _) res)"
proof -
  let ?nu = "upgrade_at (ad_network ad) (ad_candidate_height ad)"
  let ?w = "averaging_window ?nu" and ?T = "averaging_window_timespan ?nu"
  note cur = valid_net.current_eq [OF valid_net.intro [OF net]]
  have ne: "take 11 (ad_times ad) \<noteq> []" "take 11 (drop ?w (ad_times ad)) \<noteq> []"
    using len by auto
  have "median_timespan ad =
      (Ok (median_of (take 11 (ad_times ad)) - median_of (take 11 (drop ?w (ad_times ad)))) :: ('e, _) res)"
    using len
    by (simp add: median_timespan_def median_time_past_def ad_averaging_window_def averaging_window_for_height_def
        POW_MEDIAN_BLOCK_SPAN_def cur median_time_eq [OF ne(1)] median_time_eq [OF ne(2)])
  moreover have "?T * 84 sdiv 100 = ?T * 84 div 100" "?T * 132 sdiv 100 = ?T * 132 div 100"
    using timespan_cases [of ?nu] by (auto simp: signed_divide_int_def)
  ultimately show ?thesis
    by (simp add: median_timespan_bounded_def averaging_window_timespan_for_height_def bounded_timespan_def Let_def cur
        POW_MAX_ADJUST_UP_PERCENT_def POW_MAX_ADJUST_DOWN_PERCENT_def POW_DAMPING_FACTOR_def)
qed

lemma u256_from_small:
  assumes "0 < x" "x < 2 ^ 32"
  shows "u256_from_i64 x = Ok (word_of_nat (nat x))" "unat (word_of_nat (nat x) :: u256) = nat x"
    "(word_of_nat (nat x) :: u256) \<noteq> 0"
proof -
  have "nat x < 2 ^ 256" using assms by simp
  then show u: "unat (word_of_nat (nat x) :: u256) = nat x" by (rule u256_of_nat)
  show "u256_from_i64 x = Ok (word_of_nat (nat x))" using assms by (simp add: u256_from_i64_def)
  show "(word_of_nat (nat x) :: u256) \<noteq> 0" using u assms by (metis unat_0 zero_less_nat_eq less_irrefl)
qed

text \<open>The threshold of a full context is the rule's target, in compact form.\<close>

lemma threshold_bits_eq:
  assumes net: "valid_network (ad_network ad)"
    and limit: "target_difficulty_limit (ad_network ad) = (Ok limit :: ('e, _) res)" "limit \<noteq> 0"
    and cs: "list_all valid_target (ad_thresholds ad)" "\<forall>c \<in> set (ad_thresholds ad). 2550 \<le> compact_value c"
  defines "nu \<equiv> upgrade_at (ad_network ad) (ad_candidate_height ad)"
  defines "w \<equiv> averaging_window nu" and "T \<equiv> averaging_window_timespan nu"
  assumes len: "w < ad_candidate_height ad \<Longrightarrow> w < length (ad_times ad) \<and> w \<le> length (ad_thresholds ad)"
  shows "threshold_bits ad = (Ok (word_of_nat (compact_encoding (
    if ad_candidate_height ad \<le> w then unat limit
    else min (unat limit) (sum_list (take w (map compact_value (ad_thresholds ad))) div w div nat T *
      nat (bounded_timespan T w (ad_times ad)))))) :: ('e, _) res)"
proof (cases "ad_candidate_height ad \<le> w")
  case True
  then show ?thesis
    using limit by (simp add: threshold_bits_def ad_averaging_window_def averaging_window_for_height_def
        valid_net.current_eq [OF valid_net.intro [OF net]] nu_def [symmetric] w_def [symmetric] to_compact_eq)
next
  case False
  note cur = valid_net.current_eq [OF valid_net.intro [OF net], of "ad_candidate_height ad", folded nu_def]
  let ?vs = "take w (map compact_value (ad_thresholds ad))"
  let ?mean = "sum_list ?vs div w" and ?b = "bounded_timespan T w (ad_times ad)"
  have w: "w \<in> {17, 102}" "0 < w" "w < 2 ^ 32" by (auto simp: w_def averaging_window_eq)
  have T: "T \<in> {2550, 1275}" using timespan_cases by (simp add: T_def)
  note l = len [OF False [unfolded not_le]]
  have wh: "averaging_window_for_height (ad_network ad) (ad_candidate_height ad) = (Ok w :: ('e, _) res)"
    by (simp add: averaging_window_for_height_def cur w_def)
  have th: "averaging_window_timespan_for_height (ad_network ad) (ad_candidate_height ad) = (Ok T :: ('e, _) res)"
    by (simp add: averaging_window_timespan_for_height_def cur T_def)
  note mean = mean_target_eq [OF wh w(2,3) conjunct2 [OF l] cs(1)]
  have "w * 2550 \<le> sum_list ?vs"
    using sum_list_lower [of "take w (ad_thresholds ad)" 2550 compact_value] cs(2) l
    by (auto simp: take_map dest: in_set_takeD)
  then have "w * 2550 div w \<le> ?mean" by (rule div_le_mono)
  then have big: "nat T \<le> ?mean" using w(2) T by auto
  let ?scaled = "word_of_nat ?mean div word_of_nat (nat T) :: u256" and ?bw = "word_of_nat (nat ?b) :: u256"
  note Tw = u256_from_small [of T] and bw = u256_from_small [of ?b]
  have T': "0 < T" "T < 2 ^ 32" using T by auto
  have b': "0 < ?b" "?b < 2 ^ 32" using bounded_pos [OF T] by auto
  have scaled: "unat ?scaled = ?mean div nat T"
    by (simp only: unat_div u256_of_nat [OF mean(2)] Tw(2) [OF T'])
  have pos: "0 < ?mean div nat T * nat ?b" using big T' b' by (simp add: div_greater_zero_iff)
  let ?m = "min (unat limit) (?mean div nat T * nat ?b)"
  have "?m < 2 ^ 256" by (rule le_less_trans [OF min.cobounded1 unat_lt_256])
  then have um: "unat (word_of_nat ?m :: u256) = ?m" by (rule u256_of_nat)
  have "0 < ?m" using pos limit(2) by (simp add: unat_gt_0)
  then have nz: "(word_of_nat ?m :: u256) \<noteq> 0" using um by (metis less_irrefl unat_0)
  have compact: "to_compact (word_of_nat ?m) = (Ok (word_of_nat (compact_encoding ?m)) :: ('e, _) res)"
    by (rule to_compact_eq [OF nz, unfolded um])
  have capped: "(if limit div ?bw < ?scaled then Ok limit else mapr (min limit) (u256_mul ?scaled ?bw)) =
      (Ok (word_of_nat ?m) :: ('e, _) res)"
    unfolding capped_product [OF bw(3) [OF b']] scaled bw(2) [OF b'] ..
  have bnd: "median_timespan_bounded ad = (Ok ?b :: ('e, _) res)"
    using bounded_eq [OF net] l by (simp add: nu_def w_def T_def)
  show ?thesis
    using False limit(1) capped compact Tw(3) [OF T'] bw(3) [OF b']
    by (simp add: threshold_bits_def ad_averaging_window_def wh th bnd mean(1) u256_div_def Tw(1) [OF T'] bw(1) [OF b'])
qed

lemma min_difficulty_eq:
  assumes "valid_network net"
  shows "is_testnet_min_difficulty_block net h t previous = Ok (minimum_difficulty net h (t - previous))"
  using assms
  by (cases net) (auto simp: is_testnet_min_difficulty_block_def minimum_difficulty_spacing_for_height_def
      minimum_difficulty_def valid_net.current_eq [OF valid_net.intro] Let_def)

lemma expected_threshold_eq:
  assumes net: "valid_network (ad_network ad)"
    and limit: "target_difficulty_limit (ad_network ad) = (Ok limit :: ('e, _) res)" "limit \<noteq> 0"
    and cs: "list_all valid_target (ad_thresholds ad)" "\<forall>c \<in> set (ad_thresholds ad). 2550 \<le> compact_value c"
    and len: "averaging_window (upgrade_at (ad_network ad) (ad_candidate_height ad)) < ad_candidate_height ad \<Longrightarrow>
      averaging_window (upgrade_at (ad_network ad) (ad_candidate_height ad)) < length (ad_times ad) \<and>
      averaging_window (upgrade_at (ad_network ad) (ad_candidate_height ad)) \<le> length (ad_thresholds ad)"
    and ne: "ad_times ad \<noteq> []"
  shows "expected_difficulty_threshold ad = (Ok (word_of_nat (compact_encoding (
    threshold_target (ad_network ad) (ad_candidate_height ad) (ad_candidate_time ad) (unat limit)
      (map compact_value (ad_thresholds ad)) (ad_times ad)))) :: ('e, _) res)"
proof -
  obtain previous rest where ts: "ad_times ad = previous # rest" using ne by (cases "ad_times ad") auto
  note bits = threshold_bits_eq [OF net limit cs len]
  show ?thesis
  proof (cases "minimum_difficulty (ad_network ad) (ad_candidate_height ad) (ad_candidate_time ad - previous)")
    case True
    then have "is_a_test_network (ad_network ad)" by (simp add: minimum_difficulty_def is_a_test_network_def)
    then show ?thesis
      using True ts limit by (simp add: expected_difficulty_threshold_def min_difficulty_eq [OF net] threshold_target_def
          Let_def to_compact_eq)
  next
    case False
    then show ?thesis
      using bits ts by (simp add: expected_difficulty_threshold_def min_difficulty_eq [OF net] threshold_target_def Let_def)
  qed
qed

section \<open>Property\<close>


definition example_context :: "(compact_difficulty \<times> int) list" where
  "example_context = map (\<lambda>i. (0x1e07ffff, 100000 - 150 * int i)) [0..<28]"

lemma example_upgrade: "averaging_window (upgrade_at Mainnet 101) = 17"
proof -
  have "activation_height Nu7 Mainnet = Some 3543405"
    by (simp add: mainnet.activation_height_find activation_map_def MAINNET_ACTIVATION_HEIGHTS_def nu_order)
  then have "\<not> Nu7 \<le> upgrade_at Mainnet 101" by (simp add: mainnet.upgrade_at_ge_iff)
  then show ?thesis by (simp add: averaging_window_eq not_le)
qed

lemma example_context_accepted: "\<exists>ad. new_from_header_time 100100 100 Mainnet example_context = Ok ad"
proof -
  have "current Mainnet 101 = (Ok (upgrade_at Mainnet 101) :: (adjusted_difficulty_error, _) res)"
    by (rule mainnet.current_eq)
  then have w: "averaging_window_for_height Mainnet 101 = (Ok 17 :: (adjusted_difficulty_error, _) res)"
    by (simp add: averaging_window_for_height_def example_upgrade)
  have h: "height_add_diff 100 1 = (Ok (Some 101) :: (adjusted_difficulty_error, _) res)"
    by (simp add: height_add_diff_exact in_u32_def MAX_HEIGHT_def)
  have "length example_context = 28" by (simp add: example_context_def)
  then show ?thesis
    by (simp add: new_from_header_time_def h w Let_def in_u32_def POW_MEDIAN_BLOCK_SPAN_def
        MAX_POW_ADJUSTMENT_BLOCK_SPAN_def MAX_POW_AVERAGING_WINDOW_def spacing_constants)
qed

lemma example_median: "median_of (take 11 (take 28 (map snd example_context))) = 99250"
proof -
  have "take 11 (take 28 (map snd example_context)) =
      [100000, 99850, 99700, 99550, 99400, 99250, 99100, 98950, 98800, 98650, 98500]"
    by (simp add: example_context_def upt_rec numeral_eq_Suc)
  then show ?thesis by (simp add: median_of_def)
qed


end
