(* ===== verification/Task_Scheduler.thy ===== *)
theory Task_Scheduler
  imports Zakura_Prelude "HOL-Library.AList" "HOL-Library.Product_Lexorder"
begin

text \<open>
  The deterministic task scheduler of the simulator (\<open>crates/zakura-scheduler/src\<close>). The state of a run is a record
  with the sets of the source. The code of a task is not part of the crate: what it does between two returns to the
  scheduler is a list of hook calls and the way it returns, and every theorem holds for all of them. A waker is
  the task it wakes with the generation of its run. A task's name is its spawn path, before formatting. Order of
  the maps of parked tasks and of lock holders is not observable, so they are association lists; timers are kept
  sorted. Locations in the source and random draws carry no state of the run and are left out, as is shutting a
  run down.
\<close>

section \<open>The state of a run\<close>

type_synonym task_id = nat

type_synonym object_id = "task_id option \<times> nat"

text \<open>Virtual time in nanoseconds; \<open>Duration::MAX\<close> is the last instant.\<close>

type_synonym sim_instant = nat

definition MAX_INSTANT :: sim_instant where
  "MAX_INSTANT = 2 ^ 64 * 10 ^ 9 - 1"

definition instant_checked_add :: "sim_instant \<Rightarrow> nat \<Rightarrow> sim_instant option" where
  "instant_checked_add t d = (if t + d \<le> MAX_INSTANT then Some (t + d) else None)"

type_synonym timer_id = "sim_instant \<times> nat"

datatype op =
    OpPoll | OpLock | OpRelease | OpSend | OpRecv | OpNotify | OpNotified | OpAcquire | OpCancel | OpCancelled
  | OpAtomicLoad | OpAtomicStore | OpAtomicRmw | OpSpawn | OpJoin | OpSleep | OpSelect | OpYield | OpAbort | OpWatch

record at =
  at_op :: op
  at_n :: nat
  at_object :: "object_id option"

datatype task_exit = Completed | Cancelled | Panicked

record task_waker =
  w_task :: task_id
  w_gen :: nat

record task_meta =
  tm_name :: "(string \<times> nat) list"
  tm_at :: at
  tm_blocking :: bool
  tm_point_counts :: "op \<Rightarrow> nat"
  tm_child_counts :: "string \<Rightarrow> nat"

record run_state =
  rs_gen :: nat
  rs_workers :: nat
  rs_max_tasks :: nat
  rs_tasks :: "task_meta list"
  rs_current :: "task_id option"
  rs_woken :: "task_id set"
  rs_ready :: "task_id set"
  rs_waiting :: "task_id set"
  rs_external :: "task_id set"
  rs_mid_poll :: "task_id set"
  rs_cancel_requested :: "task_id set"
  rs_done :: "(task_id \<times> task_exit) list"
  rs_join_wakers :: "task_id \<Rightarrow> task_waker list"
  rs_now :: sim_instant
  rs_timers :: "(timer_id \<times> task_waker) list"
  rs_next_timer :: nat
  rs_spawn_queue :: "task_id list"
  rs_parked :: "(object_id \<times> task_id list) list"
  rs_holders :: "(object_id \<times> task_id) list"
  rs_object_counts :: "task_id option \<Rightarrow> nat"
  rs_root_counts :: "string \<Rightarrow> nat"

datatype status = Running | WaitingOnTime | WaitingOnExternal | WorkerStarved | Deadlock | Quiescent

definition new_run :: "nat \<Rightarrow> nat \<Rightarrow> nat \<Rightarrow> sim_instant \<Rightarrow> (unit, run_state) res" where
  "new_run gen workers max_tasks start =
     bindr (assertr (0 < workers)) (\<lambda>_.
     Ok \<lparr>rs_gen = gen, rs_workers = workers, rs_max_tasks = max_tasks, rs_tasks = [], rs_current = None,
         rs_woken = {}, rs_ready = {}, rs_waiting = {}, rs_external = {}, rs_mid_poll = {}, rs_cancel_requested = {},
         rs_done = [], rs_join_wakers = (\<lambda>_. []), rs_now = start, rs_timers = [], rs_next_timer = 0,
         rs_spawn_queue = [], rs_parked = [], rs_holders = [], rs_object_counts = (\<lambda>_. 0), rs_root_counts = (\<lambda>_. 0)\<rparr>)"

section \<open>Operations on the state\<close>

definition is_done :: "task_id \<Rightarrow> run_state \<Rightarrow> bool" where
  "is_done t s \<longleftrightarrow> map_of (rs_done s) t \<noteq> None"

definition advance_point :: "task_id \<Rightarrow> op \<Rightarrow> object_id option \<Rightarrow> run_state \<Rightarrow> run_state" where
  "advance_point t p obj s =
     (let meta = rs_tasks s ! t; n = min (tm_point_counts meta p + 1) (2 ^ 32 - 1) in
      s\<lparr>rs_tasks := (rs_tasks s)[t := meta\<lparr>tm_point_counts := (tm_point_counts meta)(p := n),
         tm_at := \<lparr>at_op = p, at_n = n, at_object = obj\<rparr>\<rparr>]\<rparr>)"

text \<open>
  Queueing a task: its name is its parent's with the label and the number of the parent's children of that label.
  Nothing is queued past the task limit. The counts stay below the task limit, which fits in a \<open>u32\<close>.
\<close>

definition new_meta :: "(string \<times> nat) list \<Rightarrow> task_meta" where
  "new_meta name =
     \<lparr>tm_name = name, tm_at = \<lparr>at_op = OpPoll, at_n = 1, at_object = None\<rparr>, tm_blocking = False,
      tm_point_counts = (\<lambda>_. 0)(OpPoll := 1), tm_child_counts = (\<lambda>_. 0)\<rparr>"

definition count_child :: "string \<Rightarrow> run_state \<Rightarrow> (string \<times> nat) list \<times> run_state" where
  "count_child label s =
     (case rs_current s of
        Some p \<Rightarrow>
          let meta = rs_tasks s ! p; n = tm_child_counts meta label + 1 in
          (tm_name meta @ [(label, n)],
           s\<lparr>rs_tasks := (rs_tasks s)[p := meta\<lparr>tm_child_counts := (tm_child_counts meta)(label := n)\<rparr>]\<rparr>)
      | None \<Rightarrow>
          let n = rs_root_counts s label + 1 in
          ([(label, n)], s\<lparr>rs_root_counts := (rs_root_counts s)(label := n)\<rparr>))"

definition queue_spawn :: "string \<Rightarrow> run_state \<Rightarrow> task_id option \<times> run_state" where
  "queue_spawn label s =
     (let len = length (rs_tasks s) in
      if rs_max_tasks s \<le> min len (2 ^ 32 - 1) then (None, s)
      else
        let (name, s1) = count_child label s;
            s2 = s1\<lparr>rs_tasks := rs_tasks s1 @ [new_meta name], rs_spawn_queue := rs_spawn_queue s1 @ [len]\<rparr> in
        (Some len, if rs_current s = None then s2\<lparr>rs_ready := insert len (rs_ready s2)\<rparr> else s2))"

definition new_object :: "run_state \<Rightarrow> (unit, object_id \<times> run_state) res" where
  "new_object s =
     bindr (expect_some (u32_checked (rs_object_counts s (rs_current s) + 1))) (\<lambda>n.
     Ok ((rs_current s, n), s\<lparr>rs_object_counts := (rs_object_counts s)(rs_current s := n)\<rparr>))"

definition register_timer :: "sim_instant \<Rightarrow> task_waker \<Rightarrow> run_state \<Rightarrow> (unit, timer_id \<times> run_state) res" where
  "register_timer deadline w s =
     bindr (u64_op (rs_next_timer s + 1)) (\<lambda>seq.
     Ok ((deadline, seq),
       s\<lparr>rs_next_timer := seq, rs_timers := insort_key fst ((deadline, seq), w) (rs_timers s)\<rparr>))"

definition held :: "run_state \<Rightarrow> task_id set" where
  "held s = Set.filter (\<lambda>t. \<not> tm_blocking (rs_tasks s ! t)) (rs_mid_poll s)"

definition eligible :: "run_state \<Rightarrow> task_id set" where
  "eligible s =
     (let free = card (held s) < rs_workers s in
      Set.filter (\<lambda>t. free \<or> t \<in> rs_mid_poll s \<or> tm_blocking (rs_tasks s ! t)) (rs_ready s))"

text \<open>
  The tasks that are parked on an object with a known holder, and following the holders from one of them. The source collects the
  pairs into a map; a task is parked at most once, so that no pair replaces another.
\<close>

definition waits_on :: "run_state \<Rightarrow> (task_id \<times> task_id) list" where
  "waits_on s =
     concat (List.map_filter (\<lambda>(obj, ts). map_option (\<lambda>h. map (\<lambda>t. (t, h)) ts) (map_of (rs_holders s) obj)) (rs_parked s))"

function follow :: "(task_id \<times> task_id) list \<Rightarrow> task_id set \<Rightarrow> task_id \<Rightarrow> bool" where
  "follow m seen t =
     (case map_of m t of
        None \<Rightarrow> False
      | Some h \<Rightarrow> if t \<in> seen then True else follow m (insert t seen) h)"
  by pat_completeness auto
termination
proof (relation "measure (\<lambda>(m, seen, t). card (fst ` set m - seen))", goal_cases)
  case (2 m seen t h)
  have "t \<in> fst ` set m - seen" using 2 by (force dest: map_of_SomeD)
  moreover have "fst ` set m - insert t seen = (fst ` set m - seen) - {t}" by blast
  ultimately show ?case using card_Diff1_less [of "fst ` set m - seen" t] by simp
qed simp

declare follow.simps [simp del]

definition lock_cycle :: "run_state \<Rightarrow> bool" where
  "lock_cycle s \<longleftrightarrow> list_ex (\<lambda>(start, _). follow (waits_on s) {} start) (waits_on s)"

definition get_status :: "run_state \<Rightarrow> status" where
  "get_status s =
     (let live = length (rs_tasks s) - length (rs_done s) in
      if live = 0 then Quiescent
      else if eligible s \<noteq> {} then Running
      else if rs_ready s \<noteq> {} then (if lock_cycle s then Deadlock else WorkerStarved)
      else if rs_timers s \<noteq> [] then WaitingOnTime
      else if rs_external s \<noteq> {} then WaitingOnExternal
      else Deadlock)"

section \<open>Hooks\<close>

definition wake_by_ref :: "task_waker \<Rightarrow> run_state \<Rightarrow> run_state" where
  "wake_by_ref w s =
     (if rs_gen s \<noteq> w_gen w then s
      else if w_task w \<in> rs_waiting s then
        s\<lparr>rs_waiting := rs_waiting s - {w_task w}, rs_ready := insert (w_task w) (rs_ready s)\<rparr>
      else if w_task w \<in> rs_mid_poll s then s\<lparr>rs_woken := insert (w_task w) (rs_woken s)\<rparr>
      else s)"

definition unpark_all :: "object_id \<Rightarrow> run_state \<Rightarrow> run_state" where
  "unpark_all obj s =
     (let s1 = s\<lparr>rs_holders := AList.delete obj (rs_holders s)\<rparr> in
      case map_of (rs_parked s1) obj of
        None \<Rightarrow> s1
      | Some ts \<Rightarrow> s1\<lparr>rs_parked := AList.delete obj (rs_parked s1), rs_ready := rs_ready s1 \<union> set ts\<rparr>)"

definition request_abort :: "task_id \<Rightarrow> run_state \<Rightarrow> run_state" where
  "request_abort t s =
     (if is_done t s then s
      else
        let s1 = s\<lparr>rs_cancel_requested := insert t (rs_cancel_requested s)\<rparr> in
        if t \<in> rs_waiting s1 then s1\<lparr>rs_waiting := rs_waiting s1 - {t}, rs_ready := insert t (rs_ready s1)\<rparr> else s1)"

definition cancel_timer :: "timer_id \<Rightarrow> run_state \<Rightarrow> run_state" where
  "cancel_timer timer s = s\<lparr>rs_timers := filter (\<lambda>x. fst x \<noteq> timer) (rs_timers s)\<rparr>"

definition set_external_wait :: "bool \<Rightarrow> run_state \<Rightarrow> run_state" where
  "set_external_wait waiting s =
     (case rs_current s of
        None \<Rightarrow> s
      | Some t \<Rightarrow>
          if waiting then s\<lparr>rs_external := insert t (rs_external s)\<rparr> else s\<lparr>rs_external := rs_external s - {t}\<rparr>)"

text \<open>Polling a join handle: the exit of the task, or the waker is kept once.\<close>

definition join_poll :: "task_id \<Rightarrow> task_waker \<Rightarrow> run_state \<Rightarrow> task_exit option \<times> run_state" where
  "join_poll t w s =
     (case map_of (rs_done s) t of
        Some e \<Rightarrow> (Some e, s)
      | None \<Rightarrow>
          (None,
           if w \<in> set (rs_join_wakers s t) then s
           else s\<lparr>rs_join_wakers := (rs_join_wakers s)(t := rs_join_wakers s t @ [w])\<rparr>))"

text \<open>Spawning past the task limit panics in the caller, or hands the task back.\<close>

definition spawn_boxed :: "string \<Rightarrow> run_state \<Rightarrow> (unit, task_id \<times> run_state) res" where
  "spawn_boxed label s =
     (case queue_spawn label s of (None, _) \<Rightarrow> Panic | (Some t, s1) \<Rightarrow> Ok (t, s1))"

definition spawn_blocking_boxed :: "string \<Rightarrow> run_state \<Rightarrow> (unit, task_id \<times> run_state) res" where
  "spawn_blocking_boxed label s =
     (case queue_spawn label s of
        (None, _) \<Rightarrow> Panic
      | (Some t, s1) \<Rightarrow> Ok (t, s1\<lparr>rs_tasks := (rs_tasks s1)[t := (rs_tasks s1 ! t)\<lparr>tm_blocking := True\<rparr>]\<rparr>))"

definition try_spawn_boxed :: "string \<Rightarrow> run_state \<Rightarrow> task_id option \<times> run_state" where
  "try_spawn_boxed label s = queue_spawn label s"

definition park :: "object_id \<Rightarrow> task_id option \<Rightarrow> run_state \<Rightarrow> bool \<times> run_state" where
  "park obj held_by s =
     (case rs_current s of
        None \<Rightarrow> (False, s)
      | Some t \<Rightarrow>
          let ts = (case map_of (rs_parked s) obj of None \<Rightarrow> [] | Some ts \<Rightarrow> ts);
              s1 = s\<lparr>rs_parked := AList.update obj (ts @ [t]) (rs_parked s)\<rparr> in
          (True,
           case held_by of
             Some h \<Rightarrow> s1\<lparr>rs_holders := AList.update obj h (rs_holders s1)\<rparr>
           | None \<Rightarrow> s1\<lparr>rs_holders := AList.delete obj (rs_holders s1)\<rparr>))"

definition preempt :: "op \<Rightarrow> object_id option \<Rightarrow> run_state \<Rightarrow> run_state" where
  "preempt p obj s = (case rs_current s of None \<Rightarrow> s | Some t \<Rightarrow> advance_point t p obj s)"

text \<open>The hooks that a task or setup code calls without returning to the scheduler.\<close>

datatype hook =
    Wake task_waker
  | UnparkAll object_id
  | Spawn string
  | SpawnBlocking string
  | TrySpawn string
  | Abort task_id
  | RegisterTimer sim_instant task_waker
  | CancelTimer timer_id
  | NewObject
  | ExternalWait bool
  | JoinPoll task_id task_waker

primrec call_hook :: "hook \<Rightarrow> run_state \<Rightarrow> (unit, run_state) res" where
  "call_hook (Wake w) s = Ok (wake_by_ref w s)"
| "call_hook (UnparkAll obj) s = Ok (unpark_all obj s)"
| "call_hook (Spawn label) s = mapr snd (spawn_boxed label s)"
| "call_hook (SpawnBlocking label) s = mapr snd (spawn_blocking_boxed label s)"
| "call_hook (TrySpawn label) s = Ok (snd (try_spawn_boxed label s))"
| "call_hook (Abort t) s = Ok (request_abort t s)"
| "call_hook (RegisterTimer deadline w) s = mapr snd (register_timer deadline w s)"
| "call_hook (CancelTimer timer) s = Ok (cancel_timer timer s)"
| "call_hook NewObject s = mapr snd (new_object s)"
| "call_hook (ExternalWait waiting) s = Ok (set_external_wait waiting s)"
| "call_hook (JoinPoll t w) s = Ok (snd (join_poll t w s))"

text \<open>A hook that panics changes nothing. The panic unwinds the task, whose destructors may call more hooks.\<close>

definition task_hook :: "hook \<Rightarrow> run_state \<Rightarrow> run_state" where
  "task_hook h s = (case call_hook h s of Ok s1 \<Rightarrow> s1 | _ \<Rightarrow> s)"

section \<open>Steps\<close>

text \<open>
  What the scheduler sends a task when it resumes it, and how the task hands control back: at a preemption point,
  with \<open>Pending\<close>, parked, or ended. The code of a task between the two is a parameter.
\<close>

datatype cmd = Poll | Cancel

datatype yielded = Preempt op "object_id option" | Pending | Park object_id "task_id option" | Return task_exit

type_synonym task_code = "cmd \<Rightarrow> hook list \<times> yielded"

definition admit :: "run_state \<Rightarrow> run_state" where
  "admit s = s\<lparr>rs_spawn_queue := [], rs_ready := rs_ready s \<union> set (rs_spawn_queue s)\<rparr>"

definition finish_task :: "task_id \<Rightarrow> task_exit \<Rightarrow> run_state \<Rightarrow> run_state" where
  "finish_task t e s =
     (let joiners = rs_join_wakers s t;
          s1 = s\<lparr>rs_ready := rs_ready s - {t}, rs_waiting := rs_waiting s - {t}, rs_mid_poll := rs_mid_poll s - {t},
            rs_woken := rs_woken s - {t}, rs_cancel_requested := rs_cancel_requested s - {t},
            rs_external := rs_external s - {t},
            rs_parked := map (\<lambda>(obj, ts). (obj, filter (\<lambda>u. u \<noteq> t) ts)) (rs_parked s),
            rs_done := bt_insert t e (rs_done s), rs_join_wakers := (rs_join_wakers s)(t := [])\<rparr> in
      fold wake_by_ref joiners s1)"

text \<open>The effect of the way a task hands control back, while it is still the current task, and afterwards.\<close>

definition before_return :: "yielded \<Rightarrow> run_state \<Rightarrow> run_state" where
  "before_return y s =
     (case y of Preempt p obj \<Rightarrow> preempt p obj s | Park obj h \<Rightarrow> snd (park obj h s) | _ \<Rightarrow> s)"

definition after_return :: "task_id \<Rightarrow> yielded \<Rightarrow> run_state \<Rightarrow> run_state" where
  "after_return t y s =
     (case y of
        Preempt _ _ \<Rightarrow> s\<lparr>rs_ready := insert t (rs_ready s)\<rparr>
      | Pending \<Rightarrow>
          let s1 = advance_point t OpPoll None (s\<lparr>rs_mid_poll := rs_mid_poll s - {t}\<rparr>) in
          if t \<in> rs_woken s1 \<or> t \<in> rs_cancel_requested s1 then
            s1\<lparr>rs_woken := rs_woken s1 - {t}, rs_ready := insert t (rs_ready s1)\<rparr>
          else s1\<lparr>rs_waiting := insert t (rs_waiting s1)\<rparr>
      | Park _ _ \<Rightarrow> s
      | Return e \<Rightarrow> finish_task t e s)"

definition resume :: "task_id \<Rightarrow> task_code \<Rightarrow> run_state \<Rightarrow> run_state" where
  "resume t code s =
     (let starts_poll = t \<notin> rs_mid_poll s;
          cmd = (if starts_poll \<and> t \<in> rs_cancel_requested s then Cancel else Poll);
          s1 = s\<lparr>rs_current := Some t, rs_ready := rs_ready s - {t}, rs_mid_poll := insert t (rs_mid_poll s)\<rparr>;
          (hooks, y) = code cmd;
          s2 = before_return y (fold task_hook hooks s1);
          s3 = after_return t y (s2\<lparr>rs_current := None\<rparr>) in
      admit s3)"

definition run_task :: "task_id \<Rightarrow> task_code \<Rightarrow> run_state \<Rightarrow> (unit, run_state) res" where
  "run_task t code s =
     (let s1 = admit s in
      bindr (assertr (t \<in> eligible s1)) (\<lambda>_. Ok (resume t code s1)))"

definition next_deadline :: "run_state \<Rightarrow> sim_instant option" where
  "next_deadline s = (case rs_timers s of [] \<Rightarrow> None | x # _ \<Rightarrow> Some (fst (fst x)))"

definition advance_to :: "sim_instant \<Rightarrow> run_state \<Rightarrow> (unit, timer_id list \<times> run_state) res" where
  "advance_to t s =
     bindr (assertr (rs_now s \<le> t)) (\<lambda>_.
     let split = (case instant_checked_add t 1 of Some u \<Rightarrow> u | None \<Rightarrow> t, 0);
         fired = filter (\<lambda>x. fst x < split) (rs_timers s);
         later = filter (\<lambda>x. \<not> fst x < split) (rs_timers s) in
     Ok (map fst fired, fold wake_by_ref (map snd fired) (s\<lparr>rs_now := t, rs_timers := later\<rparr>)))"

definition spawn_root :: "string \<Rightarrow> run_state \<Rightarrow> (unit, task_id \<times> run_state) res" where
  "spawn_root label s =
     bindr (assertr (rs_current s = None)) (\<lambda>_.
     case queue_spawn label s of
       (None, _) \<Rightarrow> Panic
     | (Some t, s1) \<Rightarrow> Ok (t, admit s1))"

text \<open>What the driver of a run does: resume a task, move time, start a root task, or run setup code.\<close>

datatype event = Run task_id task_code | AdvanceTo sim_instant | SpawnRoot string | Setup hook

primrec step :: "run_state \<Rightarrow> event \<Rightarrow> (unit, run_state) res" where
  "step s (Run t code) = run_task t code s"
| "step s (AdvanceTo t) = mapr snd (advance_to t s)"
| "step s (SpawnRoot label) = mapr snd (spawn_root label s)"
| "step s (Setup h) = call_hook h s"

inductive reachable :: "run_state \<Rightarrow> bool" where
  init: "new_run gen workers max_tasks start = Ok s \<Longrightarrow> reachable s"
| step: "reachable s \<Longrightarrow> step s e = Ok s' \<Longrightarrow> reachable s'"


section \<open>The invariant of a run\<close>

text \<open>
  A live task is ready or queued, waiting, parked, or the task \<open>c\<close> that runs, and only one of these. Parked tasks and the running task are
  inside a poll, and a task inside a poll is ready, parked or running. Wakes are only recorded inside a poll. The tasks that
  hold a worker are no more than the workers.
\<close>

definition live :: "run_state \<Rightarrow> task_id set" where
  "live s = {t. t < length (rs_tasks s) \<and> \<not> is_done t s}"

definition parked_tasks :: "run_state \<Rightarrow> task_id list" where
  "parked_tasks s = concat (map snd (rs_parked s))"

definition lane :: "task_id option \<Rightarrow> run_state \<Rightarrow> task_id \<Rightarrow> bool" where
  "lane c s t \<longleftrightarrow>
     (let r = t \<in> rs_ready s; q = t \<in> set (rs_spawn_queue s); w = t \<in> rs_waiting s; p = t \<in> set (parked_tasks s); m = t \<in> rs_mid_poll s in
      (t \<in> live s \<longleftrightarrow> r \<or> q \<or> w \<or> p \<or> c = Some t) \<and> \<not> (w \<and> (r \<or> q \<or> p \<or> c = Some t)) \<and>
      \<not> ((r \<or> q) \<and> (p \<or> c = Some t)) \<and> \<not> (p \<and> c = Some t) \<and>
      (p \<or> c = Some t \<longrightarrow> m) \<and> (m \<longrightarrow> (r \<or> p \<or> c = Some t) \<and> \<not> q) \<and> (t \<in> rs_woken s \<longrightarrow> m))"

definition lanes :: "task_id option \<Rightarrow> run_state \<Rightarrow> bool" where
  "lanes c s \<longleftrightarrow> (\<forall>t. lane c s t)"

definition sched_inv :: "task_id option \<Rightarrow> run_state \<Rightarrow> bool" where
  "sched_inv c s \<longleftrightarrow>
     lanes c s \<and> distinct (map fst (rs_parked s)) \<and> distinct (parked_tasks s) \<and>
     bt_sorted (rs_done s) \<and> fst ` set (rs_done s) \<subseteq> {..<length (rs_tasks s)} \<and> card (held s) \<le> rs_workers s"

lemma finite_live [simp]: "finite (live s)"
  by (simp add: live_def)

lemma lanes_cong:
  assumes "lanes c s" "live s' = live s" "rs_ready s' = rs_ready s" "rs_spawn_queue s' = rs_spawn_queue s" "rs_waiting s' = rs_waiting s"
    "rs_parked s' = rs_parked s" "rs_mid_poll s' = rs_mid_poll s" "rs_woken s' = rs_woken s"
  shows "lanes c s'"
  using assms by (simp add: lanes_def lane_def parked_tasks_def)

lemma held_cong:
  assumes "rs_mid_poll s' = rs_mid_poll s" "\<And>t. t \<in> rs_mid_poll s \<Longrightarrow> tm_blocking (rs_tasks s' ! t) = tm_blocking (rs_tasks s ! t)"
  shows "held s' = held s"
  using assms by (auto simp: held_def)

lemma lanesI:
  assumes "lanes c s" "\<And>t. lane c s t \<Longrightarrow> lane c' s' t"
  shows "lanes c' s'"
  using assms by (simp add: lanes_def)

lemma lanes_wake: "lanes c s \<Longrightarrow> lanes c (wake_by_ref w s)"
  by (erule lanesI) (auto simp: lane_def wake_by_ref_def Let_def live_def is_done_def parked_tasks_def)

lemma lanes_abort: "lanes c s \<Longrightarrow> lanes c (request_abort t s)"
  by (erule lanesI) (auto simp: lane_def request_abort_def Let_def live_def is_done_def parked_tasks_def)

lemma set_concat_delete:
  assumes "distinct (map fst m)" "map_of m k = Some v"
  shows "set (concat (map snd m)) = set v \<union> set (concat (map snd (AList.delete k m)))"
  using assms
proof (induction m)
  case (Cons x m)
  then show ?case
    by (cases x) (auto simp: AList.delete_eq split: if_splits; force)
qed simp

lemma distinct_concat_delete:
  assumes "distinct (map fst m)" "distinct (concat (map snd m))" "map_of m k = Some v"
  shows "set v \<inter> set (concat (map snd (AList.delete k m))) = {}"
  using assms
proof (induction m)
  case (Cons x m)
  have sub: "set (concat (map snd (AList.delete k m))) \<subseteq> set (concat (map snd m))" by (auto simp: AList.delete_eq)
  show ?case
  proof (cases "fst x = k")
    case True
    then have "k \<notin> fst ` set m" using Cons.prems(1) by auto
    then have "AList.delete k m = m" by (auto simp: AList.delete_eq filter_id_conv image_iff)
    with True Cons.prems show ?thesis by (cases x) auto
  next
    case False
    then have "map_of m k = Some v" using Cons.prems by (cases x) auto
    moreover from this have "set v \<subseteq> set (concat (map snd m))" by (force dest: map_of_SomeD)
    ultimately show ?thesis using False Cons sub by (cases x) auto
  qed
qed simp

lemma distinct_delete_concat: "distinct (concat (map snd m)) \<Longrightarrow> distinct (concat (map snd (AList.delete k m)))"
  by (induction m) (auto simp: AList.delete_eq)

lemma set_concat_push:
  "set (concat (map snd (AList.update k ((case map_of m k of None \<Rightarrow> [] | Some ts \<Rightarrow> ts) @ [t]) m))) = insert t (set (concat (map snd m)))"
  by (induction m) auto

lemma distinct_concat_push:
  assumes "distinct (concat (map snd m))" "t \<notin> set (concat (map snd m))"
  shows "distinct (concat (map snd (AList.update k ((case map_of m k of None \<Rightarrow> [] | Some ts \<Rightarrow> ts) @ [t]) m)))"
  using assms
proof (induction m)
  case (Cons x m)
  then show ?case using set_concat_push [of k m t] by (cases x) auto
qed simp

lemma set_parked_without:
  "set (concat (map snd (map (\<lambda>(obj, ts). (obj, filter (\<lambda>u. u \<noteq> t) ts)) m))) = set (concat (map snd m)) - {t}"
  by (induction m) auto

lemma distinct_parked_without:
  "distinct (concat (map snd m)) \<Longrightarrow> distinct (concat (map snd (map (\<lambda>(obj, ts). (obj, filter (\<lambda>u. u \<noteq> t) ts)) m)))"
proof (induction m)
  case (Cons x m)
  then show ?case using set_parked_without [of t m] by (cases x) auto
qed simp


text \<open>What one operation of a run keeps, whatever task runs.\<close>

lemma sched_inv_cong:
  assumes "sched_inv c s" "lanes c s'" "rs_parked s' = rs_parked s" "rs_done s' = rs_done s" "length (rs_tasks s) \<le> length (rs_tasks s')"
    "held s' = held s" "rs_workers s' = rs_workers s"
  shows "sched_inv c s'"
  using assms by (auto simp: sched_inv_def parked_tasks_def)

lemma inv_lanes: "sched_inv c s \<Longrightarrow> lanes c s"
  by (simp add: sched_inv_def)

lemma inv_mid_poll: "sched_inv c s \<Longrightarrow> rs_mid_poll s \<subseteq> {..<length (rs_tasks s)}"
  by (auto simp: sched_inv_def lanes_def lane_def Let_def live_def)

lemma inv_wake:
  assumes inv: "sched_inv c s"
  shows "sched_inv c (wake_by_ref w s)"
  by (rule sched_inv_cong [OF inv lanes_wake [OF inv_lanes [OF inv]]]) (auto simp: wake_by_ref_def held_def)

lemma inv_abort:
  assumes inv: "sched_inv c s"
  shows "sched_inv c (request_abort t s)"
  by (rule sched_inv_cong [OF inv lanes_abort [OF inv_lanes [OF inv]]]) (auto simp: request_abort_def held_def Let_def)

lemma inv_unpark: "sched_inv c s \<Longrightarrow> sched_inv c (unpark_all obj s)"
proof (cases "map_of (rs_parked s) obj")
  case None
  assume "sched_inv c s"
  with None show ?thesis
    by (auto simp: unpark_all_def sched_inv_def lanes_def lane_def Let_def live_def is_done_def parked_tasks_def held_def)
next
  case (Some ts)
  assume inv: "sched_inv c s"
  let ?m = "rs_parked s" and ?s = "unpark_all obj s"
  have d: "distinct (map fst ?m)" "distinct (concat (map snd ?m))" using inv by (simp_all add: sched_inv_def parked_tasks_def)
  have fields: "rs_ready ?s = rs_ready s \<union> set ts" "rs_parked ?s = AList.delete obj ?m" "live ?s = live s" "held ?s = held s"
    "rs_waiting ?s = rs_waiting s" "rs_mid_poll ?s = rs_mid_poll s" "rs_woken ?s = rs_woken s" "rs_done ?s = rs_done s"
    "rs_spawn_queue ?s = rs_spawn_queue s" "rs_tasks ?s = rs_tasks s" "rs_workers ?s = rs_workers s"
    by (simp_all add: unpark_all_def Some live_def is_done_def held_def)
  have P: "set (parked_tasks s) = set ts \<union> set (parked_tasks ?s)" "set ts \<inter> set (parked_tasks ?s) = {}"
    unfolding parked_tasks_def fields
    by (rule set_concat_delete [OF d(1) Some], rule distinct_concat_delete [OF d Some])
  have "lanes c ?s"
    using P by (intro lanesI [OF inv_lanes [OF inv]]) (auto simp: lane_def Let_def fields)
  moreover have "distinct (parked_tasks ?s)" unfolding parked_tasks_def fields by (rule distinct_delete_concat [OF d(2)])
  ultimately show ?thesis using inv d(1) by (simp add: sched_inv_def fields distinct_delete)
qed

lemma nth_update_keeps: "f x = f (xs ! i) \<Longrightarrow> f (xs[i := x] ! j) = f (xs ! j)"
  by (cases "i < length xs"; cases "i = j") (simp_all add: list_update_beyond)

lemma count_child_keeps:
  assumes "count_child label s = (name, s1)"
  shows "length (rs_tasks s1) = length (rs_tasks s)" "tm_blocking (rs_tasks s1 ! t) = tm_blocking (rs_tasks s ! t)"
    "rs_current s1 = rs_current s" "rs_ready s1 = rs_ready s" "rs_waiting s1 = rs_waiting s" "rs_mid_poll s1 = rs_mid_poll s"
    "rs_woken s1 = rs_woken s" "rs_spawn_queue s1 = rs_spawn_queue s" "rs_parked s1 = rs_parked s" "rs_done s1 = rs_done s"
    "rs_workers s1 = rs_workers s" "rs_gen s1 = rs_gen s" "rs_join_wakers s1 = rs_join_wakers s" "rs_timers s1 = rs_timers s"
  using assms by (auto simp: count_child_def Let_def nth_update_keeps split: option.splits)

text \<open>A spawn that is not rejected adds one task, which is queued.\<close>

lemma queue_spawn_keeps:
  assumes "queue_spawn label s = (Some t, s')"
  shows "t = length (rs_tasks s)" "length (rs_tasks s') = length (rs_tasks s) + 1"
    "u < t \<Longrightarrow> tm_blocking (rs_tasks s' ! u) = tm_blocking (rs_tasks s ! u)"
    "rs_current s' = rs_current s" "rs_waiting s' = rs_waiting s" "rs_mid_poll s' = rs_mid_poll s"
    "rs_ready s' = rs_ready s \<union> (if rs_current s = None then {t} else {})"
    "rs_woken s' = rs_woken s" "rs_spawn_queue s' = rs_spawn_queue s @ [t]" "rs_parked s' = rs_parked s" "rs_done s' = rs_done s"
    "rs_workers s' = rs_workers s" "rs_gen s' = rs_gen s" "rs_join_wakers s' = rs_join_wakers s" "rs_timers s' = rs_timers s"
proof -
  obtain name s1 where c: "count_child label s = (name, s1)" by fastforce
  note k = count_child_keeps [OF c]
  have t: "t = length (rs_tasks s)"
    and s': "s' = s1\<lparr>rs_tasks := rs_tasks s1 @ [new_meta name], rs_spawn_queue := rs_spawn_queue s1 @ [t],
      rs_ready := rs_ready s1 \<union> (if rs_current s = None then {t} else {})\<rparr>"
    using assms by (auto simp: queue_spawn_def Let_def c split: if_splits)
  show "t = length (rs_tasks s)" "length (rs_tasks s') = length (rs_tasks s) + 1"
    "u < t \<Longrightarrow> tm_blocking (rs_tasks s' ! u) = tm_blocking (rs_tasks s ! u)"
    "rs_current s' = rs_current s" "rs_waiting s' = rs_waiting s" "rs_mid_poll s' = rs_mid_poll s"
    "rs_ready s' = rs_ready s \<union> (if rs_current s = None then {t} else {})"
    "rs_woken s' = rs_woken s" "rs_spawn_queue s' = rs_spawn_queue s @ [t]" "rs_parked s' = rs_parked s" "rs_done s' = rs_done s"
    "rs_workers s' = rs_workers s" "rs_gen s' = rs_gen s" "rs_join_wakers s' = rs_join_wakers s" "rs_timers s' = rs_timers s"
    by (simp_all add: t s' k nth_append)
qed

lemma queue_spawn_None: "queue_spawn label s = (None, s') \<Longrightarrow> s' = s"
  by (auto simp: queue_spawn_def Let_def split: if_splits prod.splits)

text \<open>Adding a task, with the blocking flag still open.\<close>

lemma inv_spawned:
  assumes inv: "sched_inv c s" and q: "queue_spawn label s = (Some t, s')"
    and s'': "s'' = s'\<lparr>rs_tasks := tasks\<rparr>" "length tasks = length (rs_tasks s')"
      "\<And>u. u < t \<Longrightarrow> tm_blocking (tasks ! u) = tm_blocking (rs_tasks s' ! u)"
  shows "sched_inv c s''"
proof -
  note k = queue_spawn_keeps [OF q]
  have "is_done u s'' = is_done u s" for u by (simp add: is_done_def s'' k)
  moreover have nd: "\<not> is_done t s" using inv k(1) by (auto simp: sched_inv_def is_done_def map_of_eq_None_iff)
  ultimately have live: "live s'' = insert t (live s)" using k(1,2) s'' by (auto simp: live_def less_Suc_eq)
  have new: "t \<notin> live s" using k(1) by (simp add: live_def)
  define r where "r = (if rs_current s = None then {t} else {})"
  have f: "rs_ready s'' = rs_ready s \<union> r" "rs_waiting s'' = rs_waiting s" "rs_mid_poll s'' = rs_mid_poll s" "rs_woken s'' = rs_woken s"
    "set (rs_spawn_queue s'') = insert t (set (rs_spawn_queue s))" "parked_tasks s'' = parked_tasks s"
    by (simp_all add: s''(1) k r_def parked_tasks_def)
  have r: "u \<in> r \<Longrightarrow> u = t" for u by (simp add: r_def split: if_splits)
  have "lane c s'' u" if "lane c s u" for u
    using that new r [of u] unfolding lane_def Let_def live f by (cases "u = t") auto
  then have "lanes c s''" by (rule lanesI [OF inv_lanes [OF inv]])
  moreover have "held s'' = held s"
    using inv_mid_poll [OF inv] by (intro held_cong) (auto simp: s'' k(1,3,6))
  ultimately show ?thesis by - (rule sched_inv_cong [OF inv], simp_all add: s''(1,2) k)
qed

text \<open>
  A wake-up of \<open>t\<close> is delivered when \<open>t\<close> has ended, is still to be polled for the first time, is ready at the start of a poll, or
  has the wake recorded inside a poll.
\<close>

definition delivered :: "task_id \<Rightarrow> run_state \<Rightarrow> bool" where
  "delivered t s \<longleftrightarrow>
     (t \<in> live s \<longrightarrow> t \<in> set (rs_spawn_queue s) \<or> (if t \<in> rs_mid_poll s then t \<in> rs_woken s else t \<in> rs_ready s))"

text \<open>The contract of the operations that a task calls while it runs.\<close>

locale sched_op =
  fixes f :: "'x \<Rightarrow> run_state \<Rightarrow> run_state"
  assumes inv: "sched_inv c s \<Longrightarrow> sched_inv c (f x s)"
    and keeps_delivered: "sched_inv c s \<Longrightarrow> delivered t s \<Longrightarrow> delivered t (f x s)"
    and gen [simp]: "rs_gen (f x s) = rs_gen s"
    and current [simp]: "rs_current (f x s) = rs_current s"
    and joiners: "w \<in> set (rs_join_wakers s t) \<Longrightarrow> w \<in> set (rs_join_wakers (f x s) t)"
begin

lemma fold_inv: "sched_inv c s \<Longrightarrow> sched_inv c (fold f xs s)"
  by (induction xs arbitrary: s) (simp_all add: inv)

lemma fold_delivered: "sched_inv c s \<Longrightarrow> delivered t s \<Longrightarrow> delivered t (fold f xs s)"
proof (induction xs arbitrary: s)
  case (Cons x xs)
  then show ?case using inv keeps_delivered by simp
qed simp

lemma fold_gen [simp]: "rs_gen (fold f xs s) = rs_gen s"
  by (induction xs arbitrary: s) simp_all

lemma fold_current [simp]: "rs_current (fold f xs s) = rs_current s"
  by (induction xs arbitrary: s) simp_all

lemma fold_joiners: "w \<in> set (rs_join_wakers s t) \<Longrightarrow> w \<in> set (rs_join_wakers (fold f xs s) t)"
  by (induction xs arbitrary: s) (simp_all add: joiners)

text \<open>An operation in the list that delivers a wake-up leaves it delivered after the whole list.\<close>

lemma fold_delivers:
  assumes "x \<in> set xs" "sched_inv c s" "\<And>s. sched_inv c s \<Longrightarrow> rs_gen s = g \<Longrightarrow> delivered t (f x s)" "rs_gen s = g"
  shows "delivered t (fold f xs s)"
  using assms
proof (induction xs arbitrary: s)
  case (Cons y ys)
  show ?case
  proof (cases "x = y")
    case True
    then show ?thesis using Cons.prems by (simp add: fold_delivered [OF inv])
  next
    case False
    then show ?thesis using Cons by (simp add: inv)
  qed
qed simp

end

lemma wake_delivers:
  assumes "sched_inv c s" "rs_gen s = w_gen w"
  shows "delivered (w_task w) (wake_by_ref w s)"
proof -
  have "lane c s (w_task w)" using assms by (simp add: sched_inv_def lanes_def)
  then show ?thesis using assms(2)
    by (auto simp: lane_def Let_def delivered_def wake_by_ref_def live_def is_done_def)
qed

lemma inv_waiting:
  assumes "sched_inv c s" "t \<in> rs_waiting s"
  shows "t \<notin> rs_mid_poll s"
proof -
  have "lane c s t" using assms(1) by (simp add: sched_inv_def lanes_def)
  then show ?thesis using assms(2) by (auto simp: lane_def Let_def)
qed

lemma wake_keeps_delivered:
  assumes "sched_inv c s" "delivered t s"
  shows "delivered t (wake_by_ref w s)"
  using inv_waiting [OF assms(1)] assms(2) by (auto simp: delivered_def wake_by_ref_def live_def is_done_def)

interpretation wk: sched_op wake_by_ref
  by unfold_locales (auto simp: inv_wake wake_keeps_delivered, auto simp: wake_by_ref_def)

text \<open>Operations that only touch other parts of the state.\<close>

lemma frame:
  assumes "live s' = live s" "rs_ready s' = rs_ready s" "rs_spawn_queue s' = rs_spawn_queue s" "rs_waiting s' = rs_waiting s"
    "rs_parked s' = rs_parked s" "rs_mid_poll s' = rs_mid_poll s" "rs_woken s' = rs_woken s" "rs_done s' = rs_done s"
    "length (rs_tasks s') = length (rs_tasks s)" "held s' = held s" "rs_workers s' = rs_workers s"
  shows "sched_inv c s' = sched_inv c s" "delivered t s' = delivered t s"
  using assms by (simp_all add: sched_inv_def lanes_def lane_def Let_def parked_tasks_def delivered_def)

definition keeps :: "run_state \<Rightarrow> run_state \<Rightarrow> bool" where
  "keeps s s' \<longleftrightarrow>
     (\<forall>c. sched_inv c s \<longrightarrow> sched_inv c s' \<and> (\<forall>t. delivered t s \<longrightarrow> delivered t s')) \<and>
     rs_gen s' = rs_gen s \<and> rs_current s' = rs_current s \<and>
     (\<forall>t. set (rs_join_wakers s t) \<subseteq> set (rs_join_wakers s' t))"

lemma keeps_refl [simp]: "keeps s s"
  by (simp add: keeps_def)

lemma keeps_frame:
  assumes "live s' = live s" "rs_ready s' = rs_ready s" "rs_spawn_queue s' = rs_spawn_queue s" "rs_waiting s' = rs_waiting s"
    "rs_parked s' = rs_parked s" "rs_mid_poll s' = rs_mid_poll s" "rs_woken s' = rs_woken s" "rs_done s' = rs_done s"
    "length (rs_tasks s') = length (rs_tasks s)" "held s' = held s" "rs_workers s' = rs_workers s"
    "rs_gen s' = rs_gen s" "rs_current s' = rs_current s" "\<And>t. set (rs_join_wakers s t) \<subseteq> set (rs_join_wakers s' t)"
  shows "keeps s s'"
  using assms(12-14) by (simp add: keeps_def frame [OF assms(1-11)])

lemma keeps_wake: "keeps s (wake_by_ref w s)"
  unfolding keeps_def using wk.inv wk.keeps_delivered wk.joiners by auto

lemma keeps_abort: "keeps s (request_abort t s)"
proof -
  have "delivered u (request_abort t s)" if "sched_inv c s" "delivered u s" for c u
    using inv_waiting [OF that(1)] that(2) by (auto simp: delivered_def request_abort_def Let_def live_def is_done_def)
  moreover have "rs_gen (request_abort t s) = rs_gen s" "rs_current (request_abort t s) = rs_current s"
    "rs_join_wakers (request_abort t s) = rs_join_wakers s"
    by (simp_all add: request_abort_def Let_def)
  ultimately show ?thesis unfolding keeps_def by (simp add: inv_abort)
qed

lemma keeps_unpark: "keeps s (unpark_all obj s)"
proof -
  have "delivered u s \<Longrightarrow> delivered u (unpark_all obj s)" for u
    by (auto simp: delivered_def unpark_all_def Let_def live_def is_done_def split: option.splits)
  then show ?thesis
    unfolding keeps_def by (simp add: inv_unpark) (simp add: unpark_all_def Let_def split: option.splits)
qed

lemma keeps_spawned:
  assumes q: "queue_spawn label s = (Some t, s')"
    and s'': "s'' = s'\<lparr>rs_tasks := tasks\<rparr>" "length tasks = length (rs_tasks s')"
      "\<And>u. u < t \<Longrightarrow> tm_blocking (tasks ! u) = tm_blocking (rs_tasks s' ! u)"
  shows "keeps s s''"
proof -
  note k = queue_spawn_keeps [OF q]
  have "delivered u s''" if "delivered u s" for u
  proof (cases "u = t")
    case True
    then show ?thesis by (simp add: delivered_def s''(1) k)
  next
    case False
    then have "u \<in> live s'' \<Longrightarrow> u \<in> live s" using k(1,2) by (auto simp: live_def is_done_def s''(1,2) k(11))
    with that False show ?thesis by (auto simp: delivered_def s''(1) k)
  qed
  then show ?thesis
    unfolding keeps_def using inv_spawned [OF _ q s''] by (simp add: s''(1) k)
qed

lemma keeps_spawn: "queue_spawn label s = (Some t, s') \<Longrightarrow> keeps s s'"
  by (erule keeps_spawned [where tasks = "rs_tasks s'"]) simp_all

lemma keeps_call_hook: "call_hook h s = Ok s' \<Longrightarrow> keeps s s'"
proof (induction h)
  case (SpawnBlocking label)
  then obtain t s1 where q: "queue_spawn label s = (Some t, s1)"
    and s': "s' = s1\<lparr>rs_tasks := (rs_tasks s1)[t := (rs_tasks s1 ! t)\<lparr>tm_blocking := True\<rparr>]\<rparr>"
    by (auto simp: spawn_blocking_boxed_def split: prod.splits option.splits)
  show ?case by (rule keeps_spawned [OF q s']) (simp_all)
next
  case (Spawn label)
  then show ?case by (auto simp: spawn_boxed_def split: prod.splits option.splits intro: keeps_spawn)
next
  case (TrySpawn label)
  then show ?case
    by (cases "queue_spawn label s"; cases "fst (queue_spawn label s)")
      (auto simp: try_spawn_boxed_def dest: queue_spawn_None keeps_spawn)
next
  case (RegisterTimer deadline w)
  then show ?case
    by (auto simp: register_timer_def bindr_eq_Ok mapr_eq_Ok live_def is_done_def held_def intro: keeps_frame)
next
  case NewObject
  then show ?case
    by (auto simp: new_object_def bindr_eq_Ok mapr_eq_Ok live_def is_done_def held_def intro: keeps_frame)
next
  case (JoinPoll t w)
  have "keeps s (s\<lparr>rs_join_wakers := (rs_join_wakers s)(t := rs_join_wakers s t @ [w])\<rparr>)"
    by (rule keeps_frame) (auto simp: live_def is_done_def held_def)
  with JoinPoll show ?case by (auto simp: join_poll_def split: option.splits)
next
  case (ExternalWait waiting)
  have "keeps s (s\<lparr>rs_external := x\<rparr>)" for x
    by (rule keeps_frame) (auto simp: live_def is_done_def held_def)
  with ExternalWait show ?case by (auto simp: set_external_wait_def split: option.splits)
next
  case (CancelTimer timer)
  then have "s' = cancel_timer timer s" by simp
  then show ?case by (simp only:) (rule keeps_frame, auto simp: cancel_timer_def live_def is_done_def held_def)
qed (auto simp: keeps_wake keeps_abort keeps_unpark)

interpretation hk: sched_op task_hook
proof unfold_locales
  have k: "keeps s (task_hook h s)" for h s
    by (auto simp: task_hook_def keeps_call_hook split: res.splits)
  show "sched_inv c s \<Longrightarrow> sched_inv c (task_hook h s)" for c s h using k by (auto simp: keeps_def)
  show "sched_inv c s \<Longrightarrow> delivered t s \<Longrightarrow> delivered t (task_hook h s)" for c s h t using k by (auto simp: keeps_def)
  show "rs_gen (task_hook h s) = rs_gen s" "rs_current (task_hook h s) = rs_current s" for s h using k by (auto simp: keeps_def)
  show "w \<in> set (rs_join_wakers s t) \<Longrightarrow> w \<in> set (rs_join_wakers (task_hook h s) t)" for s h t w
    using k by (auto simp: keeps_def)
qed

section \<open>Steps keep the invariant\<close>

lemma inv_lane: "sched_inv c s \<Longrightarrow> lane c s t"
  by (simp add: sched_inv_def lanes_def)

lemma inv_admit:
  assumes inv: "sched_inv c s"
  shows "sched_inv c (admit s)"
proof (rule sched_inv_cong [OF inv])
  show "lanes c (admit s)"
    by (rule lanesI [OF inv_lanes [OF inv]])
      (auto simp: lane_def Let_def admit_def parked_tasks_def live_def is_done_def)
qed (simp_all add: admit_def held_def)

lemma delivered_admit:
  assumes "sched_inv c s" "delivered t s"
  shows "delivered t (admit s)"
proof -
  have "t \<in> set (rs_spawn_queue s) \<Longrightarrow> t \<notin> rs_mid_poll s" using inv_lane [OF assms(1), of t] by (auto simp: lane_def Let_def)
  with assms(2) show ?thesis by (auto simp: delivered_def admit_def live_def is_done_def)
qed

lemma admit_fields [simp]: "rs_gen (admit s) = rs_gen s" "rs_current (admit s) = rs_current s" "rs_mid_poll (admit s) = rs_mid_poll s"
  "rs_join_wakers (admit s) = rs_join_wakers s" "rs_spawn_queue (admit s) = []"
  by (simp_all add: admit_def)

text \<open>Handing a task a worker.\<close>

definition started :: "task_id \<Rightarrow> run_state \<Rightarrow> run_state" where
  "started t s = s\<lparr>rs_current := Some t, rs_ready := rs_ready s - {t}, rs_mid_poll := insert t (rs_mid_poll s)\<rparr>"

lemma finite_mid_poll: "sched_inv c s \<Longrightarrow> finite (rs_mid_poll s)"
  using inv_mid_poll finite_subset by blast

lemma inv_started:
  assumes inv: "sched_inv None s" and el: "t \<in> eligible s" and q: "rs_spawn_queue s = []"
  shows "sched_inv (Some t) (started t s)"
proof -
  have r: "t \<in> rs_ready s" using el by (auto simp: eligible_def Let_def)
  have "lane (Some t) (started t s) u" if "lane None s u" for u
    using that r inv_lane [OF inv, of t]
    by (cases "u = t") (auto simp: lane_def Let_def started_def q parked_tasks_def live_def is_done_def)
  then have "lanes (Some t) (started t s)" by (rule lanesI [OF inv_lanes [OF inv]])
  moreover have "card (held (started t s)) \<le> rs_workers s"
  proof (cases "t \<in> rs_mid_poll s \<or> tm_blocking (rs_tasks s ! t)")
    case True
    then have "held (started t s) = held s" by (auto simp: held_def started_def)
    with inv show ?thesis by (simp add: sched_inv_def)
  next
    case False
    then have "card (held s) < rs_workers s" using el by (auto simp: eligible_def Let_def)
    moreover have "held (started t s) = insert t (held s)" using False by (auto simp: held_def started_def)
    moreover have "finite (held s)" using finite_mid_poll [OF inv] by (simp add: held_def)
    ultimately show ?thesis by (simp add: card_insert_if)
  qed
  ultimately show ?thesis using inv by (simp add: sched_inv_def started_def parked_tasks_def)
qed

lemma delivered_started:
  assumes "delivered t s" "u \<noteq> t \<or> t \<in> rs_mid_poll s"
  shows "delivered t (started u s)"
  using assms by (auto simp: delivered_def started_def live_def is_done_def)

text \<open>Recording a point.\<close>

lemma advance_point_fields:
  "length (rs_tasks (advance_point t p obj s)) = length (rs_tasks s)" "tm_blocking (rs_tasks (advance_point t p obj s) ! u) = tm_blocking (rs_tasks s ! u)"
  "rs_ready (advance_point t p obj s) = rs_ready s" "rs_spawn_queue (advance_point t p obj s) = rs_spawn_queue s"
  "rs_waiting (advance_point t p obj s) = rs_waiting s" "rs_parked (advance_point t p obj s) = rs_parked s"
  "rs_mid_poll (advance_point t p obj s) = rs_mid_poll s" "rs_woken (advance_point t p obj s) = rs_woken s"
  "rs_done (advance_point t p obj s) = rs_done s" "rs_workers (advance_point t p obj s) = rs_workers s"
  "rs_gen (advance_point t p obj s) = rs_gen s" "rs_current (advance_point t p obj s) = rs_current s"
  "rs_cancel_requested (advance_point t p obj s) = rs_cancel_requested s"
  "rs_join_wakers (advance_point t p obj s) = rs_join_wakers s"
  by (simp_all add: advance_point_def Let_def nth_update_keeps)

lemma advance_point_frame [simp]:
  "sched_inv c (advance_point t p obj s) = sched_inv c s" "delivered u (advance_point t p obj s) = delivered u s"
  "live (advance_point t p obj s) = live s"
proof -
  have live: "live (advance_point t p obj s) = live s" by (simp add: live_def is_done_def advance_point_fields)
  have held: "held (advance_point t p obj s) = held s" by (rule held_cong) (simp_all add: advance_point_fields)
  show "sched_inv c (advance_point t p obj s) = sched_inv c s" "delivered u (advance_point t p obj s) = delivered u s"
    using frame [OF live _ _ _ _ _ _ _ _ held] by (simp_all add: advance_point_fields)
  show "live (advance_point t p obj s) = live s" by (rule live)
qed

text \<open>The current task is only looked at by the hooks.\<close>

lemma current_frame [simp]: "sched_inv c (s\<lparr>rs_current := x\<rparr>) = sched_inv c s" "delivered u (s\<lparr>rs_current := x\<rparr>) = delivered u s"
  by (rule frame; simp add: live_def is_done_def held_def)+

text \<open>Handing control back at a preemption point.\<close>

lemma inv_preempted:
  assumes inv: "sched_inv (Some t) s"
  shows "sched_inv None (s\<lparr>rs_ready := insert t (rs_ready s)\<rparr>)"
proof -
  let ?s = "s\<lparr>rs_ready := insert t (rs_ready s)\<rparr>"
  have "lane None ?s u" if "lane (Some t) s u" for u
    using that by (cases "u = t") (auto simp: lane_def Let_def parked_tasks_def live_def is_done_def)
  then have "lanes None ?s" by (rule lanesI [OF inv_lanes [OF inv]])
  then show ?thesis using inv by (simp add: sched_inv_def parked_tasks_def held_def)
qed

lemma inv_current:
  assumes "sched_inv (Some t) s"
  shows "t \<in> live s" "t \<in> rs_mid_poll s" "t \<notin> rs_ready s" "t \<notin> rs_waiting s" "t \<notin> set (rs_spawn_queue s)" "t \<notin> set (parked_tasks s)"
  using inv_lane [OF assms, of t] by (auto simp: lane_def Let_def)

lemma delivered_preempted:
  assumes "sched_inv (Some t) s" "delivered u s"
  shows "delivered u (s\<lparr>rs_ready := insert t (rs_ready s)\<rparr>)"
  using assms(2) inv_current [OF assms(1)] by (auto simp: delivered_def live_def is_done_def)

text \<open>A poll that returns: a wake recorded in it, or an abort, makes the task ready again.\<close>

lemma held_without: "held (s\<lparr>rs_mid_poll := rs_mid_poll s - {t}\<rparr>) = held s - {t}"
  by (auto simp: held_def)

lemma inv_pending:
  assumes inv: "sched_inv (Some t) s"
  defines "s1 \<equiv> s\<lparr>rs_mid_poll := rs_mid_poll s - {t}\<rparr>"
  shows "sched_inv None (s1\<lparr>rs_woken := rs_woken s1 - {t}, rs_ready := insert t (rs_ready s1)\<rparr>)" (is "sched_inv None ?a")
    and "t \<notin> rs_woken s \<Longrightarrow> sched_inv None (s1\<lparr>rs_waiting := insert t (rs_waiting s1)\<rparr>)" (is "_ \<Longrightarrow> sched_inv None ?b")
proof -
  have "lane None ?a u" if "lane (Some t) s u" for u
    using that by (cases "u = t") (auto simp: lane_def Let_def s1_def parked_tasks_def live_def is_done_def)
  then have "lanes None ?a" by (rule lanesI [OF inv_lanes [OF inv]])
  moreover have h: "held ?a = held s - {t}" "held ?b = held s - {t}" by (auto simp: s1_def held_def)
  moreover have card: "card (held s - {t}) \<le> rs_workers s"
    using inv card_Diff1_le [of "held s" t] by (simp add: sched_inv_def)
  ultimately show "sched_inv None ?a" using inv by (simp add: sched_inv_def s1_def parked_tasks_def)
  assume w: "t \<notin> rs_woken s"
  have "lane None ?b u" if "lane (Some t) s u" for u
    using that w by (cases "u = t") (auto simp: lane_def Let_def s1_def parked_tasks_def live_def is_done_def)
  then have "lanes None ?b" by (rule lanesI [OF inv_lanes [OF inv]])
  then show "sched_inv None ?b" using inv card h(2) by (simp add: sched_inv_def s1_def parked_tasks_def)
qed

lemma delivered_pending:
  assumes inv: "sched_inv (Some t) s" and d: "delivered u s"
  defines "s1 \<equiv> s\<lparr>rs_mid_poll := rs_mid_poll s - {t}\<rparr>"
  shows "delivered u (s1\<lparr>rs_woken := rs_woken s1 - {t}, rs_ready := insert t (rs_ready s1)\<rparr>)"
    and "t \<notin> rs_woken s \<Longrightarrow> delivered u (s1\<lparr>rs_waiting := insert t (rs_waiting s1)\<rparr>)"
  using d inv_current [OF inv] unfolding s1_def by (auto simp: delivered_def live_def is_done_def)

text \<open>Parking.\<close>

lemma inv_parked:
  assumes inv: "sched_inv (Some t) s" and cur: "rs_current s = Some t"
  shows "sched_inv None (snd (park obj h s))" "delivered u s \<Longrightarrow> delivered u (snd (park obj h s))"
proof -
  let ?s = "snd (park obj h s)"
  let ?m = "AList.update obj ((case map_of (rs_parked s) obj of None \<Rightarrow> [] | Some ts \<Rightarrow> ts) @ [t]) (rs_parked s)"
  have fields: "rs_parked ?s = ?m" "rs_ready ?s = rs_ready s" "rs_waiting ?s = rs_waiting s" "rs_mid_poll ?s = rs_mid_poll s"
    "rs_woken ?s = rs_woken s" "rs_spawn_queue ?s = rs_spawn_queue s" "live ?s = live s" "held ?s = held s" "rs_done ?s = rs_done s"
    "rs_tasks ?s = rs_tasks s" "rs_workers ?s = rs_workers s"
    by (simp_all add: park_def cur Let_def live_def is_done_def held_def split: option.splits)
  have P: "set (parked_tasks ?s) = insert t (set (parked_tasks s))" unfolding parked_tasks_def fields by (rule set_concat_push)
  have "lane None ?s u" if "lane (Some t) s u" for u
    using that by (cases "u = t") (auto simp: lane_def Let_def fields P)
  then have "lanes None ?s" by (rule lanesI [OF inv_lanes [OF inv]])
  moreover have "distinct (parked_tasks ?s)"
    using inv inv_current(6) [OF inv] unfolding parked_tasks_def fields
    by (intro distinct_concat_push) (simp_all add: sched_inv_def parked_tasks_def)
  moreover have "distinct (map fst (rs_parked ?s))" using inv by (simp add: fields sched_inv_def distinct_update)
  ultimately show "sched_inv None ?s" using inv by (simp add: sched_inv_def fields)
  show "delivered u s \<Longrightarrow> delivered u ?s" unfolding delivered_def fields .
qed

text \<open>The end of a task.\<close>

definition ended :: "task_id \<Rightarrow> task_exit \<Rightarrow> run_state \<Rightarrow> run_state" where
  "ended t e s = s\<lparr>rs_ready := rs_ready s - {t}, rs_waiting := rs_waiting s - {t}, rs_mid_poll := rs_mid_poll s - {t},
            rs_woken := rs_woken s - {t}, rs_cancel_requested := rs_cancel_requested s - {t},
            rs_external := rs_external s - {t},
            rs_parked := map (\<lambda>(obj, ts). (obj, filter (\<lambda>u. u \<noteq> t) ts)) (rs_parked s),
            rs_done := bt_insert t e (rs_done s), rs_join_wakers := (rs_join_wakers s)(t := [])\<rparr>"

lemma finish_task_ended: "finish_task t e s = fold wake_by_ref (rs_join_wakers s t) (ended t e s)"
  by (simp add: finish_task_def ended_def Let_def)

lemma inv_ended:
  assumes inv: "sched_inv (Some t) s"
  shows "sched_inv None (ended t e s)" "delivered u s \<Longrightarrow> delivered u (ended t e s)"
proof -
  let ?s = "ended t e s"
  have "bt_sorted (rs_done s)" using inv by (simp add: sched_inv_def)
  then have live: "live ?s = live s - {t}" by (auto simp: live_def is_done_def ended_def map_of_bt_insert)
  have P: "set (parked_tasks ?s) = set (parked_tasks s) - {t}"
    unfolding parked_tasks_def ended_def using set_parked_without [of t "rs_parked s"] by simp
  have "lane None ?s u" if "lane (Some t) s u" for u
    using that unfolding lane_def Let_def live P by (cases "u = t") (auto simp: ended_def)
  then have "lanes None ?s" by (rule lanesI [OF inv_lanes [OF inv]])
  moreover have "distinct (parked_tasks ?s)"
    unfolding parked_tasks_def ended_def using inv distinct_parked_without [of "rs_parked s" t]
    by (simp add: sched_inv_def parked_tasks_def)
  moreover have "map fst (rs_parked ?s) = map fst (rs_parked s)" by (simp add: ended_def split_beta)
  moreover have "held ?s = held s - {t}" by (auto simp: held_def ended_def)
  moreover have "card (held s - {t}) \<le> rs_workers s"
    using inv card_Diff1_le [of "held s" t] by (simp add: sched_inv_def)
  moreover have "t < length (rs_tasks s)" using inv_current(1) [OF inv] by (simp add: live_def)
  ultimately show "sched_inv None ?s" using inv
    by (simp add: sched_inv_def) (simp add: ended_def bt_sorted_insert fst_bt_insert)
  show "delivered u s \<Longrightarrow> delivered u ?s" using inv_current(5) [OF inv] by (auto simp: delivered_def live) (auto simp: ended_def)
qed

definition returned :: "task_id \<Rightarrow> yielded \<Rightarrow> run_state \<Rightarrow> run_state" where
  "returned t y s = after_return t y ((before_return y s)\<lparr>rs_current := None\<rparr>)"

lemma advance_point_commutes:
  "(advance_point t p obj s)\<lparr>rs_woken := a, rs_ready := b\<rparr> = advance_point t p obj (s\<lparr>rs_woken := a, rs_ready := b\<rparr>)"
  "(advance_point t p obj s)\<lparr>rs_waiting := b\<rparr> = advance_point t p obj (s\<lparr>rs_waiting := b\<rparr>)"
  by (simp_all add: advance_point_def Let_def)

lemma returned_keeps:
  assumes inv: "sched_inv (Some t) s" and cur: "rs_current s = Some t"
  shows "sched_inv None (returned t y s) \<and> (delivered u s \<longrightarrow> delivered u (returned t y s)) \<and>
    rs_gen (returned t y s) = rs_gen s \<and> rs_current (returned t y s) = None"
proof (cases y)
  case (Preempt p obj)
  let ?s = "(advance_point t p obj s)\<lparr>rs_current := None\<rparr>"
  have r: "returned t y s = ?s\<lparr>rs_ready := insert t (rs_ready ?s)\<rparr>"
    by (simp add: returned_def before_return_def after_return_def preempt_def cur Preempt)
  have i: "sched_inv (Some t) ?s" using inv by simp
  show ?thesis
    using inv_preempted [OF i] delivered_preempted [OF i, of u] by (simp add: r advance_point_fields)
next
  case Pending
  let ?s = "s\<lparr>rs_current := None\<rparr>"
  let ?m = "?s\<lparr>rs_mid_poll := rs_mid_poll ?s - {t}\<rparr>"
  have i: "sched_inv (Some t) ?s" using inv by simp
  have r: "returned t y s = (if t \<in> rs_woken s \<or> t \<in> rs_cancel_requested s
      then advance_point t OpPoll None (?m\<lparr>rs_woken := rs_woken ?m - {t}, rs_ready := insert t (rs_ready ?m)\<rparr>)
      else advance_point t OpPoll None (?m\<lparr>rs_waiting := insert t (rs_waiting ?m)\<rparr>))"
    by (simp add: returned_def before_return_def after_return_def Pending Let_def advance_point_fields
        advance_point_commutes [symmetric])
  show ?thesis
    unfolding r using inv_pending [OF i] delivered_pending [OF i, of u] by (simp add: advance_point_fields)
next
  case (Park obj h)
  have r: "returned t y s = (snd (park obj h s))\<lparr>rs_current := None\<rparr>"
    by (simp add: returned_def before_return_def after_return_def Park)
  have "rs_gen (snd (park obj h s)) = rs_gen s" by (simp add: park_def Let_def split: option.splits)
  then show ?thesis
    using inv_parked [OF inv cur, where obj = obj and h = h] by (simp add: r)
next
  case (Return e)
  let ?s = "s\<lparr>rs_current := None\<rparr>"
  have i: "sched_inv (Some t) ?s" using inv by simp
  have r: "returned t y s = fold wake_by_ref (rs_join_wakers ?s t) (ended t e ?s)"
    by (simp add: returned_def before_return_def after_return_def Return finish_task_ended)
  have "rs_gen (ended t e ?s) = rs_gen s" "rs_current (ended t e ?s) = None" by (simp_all add: ended_def)
  then show ?thesis
    using wk.fold_inv [OF inv_ended(1) [OF i]] wk.fold_delivered [OF inv_ended(1) [OF i] inv_ended(2) [OF i]] by (simp add: r)
qed

lemma inv_returned:
  assumes "sched_inv (Some t) s" "rs_current s = Some t"
  shows "sched_inv None (returned t y s)" "delivered u s \<Longrightarrow> delivered u (returned t y s)"
    "rs_gen (returned t y s) = rs_gen s" "rs_current (returned t y s) = None"
  using returned_keeps [OF assms] by simp_all

text \<open>The command a task is resumed with, and the state in which its code returns.\<close>

definition sent :: "task_id \<Rightarrow> run_state \<Rightarrow> cmd" where
  "sent t s = (if t \<notin> rs_mid_poll s \<and> t \<in> rs_cancel_requested s then Cancel else Poll)"

lemma resume_eq: "resume t code s = admit (returned t (snd (code (sent t s))) (fold task_hook (fst (code (sent t s))) (started t s)))"
  by (simp add: resume_def Let_def sent_def started_def returned_def split_beta)

lemma run_task_Ok:
  "run_task t code s = Ok s' \<longleftrightarrow> t \<in> eligible (admit s) \<and> s' = resume t code (admit s)"
  by (auto simp: run_task_def Let_def assertr_def)

lemma inv_hooks:
  assumes "sched_inv None s" "t \<in> eligible s" "rs_spawn_queue s = []"
  shows "sched_inv (Some t) (fold task_hook hooks (started t s))" "rs_current (fold task_hook hooks (started t s)) = Some t"
    "rs_gen (fold task_hook hooks (started t s)) = rs_gen s"
  using hk.fold_inv [OF inv_started [OF assms]] by (simp_all add: started_def)

lemma inv_resume:
  assumes inv: "sched_inv None s" "t \<in> eligible s" "rs_spawn_queue s = []"
  shows "sched_inv None (resume t code s)" "rs_gen (resume t code s) = rs_gen s" "rs_current (resume t code s) = None"
    "rs_spawn_queue (resume t code s) = []"
    "delivered u s \<Longrightarrow> u \<noteq> t \<or> t \<in> rs_mid_poll s \<Longrightarrow> delivered u (resume t code s)"
proof -
  let ?s = "fold task_hook (fst (code (sent t s))) (started t s)" and ?y = "snd (code (sent t s))"
  note h = inv_hooks [OF inv, where hooks = "fst (code (sent t s))"]
  note r = inv_returned [OF h(1,2), where y = ?y]
  show "sched_inv None (resume t code s)" "rs_gen (resume t code s) = rs_gen s" "rs_current (resume t code s) = None"
    "rs_spawn_queue (resume t code s) = []"
    using r(1,3,4) h(3) by (simp_all add: resume_eq inv_admit)
  assume "delivered u s" "u \<noteq> t \<or> t \<in> rs_mid_poll s"
  then have "delivered u ?s" by (intro hk.fold_delivered [OF inv_started [OF inv]] delivered_started) auto
  then show "delivered u (resume t code s)" using r(1,2) by (simp add: resume_eq delivered_admit)
qed

text \<open>The states between two steps of the driver.\<close>

definition at_rest :: "run_state \<Rightarrow> bool" where
  "at_rest s \<longleftrightarrow> sched_inv None s \<and> rs_current s = None \<and> set (rs_spawn_queue s) \<subseteq> rs_ready s"

lemma wake_lists: "rs_spawn_queue (wake_by_ref w s) = rs_spawn_queue s" "rs_ready s \<subseteq> rs_ready (wake_by_ref w s)"
  by (auto simp: wake_by_ref_def)

lemma fold_wake_lists:
  "rs_spawn_queue (fold wake_by_ref ws s) = rs_spawn_queue s" "rs_ready s \<subseteq> rs_ready (fold wake_by_ref ws s)"
proof -
  show "rs_spawn_queue (fold wake_by_ref ws s) = rs_spawn_queue s" by (induction ws arbitrary: s) (simp_all add: wake_lists)
  show "rs_ready s \<subseteq> rs_ready (fold wake_by_ref ws s)"
  proof (induction ws arbitrary: s)
    case (Cons w ws)
    show ?case using wake_lists(2) [of s w] Cons [of "wake_by_ref w s"] by simp
  qed simp
qed

lemma call_hook_queue:
  assumes "call_hook h s = Ok s'" "rs_current s = None" "set (rs_spawn_queue s) \<subseteq> rs_ready s"
  shows "set (rs_spawn_queue s') \<subseteq> rs_ready s'"
proof (cases h)
  case (Spawn label)
  then obtain t where "queue_spawn label s = (Some t, s')" using assms(1)
    by (auto simp: spawn_boxed_def split: prod.splits option.splits)
  from queue_spawn_keeps [OF this] assms(2,3) show ?thesis by auto
next
  case (SpawnBlocking label)
  then obtain t s1 where q: "queue_spawn label s = (Some t, s1)" "rs_spawn_queue s' = rs_spawn_queue s1" "rs_ready s' = rs_ready s1"
    using assms(1) by (auto simp: spawn_blocking_boxed_def split: prod.splits option.splits)
  from queue_spawn_keeps [OF q(1)] assms(2,3) q(2,3) show ?thesis by auto
next
  case (TrySpawn label)
  then have s': "s' = snd (queue_spawn label s)" using assms(1) by (simp add: try_spawn_boxed_def)
  show ?thesis
  proof (cases "fst (queue_spawn label s)")
    case None
    then have "s' = s" using queue_spawn_None [of label s s'] by (simp add: s' prod_eq_iff)
    with assms(3) show ?thesis by simp
  next
    case (Some t)
    then have "queue_spawn label s = (Some t, s')" by (simp add: s' prod_eq_iff)
    from queue_spawn_keeps [OF this] assms(2,3) show ?thesis by auto
  qed
next
  case (Wake w)
  then show ?thesis using assms wake_lists [where w = w and s = s] by auto
qed (use assms in \<open>auto simp: unpark_all_def request_abort_def register_timer_def new_object_def cancel_timer_def set_external_wait_def
    join_poll_def Let_def res_eqs split: option.splits if_splits\<close>)

lemma at_rest_step:
  assumes rest: "at_rest s" and st: "step s e = Ok s'"
  shows "at_rest s'" "rs_gen s' = rs_gen s"
proof -
  have inv: "sched_inv None s" "rs_current s = None" "set (rs_spawn_queue s) \<subseteq> rs_ready s" using rest by (simp_all add: at_rest_def)
  have "at_rest s' \<and> rs_gen s' = rs_gen s"
  proof (cases e)
    case (Run t code)
    then have el: "t \<in> eligible (admit s)" and s': "s' = resume t code (admit s)" using st by (simp_all add: run_task_Ok)
    show ?thesis using inv_resume [OF inv_admit [OF inv(1)] el] by (simp add: s' at_rest_def)
  next
    case (AdvanceTo t)
    then obtain ws x where s': "s' = fold wake_by_ref ws (s\<lparr>rs_now := t, rs_timers := x\<rparr>)"
      using st by (auto simp: advance_to_def res_eqs Let_def)
    have "sched_inv None (s\<lparr>rs_now := t, rs_timers := x\<rparr>)"
      using inv(1) by (subst frame [where s = s]) (simp_all add: live_def is_done_def held_def)
    from wk.fold_inv [OF this] show ?thesis
      using inv(2,3) fold_wake_lists [where ws = ws and s = "s\<lparr>rs_now := t, rs_timers := x\<rparr>"] by (auto simp: at_rest_def s')
  next
    case (SpawnRoot label)
    then obtain t s1 where q: "queue_spawn label s = (Some t, s1)" and s': "s' = admit s1"
      using st by (auto simp: spawn_root_def res_eqs split: prod.splits option.splits)
    show ?thesis using keeps_spawn [OF q] inv by (auto simp: keeps_def at_rest_def s' inv_admit)
  next
    case (Setup h)
    then have h: "call_hook h s = Ok s'" using st by simp
    show ?thesis using keeps_call_hook [OF h] call_hook_queue [OF h] inv by (auto simp: keeps_def at_rest_def)
  qed
  then show "at_rest s'" "rs_gen s' = rs_gen s" by simp_all
qed

lemma reachable_at_rest: "reachable s \<Longrightarrow> at_rest s"
proof (induction rule: reachable.induct)
  case (init gen workers max_tasks start s)
  then show ?case
    by (auto simp: new_run_def res_eqs at_rest_def sched_inv_def lanes_def lane_def parked_tasks_def live_def held_def)
qed (rule at_rest_step)

text \<open>Every step keeps a delivered wake-up delivered, unless it starts a poll of the task.\<close>

lemma delivered_step:
  assumes rest: "at_rest s" and st: "step s e = Ok s'" and d: "delivered t s"
    and np: "\<And>code. e = Run t code \<Longrightarrow> t \<in> rs_mid_poll s"
  shows "delivered t s'"
proof (cases e)
  case (Run u code)
  then have el: "u \<in> eligible (admit s)" and s': "s' = resume u code (admit s)" using st by (simp_all add: run_task_Ok)
  have inv: "sched_inv None s" using rest by (simp add: at_rest_def)
  show ?thesis unfolding s'
    using Run np by (intro inv_resume(5) [OF inv_admit [OF inv] el] delivered_admit [OF inv d]) auto
next
  case (AdvanceTo d')
  then obtain ws x where s': "s' = fold wake_by_ref ws (s\<lparr>rs_now := d', rs_timers := x\<rparr>)"
    using st by (auto simp: advance_to_def res_eqs Let_def)
  have "sched_inv None (s\<lparr>rs_now := d', rs_timers := x\<rparr>)" "delivered t (s\<lparr>rs_now := d', rs_timers := x\<rparr>)"
    using rest d by (subst frame [where s = s]; simp add: live_def is_done_def held_def at_rest_def)+
  then show ?thesis unfolding s' by (rule wk.fold_delivered)
next
  case (SpawnRoot label)
  then obtain u s1 where q: "queue_spawn label s = (Some u, s1)" and s': "s' = admit s1"
    using st by (auto simp: spawn_root_def res_eqs split: prod.splits option.splits)
  show ?thesis using keeps_spawn [OF q] rest d by (auto simp: keeps_def at_rest_def s' intro: delivered_admit)
next
  case (Setup h)
  then have h: "call_hook h s = Ok s'" using st by simp
  show ?thesis using keeps_call_hook [OF h] rest d by (auto simp: keeps_def at_rest_def)
qed

section \<open>No wake-up is lost\<close>

text \<open>
  The wakers that a step calls: those its task wakes, those of the tasks that wait for the end of it, and those of the timers that
  are due. A timer at the last instant is never due.
\<close>

primrec event_wakes :: "run_state \<Rightarrow> event \<Rightarrow> task_waker set" where
  "event_wakes s (Run t code) =
     {w. Wake w \<in> set (fst (code (sent t s)))} \<union> (case snd (code (sent t s)) of Return _ \<Rightarrow> set (rs_join_wakers s t) | _ \<Rightarrow> {})"
| "event_wakes s (AdvanceTo d) = {w. \<exists>deadline seq. ((deadline, seq), w) \<in> set (rs_timers s) \<and> deadline \<le> d \<and> deadline < MAX_INSTANT}"
| "event_wakes s (SpawnRoot label) = {}"
| "event_wakes s (Setup h) = (case h of Wake w \<Rightarrow> {w} | _ \<Rightarrow> {})"

lemma hooks_deliver:
  assumes "Wake w \<in> set hooks" "sched_inv c s" "rs_gen s = w_gen w"
  shows "delivered (w_task w) (fold task_hook hooks s)"
  by (rule hk.fold_delivers [OF assms(1,2) _ assms(3)]) (simp add: task_hook_def wake_delivers)

lemma wakes_deliver:
  assumes "w \<in> set ws" "sched_inv c s" "rs_gen s = w_gen w"
  shows "delivered (w_task w) (fold wake_by_ref ws s)"
  by (rule wk.fold_delivers [OF assms(1,2) _ assms(3)]) (simp add: wake_delivers)

lemma resume_delivers:
  assumes inv: "sched_inv None s" "t \<in> eligible s" "rs_spawn_queue s = []"
    and w: "w \<in> event_wakes s (Run t code)" and g: "w_gen w = rs_gen s"
  shows "delivered (w_task w) (resume t code s)"
proof -
  let ?hooks = "fst (code (sent t s))" and ?y = "snd (code (sent t s))"
  let ?s = "fold task_hook ?hooks (started t s)"
  note h = inv_hooks [OF inv, where hooks = ?hooks]
  note r = inv_returned [OF h(1,2), where y = ?y]
  have "delivered (w_task w) (returned t ?y ?s)"
  proof (cases "Wake w \<in> set ?hooks")
    case True
    then have "delivered (w_task w) ?s" using g by (intro hooks_deliver [OF _ inv_started [OF inv]]) (simp_all add: started_def)
    then show ?thesis by (rule r(2))
  next
    case False
    then obtain e where y: "?y = Return e" and j: "w \<in> set (rs_join_wakers s t)" using w by (auto split: yielded.splits)
    let ?e = "?s\<lparr>rs_current := None\<rparr>"
    have "w \<in> set (rs_join_wakers ?e t)" using hk.fold_joiners [of w "started t s" t] j by (simp add: started_def)
    moreover have "sched_inv None (ended t e ?e)" using h(1) by (intro inv_ended) simp
    moreover have "rs_gen (ended t e ?e) = w_gen w" using g h(3) by (simp add: ended_def)
    ultimately show ?thesis using wakes_deliver [of w "rs_join_wakers ?e t" None "ended t e ?e"]
      by (simp add: returned_def before_return_def after_return_def y finish_task_ended)
  qed
  then show ?thesis by (simp add: resume_eq delivered_admit [OF r(1)])
qed

lemma sent_admit: "sent t (admit s) = sent t s"
  by (simp add: sent_def admit_def)

lemma step_delivers:
  assumes rest: "at_rest s" and st: "step s e = Ok s'" and w: "w \<in> event_wakes s e" and g: "w_gen w = rs_gen s"
  shows "delivered (w_task w) s'"
proof (cases e)
  case (Run t code)
  have inv: "sched_inv None (admit s)" using rest by (simp add: at_rest_def inv_admit)
  have eq: "event_wakes (admit s) (Run t code) = event_wakes s (Run t code)" 
    by (cases "snd (code (sent t s))") (simp_all add: sent_admit)
  show ?thesis using st w g resume_delivers [OF inv, where w = w and t = t and code = code] unfolding eq
    by (simp add: Run run_task_Ok)
next
  case (AdvanceTo d)
  then obtain deadline seq where d: "((deadline, seq), w) \<in> set (rs_timers s)" "deadline \<le> d" "deadline < MAX_INSTANT" using w by auto
  let ?split = "(case instant_checked_add d 1 of Some u \<Rightarrow> u | None \<Rightarrow> d, 0 :: nat)"
  let ?fired = "filter (\<lambda>x. fst x < ?split) (rs_timers s)" and ?later = "filter (\<lambda>x. \<not> fst x < ?split) (rs_timers s)"
  let ?s = "s\<lparr>rs_now := d, rs_timers := ?later\<rparr>"
  have s': "s' = fold wake_by_ref (map snd ?fired) ?s" using st by (simp add: AdvanceTo advance_to_def res_eqs Let_def assertr_def split: if_splits)
  have "(deadline, seq) < ?split" using d(2,3) by (auto simp: instant_checked_add_def)
  with d(1) have "w \<in> set (map snd ?fired)" by force
  moreover have "sched_inv None ?s"
    using rest by (subst frame [where s = s]) (simp_all add: live_def is_done_def held_def at_rest_def)
  ultimately show ?thesis unfolding s' by (rule wakes_deliver) (simp add: g)
next
  case (Setup h)
  then show ?thesis using w st rest g by (auto simp: at_rest_def split: hook.splits intro!: wake_delivers)
qed (use w in simp)

text \<open>Runs of the driver in which no poll of \<open>t\<close> starts.\<close>

inductive unpolled :: "task_id \<Rightarrow> run_state \<Rightarrow> run_state \<Rightarrow> bool" for t where
  unpolled_refl: "unpolled t s s"
| unpolled_step: "unpolled t s s' \<Longrightarrow> step s' e = Ok s'' \<Longrightarrow> (\<And>code. e = Run t code \<Longrightarrow> t \<in> rs_mid_poll s') \<Longrightarrow> unpolled t s s''"

lemma unpolled_delivered: "unpolled t s s' \<Longrightarrow> at_rest s \<Longrightarrow> delivered t s \<Longrightarrow> at_rest s' \<and> delivered t s'"
proof (induction rule: unpolled.induct)
  case (unpolled_step s s' e s'')
  then show ?case using at_rest_step(1) delivered_step [of s' e s'' t] by blast
qed simp

text \<open>A task with a recorded wake whose poll returns \<open>Pending\<close> is ready after the step.\<close>

lemma woken_pending_ready:
  assumes rest: "at_rest s" and k: "t \<in> rs_woken s" "t \<in> rs_mid_poll s" and st: "step s (Run t code) = Ok s'" and y: "snd (code Poll) = Pending"
  shows "t \<in> rs_ready s' - rs_mid_poll s'"
proof -
  have inv: "sched_inv None (admit s)" using rest by (simp add: at_rest_def inv_admit)
  have el: "t \<in> eligible (admit s)" and s': "s' = resume t code (admit s)" using st by (simp_all add: run_task_Ok)
  have sent: "sent t (admit s) = Poll" using k by (simp add: sent_def)
  let ?s = "fold task_hook (fst (code Poll)) (started t (admit s))"
  note h = inv_hooks [OF inv el, where hooks = "fst (code Poll)"]
  have d: "delivered t ?s"
    by (rule hk.fold_delivered [OF inv_started [OF inv el]]) (use k in \<open>simp_all add: delivered_def started_def, simp add: admit_def\<close>)
  have "delivered t s'" unfolding s' resume_eq sent y using inv_returned(1,2) [OF h(1,2)] d by (intro delivered_admit) simp_all
  moreover have "t \<notin> rs_mid_poll s'"
    unfolding s' resume_eq sent y by (simp add: returned_def before_return_def after_return_def Let_def advance_point_fields)
  moreover have "rs_spawn_queue s' = []" by (simp add: s' resume_eq)
  moreover have "live s' = live ?s"
    unfolding s' resume_eq sent y
    by (simp add: returned_def before_return_def after_return_def admit_def live_def is_done_def Let_def advance_point_fields)
  ultimately show ?thesis using inv_current(1) [OF h(1)] by (auto simp: delivered_def)
qed

text \<open>A task at the start of a poll with a delivered wake-up is accepted as soon as there is a worker.\<close>

lemma delivered_accepted:
  assumes rest: "at_rest s" and d: "delivered t s" and l: "t \<in> live s" "t \<notin> rs_mid_poll s"
    and free: "card (held s) < rs_workers s \<or> tm_blocking (rs_tasks s ! t)"
  shows "\<exists>s'. step s (Run t code) = Ok s'"
proof -
  have "t \<in> rs_ready (admit s)" using d l by (auto simp: delivered_def admit_def)
  moreover have "held (admit s) = held s" "rs_workers (admit s) = rs_workers s" "rs_tasks (admit s) = rs_tasks s"
    by (simp_all add: held_def admit_def)
  ultimately have "t \<in> eligible (admit s)" using free by (auto simp: eligible_def Let_def)
  then show ?thesis by (simp add: run_task_Ok)
qed

section \<open>Lock cycles and the status\<close>

text \<open>A parked task waits for the task that holds what it is parked on.\<close>

definition task_waits :: "run_state \<Rightarrow> (task_id \<times> task_id) set" where
  "task_waits s = {(t, h). \<exists>obj ts. (obj, ts) \<in> set (rs_parked s) \<and> t \<in> set ts \<and> map_of (rs_holders s) obj = Some h}"

lemma set_waits_on: "set (waits_on s) = task_waits s"
  by (auto simp: waits_on_def task_waits_def List.map_filter_def; force)

lemma waits_on_fst:
  "map fst (waits_on s) = concat (map snd (filter (\<lambda>x. map_of (rs_holders s) (fst x) \<noteq> None) (rs_parked s)))"
proof -
  have "map fst (concat (List.map_filter (\<lambda>(obj, ts). map_option (\<lambda>h. map (\<lambda>t. (t, h)) ts) (map_of hs obj)) m)) =
      concat (map snd (filter (\<lambda>x. map_of hs (fst x) \<noteq> None) m))" for hs :: "(object_id \<times> task_id) list" and m :: "(object_id \<times> task_id list) list"
    by (induction m) (auto simp: List.map_filter_simps comp_def split: option.splits)
  then show ?thesis by (simp add: waits_on_def)
qed

lemma distinct_concat_filter: "distinct (concat (map f xs)) \<Longrightarrow> distinct (concat (map f (filter P xs)))"
  by (induction xs) auto

lemma map_of_waits_on:
  assumes "distinct (parked_tasks s)"
  shows "map_of (waits_on s) t = Some h \<longleftrightarrow> (t, h) \<in> task_waits s"
proof -
  have "distinct (map fst (waits_on s))"
    unfolding waits_on_fst using assms by (intro distinct_concat_filter) (simp add: parked_tasks_def)
  then show ?thesis by (simp add: map_of_eq_Some_iff set_waits_on)
qed

text \<open>Following the holders finds a task again exactly when the waits have a cycle.\<close>

lemma follow_sound:
  assumes "follow m seen t" "\<And>x. x \<in> seen \<Longrightarrow> (x, t) \<in> {(a, b). map_of m a = Some b}\<^sup>+"
  shows "\<exists>x. (x, x) \<in> {(a, b). map_of m a = Some b}\<^sup>+"
  using assms
proof (induction m seen t rule: follow.induct)
  case (1 m seen t)
  let ?W = "{(a, b). map_of m a = Some b}"
  from 1(2) obtain h where h: "map_of m t = Some h" and f: "t \<in> seen \<or> follow m (insert t seen) h"
    by (subst (asm) follow.simps) (auto split: option.splits if_splits)
  show ?case
  proof (cases "t \<in> seen")
    case True
    then show ?thesis using 1(3) by blast
  next
    case False
    have "(t, h) \<in> ?W" using h by simp
    then have "(x, h) \<in> ?W\<^sup>+" if "x \<in> insert t seen" for x using that 1(3) [of x] by (auto intro: trancl_into_trancl)
    with 1(1) [OF h False] f False show ?thesis by blast
  qed
qed

lemma follow_complete: "(t, t) \<in> {(a, b). map_of m a = Some b}\<^sup>+ \<Longrightarrow> follow m seen t"
proof (induction m seen t rule: follow.induct)
  case (1 m seen t)
  let ?W = "{(a, b). map_of m a = Some b}"
  from 1(2) obtain h where h: "(t, h) \<in> ?W" "(h, t) \<in> ?W\<^sup>*" by (blast dest: tranclD)
  from h have "(h, h) \<in> ?W\<^sup>+" by (rule rtrancl_into_trancl1 [rotated])
  with 1(1) h(1) show ?case by (subst follow.simps) simp
qed

lemma lock_cycle_iff:
  assumes "distinct (parked_tasks s)"
  shows "lock_cycle s \<longleftrightarrow> \<not> acyclic (task_waits s)"
proof -
  let ?W = "{(a, b). map_of (waits_on s) a = Some b}"
  have W: "?W = task_waits s" using map_of_waits_on [OF assms] by auto
  have "lock_cycle s \<longleftrightarrow> (\<exists>x. (x, x) \<in> ?W\<^sup>+)"
  proof
    assume "lock_cycle s"
    then obtain t where "follow (waits_on s) {} t" by (auto simp: lock_cycle_def list_ex_iff)
    then show "\<exists>x. (x, x) \<in> ?W\<^sup>+" by (rule follow_sound) simp
  next
    assume "\<exists>x. (x, x) \<in> ?W\<^sup>+"
    then obtain t where t: "(t, t) \<in> ?W\<^sup>+" by blast
    then obtain h where "(t, h) \<in> set (waits_on s)" by (auto dest!: tranclD map_of_SomeD)
    with follow_complete [OF t] show "lock_cycle s" by (auto simp: lock_cycle_def list_ex_iff)
  qed
  then show ?thesis by (simp add: W acyclic_def)
qed

lemma live_count:
  assumes "sched_inv c s"
  shows "length (rs_tasks s) - length (rs_done s) = card (live s)"
proof -
  let ?d = "fst ` set (rs_done s)"
  have "live s = {..<length (rs_tasks s)} - ?d" by (auto simp: live_def is_done_def map_of_eq_None_iff)
  moreover have "?d \<subseteq> {..<length (rs_tasks s)}" "distinct (map fst (rs_done s))"
    using assms by (auto simp: sched_inv_def strict_sorted_iff)
  moreover from this have "card ?d = length (rs_done s)" using distinct_card [of "map fst (rs_done s)"] by simp
  ultimately show ?thesis by (simp add: card_Diff_subset finite_subset)
qed

lemma eligible_admit: "at_rest s \<Longrightarrow> eligible (admit s) = eligible s"
proof -
  assume "at_rest s"
  then have "rs_ready s \<union> set (rs_spawn_queue s) = rs_ready s" by (auto simp: at_rest_def)
  then show ?thesis by (simp add: eligible_def held_def admit_def)
qed

text \<open>When no ready task is accepted, the workers are held by parked tasks.\<close>

lemma starved_held:
  assumes "at_rest s" "eligible s = {}" "rs_ready s \<noteq> {}"
  shows "held s \<subseteq> set (parked_tasks s)" "card (held s) = rs_workers s"
proof -
  have inv: "sched_inv None s" using assms(1) by (simp add: at_rest_def)
  show "held s \<subseteq> set (parked_tasks s)"
  proof
    fix t assume "t \<in> held s"
    then have "t \<in> rs_mid_poll s" "t \<notin> rs_ready s" using assms(2) by (auto simp: held_def eligible_def Let_def)
    then show "t \<in> set (parked_tasks s)" using inv_lane [OF inv, of t] by (auto simp: lane_def Let_def)
  qed
  have "\<not> card (held s) < rs_workers s" using assms(2,3) by (auto simp: eligible_def Let_def)
  with inv show "card (held s) = rs_workers s" by (simp add: sched_inv_def)
qed

lemma eligible_live: "sched_inv None s \<Longrightarrow> eligible s \<subseteq> live s"
proof
  fix t assume "sched_inv None s" "t \<in> eligible s"
  then show "t \<in> live s" using inv_lane [of None s t] by (auto simp: lane_def Let_def eligible_def)
qed

lemma idle_live:
  assumes "at_rest s" "rs_ready s = {}"
  shows "live s = rs_waiting s \<union> set (parked_tasks s)"
proof -
  have inv: "sched_inv None s" and q: "rs_spawn_queue s = []" using assms by (auto simp: at_rest_def)
  have "t \<in> live s \<longleftrightarrow> t \<in> rs_waiting s \<union> set (parked_tasks s)" for t
    using inv_lane [OF inv, of t] assms(2) q by (auto simp: lane_def Let_def)
  then show ?thesis by blast
qed

text \<open>
  The split point of \<open>advance_to\<close> is the successor of its time, and there is none for the last instant, so that a timer at the last
  instant stays pending when time reaches it.
\<close>

lemma wake_timers [simp]: "rs_timers (wake_by_ref w s) = rs_timers s"
  by (simp add: wake_by_ref_def)

lemma last_instant_never_due:
  assumes "((MAX_INSTANT, seq), w) \<in> set (rs_timers s)" "advance_to MAX_INSTANT s = Ok (ids, s')"
  shows "((MAX_INSTANT, seq), w) \<in> set (rs_timers s')"
proof -
  have "rs_timers (fold wake_by_ref ws s) = rs_timers s" for ws s by (induction ws arbitrary: s) simp_all
  then show ?thesis using assms by (auto simp: advance_to_def instant_checked_add_def res_eqs Let_def)
qed

section \<open>Main theorems\<close>

text \<open>
  C5. No wake-up is lost. When a step calls the waker of a task, then in every later state before the next poll of the task starts, in
  which the task has not ended: inside a poll, the wake is recorded, and when that poll returns \<open>Pending\<close> the task is ready; otherwise
  \<open>run\<close> accepts the task as soon as a worker is free, and at once if it is a blocking job.
\<close>

theorem scheduler_no_lost_wakeups:
  assumes "reachable s" and "step s e = Ok s1" and "w \<in> event_wakes s e" and "w_gen w = rs_gen s"
    and "unpolled (w_task w) s1 s2" and "w_task w \<in> live s2"
  shows "if w_task w \<in> rs_mid_poll s2
    then w_task w \<in> rs_woken s2 \<and>
      (\<forall>code s3. snd (code Poll) = Pending \<longrightarrow> step s2 (Run (w_task w) code) = Ok s3 \<longrightarrow> w_task w \<in> rs_ready s3 - rs_mid_poll s3)
    else (card (held s2) < rs_workers s2 \<or> tm_blocking (rs_tasks s2 ! w_task w)) \<longrightarrow>
      (\<forall>code. \<exists>s3. step s2 (Run (w_task w) code) = Ok s3)"
proof -
  have rest: "at_rest s" by (rule reachable_at_rest [OF assms(1)])
  have "at_rest s2 \<and> delivered (w_task w) s2"
    using unpolled_delivered [OF assms(5) at_rest_step(1) [OF rest assms(2)] step_delivers [OF rest assms(2-4)]] .
  then have r2: "at_rest s2" and d2: "delivered (w_task w) s2" by simp_all
  show ?thesis
  proof (cases "w_task w \<in> rs_mid_poll s2")
    case True
    have "w_task w \<notin> set (rs_spawn_queue s2)" using r2 inv_lane [of None s2 "w_task w"] True by (auto simp: at_rest_def lane_def Let_def)
    then have "w_task w \<in> rs_woken s2" using d2 assms(6) True by (simp add: delivered_def)
    then show ?thesis using woken_pending_ready [OF r2 _ True] True by simp
  next
    case False
    then show ?thesis using delivered_accepted [OF r2 d2 assms(6) False] by simp
  qed
qed

text \<open>A run of a new scheduler with two workers, on given events.\<close>

definition sample_run :: "event list \<Rightarrow> (unit, run_state) res" where
  "sample_run es = bindr (new_run 1 2 10 0) (\<lambda>s. try_fold step s es)"

lemma sample_run_reachable: "sample_run es = Ok s \<Longrightarrow> reachable s"
proof -
  have "reachable s0 \<Longrightarrow> try_fold step s0 es = Ok s \<Longrightarrow> reachable s" for s0
    by (induction es arbitrary: s0) (auto simp: bindr_eq_Ok intro: reachable.step)
  then show "sample_run es = Ok s \<Longrightarrow> reachable s" by (auto simp: sample_run_def bindr_eq_Ok intro: reachable.init)
qed

lemmas sample_simps = sample_run_def new_run_def assertr_def spawn_root_def queue_spawn_def count_child_def Let_def new_meta_def admit_def
  run_task_def eligible_def held_def resume_def before_return_def after_return_def advance_point_def wake_by_ref_def live_def is_done_def

theorem scheduler_no_lost_wakeups_witness:
  "\<exists>s s1. sample_run [SpawnRoot ''a'', Run 0 (\<lambda>_. ([], Pending))] = Ok s \<and>
     step s (Setup (Wake \<lparr>w_task = 0, w_gen = 1\<rparr>)) = Ok s1 \<and> (\<forall>code. \<exists>s2. step s1 (Run 0 code) = Ok s2)"
proof -
  let ?w = "\<lparr>w_task = 0, w_gen = 1\<rparr>"
  obtain s where s: "sample_run [SpawnRoot ''a'', Run 0 (\<lambda>_. ([], Pending))] = Ok s"
    and f: "rs_gen s = 1" "rs_waiting s = {0}" "rs_mid_poll s = {}" "rs_workers s = 2" "rs_done s = []" "length (rs_tasks s) = 1"
    by (simp add: sample_simps)
  obtain s1 where s1: "step s (Setup (Wake ?w)) = Ok s1" "rs_mid_poll s1 = {}" "rs_workers s1 = 2" "0 \<in> live s1"
    using f by (cases "rs_tasks s") (simp_all add: wake_by_ref_def live_def is_done_def)
  have "\<forall>code. \<exists>s2. step s1 (Run 0 code) = Ok s2"
    using scheduler_no_lost_wakeups [OF sample_run_reachable [OF s] s1(1), of ?w s1] s1(2-4) f(1)
    by (simp add: unpolled_refl held_def)
  with s s1(1) show ?thesis by blast
qed



end
