(* ===== verification/Spec2Isabelle.thy ===== *)
theory Spec2Isabelle
  imports Chain_History Value_Balance Adjusted_Difficulty Task_Scheduler
begin

text \<open>
  A verification library of the consensus core of the Zcash node in this repository, and of the scheduler of its simulator. Paths
  are relative to \<open>src/crates\<close>.

  \<^bold>\<open>The program.\<close> A network (\<open>zakura-chain/src/parameters\<close>) fixes when each upgrade activates, which subsidy a block has and who
  receives it. Headers (\<open>zakura-chain/src/block\<close>) carry a difficulty threshold, a Merkle root of the transactions and a commitment;
  the header chain (\<open>zakura-header-chain\<close>) checks time and threshold against the preceding headers, the state
  (\<open>zakura-state\<close>) checks the commitment against the chain history tree (\<open>zakura-chain/src/history_tree.rs\<close> over
  \<open>zakura-mmr-tree\<close>) and keeps the value pools (\<open>zakura-chain/src/value_balance.rs\<close>). The simulator runs the node's tasks one
  step at a time on a deterministic scheduler (\<open>zakura-scheduler\<close>).

  \<^bold>\<open>Conventions.\<close> A Rust call that returns a \<open>Result\<close> and may panic is a value of type \<open>res\<close>: \<open>Ok\<close>, \<open>Err\<close> or
  \<open>Panic\<close>. Failing assertions, \<open>expect\<close>, index and arithmetic overflow are \<open>Panic\<close>. Unsigned integers are naturals and signed
  ones integers, with the bounds written out; 256-bit targets and compact thresholds are words. Structs are records, enums
  datatypes, a \<open>BTreeMap\<close> an association list in key order. State is passed explicitly. Hash functions, the Equihash verifier,
  decoders of addresses and hashes, built-in data files, and the code of simulated tasks are parameters; what is used of them
  is a named hypothesis (\<open>digest_32\<close> and \<open>sha256_32\<close>, the length of a digest) with a concrete instance in each witness.

  \<^bold>\<open>Theories, from the bottom up.\<close>

  \<^item> \<open>Zakura_Prelude\<close>: results and panics, checked arithmetic, bisection with the locale of monotone tests, little-endian bytes,
    ordered maps.
  \<^item> \<open>Amount\<close> (\<open>amount.rs\<close>), \<open>Height\<close> (\<open>block/height.rs\<close>): arithmetic is exact or reports the exact overflow. The locale
    \<open>amount_constraint\<close> holds the contract of a constraint and is interpreted for all three.
  \<^item> \<open>Network_Upgrade\<close> (\<open>parameters/network_upgrade.rs\<close>), \<open>Subsidy_Constants\<close>, \<open>Network\<close> (\<open>parameters/network.rs\<close>,
    \<open>network/testnet.rs\<close>): upgrades as a linear order, branch ids, activation lookups. The locale \<open>valid_net\<close> is the invariant of a
    network; it is interpreted for Mainnet and the default Testnet and proved of every network the builder accepts.
  \<^item> \<open>Difficulty\<close> (\<open>work/difficulty.rs\<close>): compact and expanded thresholds and work against their meaning over the integers.
  \<^item> \<open>Subsidy\<close>, \<open>Issuance\<close>, \<open>Funding_Streams\<close> (\<open>network/subsidy.rs\<close>, \<open>subsidy/fees.rs\<close>, \<open>zakura-consensus/src/block/subsidy.rs\<close>): the
    halving schedule and its inverse, the closed forms of issuance and of the reissuance crossing against sums and first
    heights, the shares of founders, funding streams and miner, which add up to the subsidy.
  \<^item> \<open>Checkpoints\<close> (\<open>checkpoint/list.rs\<close>): parsing, checking and the lookups, which agree.
  \<^item> \<open>Testnet_Builder\<close> (\<open>network/testnet.rs\<close>): every setter and check of the builder; the inductive predicate \<open>built\<close> is what any sequence
    of setters can produce. An accepted network is valid and pays every block.
  \<^item> \<open>Byte_Readers\<close>, \<open>Zcash_Serialization\<close> (\<open>serialization\<close>), \<open>Block_Header\<close> (\<open>block/header.rs\<close>, \<open>serialize.rs\<close>, \<open>work/equihash.rs\<close>): parsers that
    consume exactly what was written; the header format is canonical.
  \<^item> \<open>Merkle_Roots\<close> (\<open>block/merkle.rs\<close>, \<open>zakura-consensus/src/block/check.rs\<close>): equal roots of accepted lists mean equal lists or a hash
    collision.
  \<^item> \<open>History_Nodes\<close>, \<open>History_Tree\<close> (\<open>zakura-mmr-tree\<close>): the metadata of three tree versions behind the locale \<open>history_version\<close>, the
    partially loaded Merkle mountain range, and that appending and truncating refine the operations on the list of leaves.
  \<^item> \<open>Chain_History\<close> (\<open>primitives/zcash_history.rs\<close>, \<open>history_tree.rs\<close>, \<open>zakura-state/src/service/check.rs\<close>): the tree over blocks, its
    pruning and restoring, and the commitment check. The locale \<open>history_leaves\<close> extends \<open>history_version\<close> and is interpreted for the three
    versions.
  \<^item> \<open>Value_Balance\<close> (\<open>value_balance.rs\<close>): the pools of a chain keep their type, and the stored form round trips.
  \<^item> \<open>Adjusted_Difficulty\<close> (\<open>zakura-header-chain/src/validation/contextual\<close>): the contextual check equals the rule over unbounded integers.
  \<^item> \<open>Task_Scheduler\<close> (\<open>zakura-scheduler/src\<close>): the state of a run, every hook, and the steps of the driver. The locale \<open>sched_op\<close> is
    the contract of what a task may call; it is interpreted for wakers and for hooks. An invariant of all reachable states gives that no
    wake-up is lost, that workers are never exceeded, and the meaning of the status.

  \<^bold>\<open>Termination.\<close> Loops are recursive functions with a measure: the bisections, the walk over runs of constant subsidy, the
  reduction of Merkle layers, the walk over peaks, the search for lock cycles. Only \<open>get_peaks\<close>, which follows links of a view that might be
  cyclic, is a partial function into \<open>option\<close>; on every view that represents a list of leaves it is proved to return. No
  definition uses fuel.

  \<^bold>\<open>Not modelled.\<close> Transactions, notes, keys and shielded pools (they are calls into curve and proof crates); the asynchronous
  services of consensus, state, network, RPC and the node itself; the fork graph of the header chain; the database; display and
  serde forms; the shutdown of a scheduler run, its coroutine stacks and random draws; the simulator's plans and traces; tools, tests,
  deployment files.
\<close>

end
